(* ===== verification/Prelude.thy ===== *)
theory Prelude
  imports Main "HOL-Library.Word"
begin

text \<open>
  What the component theories share: the machine types of the Rust sources, results
  (\<open>Ok\<close>/\<open>Err\<close> values and panics as a sum type) with the combinators the sources write as
  \<open>?\<close>, \<open>ensure!\<close>, \<open>ok_or\<close> and \<open>for x in xs { f(x)?; }\<close>, the same for code that mutates a
  state, and the generic lemmas on lists and words the components use. A Rust arithmetic
  operation is the release build's: \<open>Cargo.toml\<close> leaves \<open>overflow-checks\<close> off, so \<open>+\<close>,
  \<open>-\<close> and \<open>*\<close> on \<open>u64\<close> wrap, as they do on \<open>64 word\<close>.
\<close>

unbundle bit_operations_syntax

section \<open>Machine types\<close>

type_synonym u32 = "32 word"
type_synonym u64 = "64 word"
type_synonym hash_value = "256 word"
type_synonym account_address = "128 word"

section \<open>Results\<close>

text \<open>
  A call either returns \<open>Ok\<close> (\<open>Inr\<close>), returns \<open>Err\<close> or panics (\<open>expect\<close>, \<open>unwrap\<close>,
  \<open>assert!\<close>, an index out of range). The last two are values of \<open>fault\<close>, so that the
  absence of panics is a statement about the model.
\<close>

datatype 'e fault = Err 'e | Panic string

type_synonym ('e, 'a) result = "'e fault + 'a"
type_synonym 'a anyhow = "string fault + 'a"

named_theorems result_simps \<open>when a composed call returns Ok\<close>

primrec rbind :: "'e + 'a \<Rightarrow> ('a \<Rightarrow> 'e + 'b) \<Rightarrow> 'e + 'b" where
  "rbind (Inl e) f = Inl e"
| "rbind (Inr x) f = f x"

definition ensure :: "bool \<Rightarrow> 'e \<Rightarrow> ('e, unit) result" where
  "ensure b e = (if b then Inr () else Inl (Err e))"

definition assert_that :: "bool \<Rightarrow> string \<Rightarrow> ('e, unit) result" where
  "assert_that b msg = (if b then Inr () else Inl (Panic msg))"

primrec ok_or :: "'a option \<Rightarrow> 'e \<Rightarrow> ('e, 'a) result" where
  "ok_or None e = Inl (Err e)"
| "ok_or (Some x) e = Inr x"

primrec expect :: "'a option \<Rightarrow> string \<Rightarrow> ('e, 'a) result" where
  "expect None msg = Inl (Panic msg)"
| "expect (Some x) msg = Inr x"

primrec map_err :: "('e \<Rightarrow> 'f) \<Rightarrow> 'e fault \<Rightarrow> 'f fault" where
  "map_err g (Err e) = Err (g e)"
| "map_err g (Panic msg) = Panic msg"

primrec rmap_err :: "('e \<Rightarrow> 'f) \<Rightarrow> ('e, 'a) result \<Rightarrow> ('f, 'a) result" where
  "rmap_err g (Inl e) = Inl (map_err g e)"
| "rmap_err g (Inr x) = Inr x"

text \<open>\<open>Result::expect\<close>: an error becomes a panic.\<close>

primrec rexpect :: "('e, 'a) result \<Rightarrow> string \<Rightarrow> ('f, 'a) result" where
  "rexpect (Inl e) msg = Inl (Panic msg)"
| "rexpect (Inr x) msg = Inr x"

definition is_ok :: "'e + 'a \<Rightarrow> bool" where
  "is_ok r = (case r of Inl _ \<Rightarrow> False | Inr _ \<Rightarrow> True)"

text \<open>\<open>for x in xs { f(x)?; }\<close> and \<open>xs.iter().map(f).collect::<Result<Vec<_>>>()\<close>.\<close>

primrec rfor_each :: "('a \<Rightarrow> 'e + unit) \<Rightarrow> 'a list \<Rightarrow> 'e + unit" where
  "rfor_each f [] = Inr ()"
| "rfor_each f (x # xs) = rbind (f x) (\<lambda>_. rfor_each f xs)"

primrec rmap :: "('a \<Rightarrow> 'e + 'b) \<Rightarrow> 'a list \<Rightarrow> 'e + 'b list" where
  "rmap f [] = Inr []"
| "rmap f (x # xs) = rbind (f x) (\<lambda>y. rbind (rmap f xs) (\<lambda>ys. Inr (y # ys)))"

primrec rfold :: "('a \<Rightarrow> 'b \<Rightarrow> 'e + 'b) \<Rightarrow> 'a list \<Rightarrow> 'b \<Rightarrow> 'e + 'b" where
  "rfold f [] acc = Inr acc"
| "rfold f (x # xs) acc = rbind (f x acc) (rfold f xs)"

lemma rbind_eq_Inr [result_simps]: "rbind r f = Inr y \<longleftrightarrow> (\<exists>x. r = Inr x \<and> f x = Inr y)"
  by (cases r) auto

lemma rbind_cong [fundef_cong]:
  "r = r' \<Longrightarrow> (\<And>x. r' = Inr x \<Longrightarrow> f x = f' x) \<Longrightarrow> rbind r f = rbind r' f'"
  by (cases r') auto

lemma rbind_eq_Inl:
  "rbind r f = Inl e \<longleftrightarrow> r = Inl e \<or> (\<exists>x. r = Inr x \<and> f x = Inl e)"
  by (cases r) auto

lemma ensure_eq_Inr [result_simps]: "ensure b e = Inr u \<longleftrightarrow> b"
  by (simp add: ensure_def)

lemma ensure_True [simp]: "ensure True e = Inr ()"
  by (simp add: ensure_def)

lemma ensure_False [simp]: "ensure False e = Inl (Err e)"
  by (simp add: ensure_def)

lemma assert_that_eq_Inr [result_simps]: "assert_that b msg = Inr u \<longleftrightarrow> b"
  by (simp add: assert_that_def)

lemma ok_or_eq_Inr [result_simps]: "ok_or opt e = Inr x \<longleftrightarrow> opt = Some x"
  by (cases opt) auto

lemma expect_eq_Inr [result_simps]: "expect opt e = Inr x \<longleftrightarrow> opt = Some x"
  by (cases opt) auto

lemma rmap_err_eq_Inr [result_simps]: "rmap_err g r = Inr x \<longleftrightarrow> r = Inr x"
  by (cases r) auto

lemma rexpect_eq_Inr [result_simps]: "rexpect r msg = Inr x \<longleftrightarrow> r = Inr x"
  by (cases r) auto

lemma is_ok_iff: "is_ok r \<longleftrightarrow> (\<exists>x. r = Inr x)"
  by (cases r) (auto simp: is_ok_def)

lemma rfor_each_eq_Inr [result_simps]:
  "rfor_each f xs = Inr u \<longleftrightarrow> (\<forall>x \<in> set xs. f x = Inr ())"
  by (induction xs) (auto simp: rbind_eq_Inr)

lemma rmap_eq_Inr_iff:
  "rmap f xs = Inr ys \<longleftrightarrow> list_all2 (\<lambda>x y. f x = Inr y) xs ys"
  by (induction xs arbitrary: ys) (auto simp: rbind_eq_Inr list_all2_Cons1)

lemma rmap_total: "(\<And>x. x \<in> set xs \<Longrightarrow> f x = Inr (g x)) \<Longrightarrow> rmap f xs = Inr (map g xs)"
  by (induction xs) auto

section \<open>Code that mutates a state\<close>

text \<open>
  \<open>fn f(&mut self, ...) -> Result<T, E>\<close>: the state is returned on the error paths too,
  with whatever had been written before the \<open>?\<close> that left the function.
\<close>

type_synonym ('s, 'e, 'a) st = "'s \<Rightarrow> ('e, 'a) result \<times> 's"

definition st_bind :: "('s, 'e, 'a) st \<Rightarrow> ('a \<Rightarrow> ('s, 'e, 'b) st) \<Rightarrow> ('s, 'e, 'b) st" where
  "st_bind m f s = (case m s of (Inl e, s') \<Rightarrow> (Inl e, s') | (Inr x, s') \<Rightarrow> f x s')"

definition st_ok :: "'a \<Rightarrow> ('s, 'e, 'a) st" where
  "st_ok x s = (Inr x, s)"

definition st_err :: "'e \<Rightarrow> ('s, 'e, 'a) st" where
  "st_err e s = (Inl (Err e), s)"

text \<open>A call on \<open>&self\<close>: it reads the state and returns a result.\<close>

definition st_read :: "('s \<Rightarrow> ('e, 'a) result) \<Rightarrow> ('s, 'e, 'a) st" where
  "st_read f s = (f s, s)"

definition st_modify :: "('s \<Rightarrow> 's) \<Rightarrow> ('s, 'e, unit) st" where
  "st_modify f s = (Inr (), f s)"

lemma st_bind_eq_Inr [result_simps]:
  "st_bind m f s = (Inr y, s') \<longleftrightarrow> (\<exists>x t. m s = (Inr x, t) \<and> f x t = (Inr y, s'))"
  by (auto simp: st_bind_def split: prod.splits sum.splits)

lemma st_bind_cases:
  "st_bind m f s = (r, s') \<longleftrightarrow>
     (\<exists>e. m s = (Inl e, s') \<and> r = Inl e) \<or> (\<exists>x t. m s = (Inr x, t) \<and> f x t = (r, s'))"
  by (auto simp: st_bind_def split: prod.splits sum.splits)

lemma st_ok_eq [result_simps]: "st_ok x s = (r, s') \<longleftrightarrow> r = Inr x \<and> s' = s"
  by (auto simp: st_ok_def)

lemma st_err_eq [result_simps]: "st_err e s = (r, s') \<longleftrightarrow> r = Inl (Err e) \<and> s' = s"
  by (auto simp: st_err_def)

lemma st_read_eq [result_simps]: "st_read f s = (r, s') \<longleftrightarrow> r = f s \<and> s' = s"
  by (auto simp: st_read_def)

lemma st_modify_eq [result_simps]: "st_modify f s = (r, s') \<longleftrightarrow> r = Inr () \<and> s' = f s"
  by (auto simp: st_modify_def)

text \<open>An invariant of the state that every part of a composed call keeps, errors included.\<close>

lemma st_bind_invariant:
  assumes "P s"
    and "\<And>r t. m s = (r, t) \<Longrightarrow> P t"
    and "\<And>x t r s'. m s = (Inr x, t) \<Longrightarrow> P t \<Longrightarrow> f x t = (r, s') \<Longrightarrow> P s'"
    and "st_bind m f s = (r, s')"
  shows "P s'"
  using assms by (auto simp: st_bind_cases)

section \<open>Lists\<close>

lemma sum_list_map_distinct: "distinct xs \<Longrightarrow> sum_list (map f xs) = sum f (set xs)"
  by (induction xs) auto

lemma dropWhile_last_notin:
  "xs \<noteq> [] \<Longrightarrow> \<not> P (last xs) \<Longrightarrow> dropWhile P xs \<noteq> [] \<and> last (dropWhile P xs) = last xs"
  by (induction xs) (auto split: if_splits)

lemma hd_dropWhile_not: "dropWhile P xs = y # ys \<Longrightarrow> \<not> P y"
  using hd_dropWhile [of P xs] by simp

text \<open>\<open>Vec::pop\<close>.\<close>

definition vec_pop :: "'a list \<Rightarrow> ('a \<times> 'a list) option" where
  "vec_pop xs = (if xs = [] then None else Some (last xs, butlast xs))"

lemma vec_pop_snoc [simp]: "vec_pop (xs @ [x]) = Some (x, xs)"
  by (simp add: vec_pop_def)

lemma vec_pop_Nil [simp]: "vec_pop [] = None"
  by (simp add: vec_pop_def)

section \<open>Words\<close>

text \<open>
  The bit operations of Rust's \<open>u64\<close>. In a release build the shift count is taken modulo 64.
\<close>

definition shl :: "u64 \<Rightarrow> nat \<Rightarrow> u64" where
  "shl v n = push_bit (n mod 64) v"

definition shr :: "u64 \<Rightarrow> nat \<Rightarrow> u64" where
  "shr v n = drop_bit (n mod 64) v"

definition trailing_zeros :: "u64 \<Rightarrow> nat" where
  "trailing_zeros v = length (takeWhile (\<lambda>i. \<not> bit v i) [0..<64])"

definition leading_zeros :: "u64 \<Rightarrow> nat" where
  "leading_zeros v = length (takeWhile (\<lambda>i. \<not> bit v i) (rev [0..<64]))"

definition count_ones :: "u64 \<Rightarrow> nat" where
  "count_ones v = length (filter (bit v) [0..<64])"

lemma upt_split: "k \<le> n \<Longrightarrow> [0..<n] = [0..<k] @ [k..<n]"
  by (metis le_add_diff_inverse upt_add_eq_append zero_le)

lemma upt_append_split: "i \<le> k \<Longrightarrow> k \<le> n \<Longrightarrow> [i..<n] = [i..<k] @ [k..<n]"
  by (metis le_add_diff_inverse upt_add_eq_append)

lemma takeWhile_all [simp]: "takeWhile (\<lambda>i. True) xs = xs"
  by (induction xs) auto

lemma length_takeWhile_upt:
  assumes "k < n" and "P k" and "\<And>i. i < k \<Longrightarrow> \<not> P i"
  shows "length (takeWhile (\<lambda>i. \<not> P i) [0..<n]) = k"
proof -
  have "[0..<n] = [0..<k] @ k # [Suc k..<n]"
    using assms(1) upt_split [of k n] upt_conv_Cons [of k n] by simp
  moreover have "takeWhile (\<lambda>i. \<not> P i) ([0..<k] @ k # [Suc k..<n]) = [0..<k]"
    using assms(2,3) by (subst takeWhile_append2) auto
  ultimately show ?thesis by simp
qed

lemma trailing_zeros_eq:
  "k < 64 \<Longrightarrow> bit v k \<Longrightarrow> (\<And>i. i < k \<Longrightarrow> \<not> bit v i) \<Longrightarrow> trailing_zeros v = k"
  unfolding trailing_zeros_def by (rule length_takeWhile_upt)

lemma trailing_zeros_props:
  assumes "v \<noteq> 0"
  shows "trailing_zeros v < 64" and "bit v (trailing_zeros v)"
    and "i < trailing_zeros v \<Longrightarrow> \<not> bit v i"
proof -
  have "\<exists>k. bit v k" using assms by (auto simp: bit_eq_iff)
  then obtain k where k: "bit v k" by blast
  define l where "l = (LEAST k. bit v k)"
  have l: "bit v l" unfolding l_def using k by (rule LeastI)
  have below: "\<not> bit v i" if "i < l" for i using not_less_Least that unfolding l_def by blast
  have "l < 64" using bit_imp_le_length [OF l] by simp
  then have "trailing_zeros v = l" using l below by (rule trailing_zeros_eq)
  with l below \<open>l < 64\<close> show "trailing_zeros v < 64" and "bit v (trailing_zeros v)"
    and "i < trailing_zeros v \<Longrightarrow> \<not> bit v i" by simp_all
qed

lemma trailing_zeros_0 [simp]: "trailing_zeros 0 = 64"
  by (simp add: trailing_zeros_def)

lemma leading_zeros_eq:
  assumes "k < 64" and "bit v k" and "\<And>i. k < i \<Longrightarrow> i < 64 \<Longrightarrow> \<not> bit v i"
  shows "leading_zeros v = 63 - k"
proof -
  have "[0..<64] = [0..<Suc k] @ [Suc k..<64]"
    using assms(1) by (intro upt_split) simp
  then have "rev [0..<64] = rev [Suc k..<64] @ k # rev [0..<k]"
    by simp
  moreover have "takeWhile (\<lambda>i. \<not> bit v i) (rev [Suc k..<64] @ k # rev [0..<k]) = rev [Suc k..<64]"
    using assms(2,3) by (subst takeWhile_append2) auto
  ultimately show ?thesis by (simp add: leading_zeros_def)
qed

lemma leading_zeros_0 [simp]: "leading_zeros 0 = 64"
  by (simp add: leading_zeros_def)

lemma bit_u64_of_nat: "bit (of_nat n :: u64) i \<longleftrightarrow> i < 64 \<and> bit n i"
  by transfer (simp add: bit_take_bit_iff bit_of_nat_iff)

lemma bit_lt_pow: "(p::nat) < 2 ^ n \<Longrightarrow> n \<le> i \<Longrightarrow> \<not> bit p i"
  by (metis bit_take_bit_iff linorder_not_le take_bit_nat_eq_self)

lemma bit_unat: "bit (unat (v :: u64)) i \<longleftrightarrow> bit v i"
  using bit_imp_le_length [of v i] by (auto simp: bit_unsigned_iff)

text \<open>The integer part of the binary logarithm, the number of the highest one bit.\<close>

fun nlog2 :: "nat \<Rightarrow> nat" where
  "nlog2 n = (if n < 2 then 0 else Suc (nlog2 (n div 2)))"

declare nlog2.simps [simp del]

lemma nlog2_bounds: "0 < n \<Longrightarrow> 2 ^ nlog2 n \<le> n \<and> n < 2 ^ Suc (nlog2 n)"
proof (induction n rule: nlog2.induct)
  case (1 n)
  show ?case
  proof (cases "n < 2")
    case True
    with "1.prems" show ?thesis by (subst (1 2) nlog2.simps) simp
  next
    case False
    with "1.IH" have "2 ^ nlog2 (n div 2) \<le> n div 2 \<and> n div 2 < 2 ^ Suc (nlog2 (n div 2))"
      by simp
    moreover from False have "nlog2 n = Suc (nlog2 (n div 2))" by (subst nlog2.simps) simp
    ultimately show ?thesis by auto
  qed
qed

lemma nlog2_unique: "2 ^ m \<le> n \<Longrightarrow> n < 2 ^ Suc m \<Longrightarrow> nlog2 n = m"
proof (rule ccontr)
  assume m: "2 ^ m \<le> n" "n < 2 ^ Suc m" and ne: "nlog2 n \<noteq> m"
  then have n: "0 < n" using zero_less_power [of "2::nat" m] by linarith
  from ne consider "Suc (nlog2 n) \<le> m" | "Suc m \<le> nlog2 n" by linarith
  then show False
  proof cases
    case 1
    then have "(2::nat) ^ Suc (nlog2 n) \<le> 2 ^ m" by (rule power_increasing) simp
    with m nlog2_bounds [OF n] show False by linarith
  next
    case 2
    then have "(2::nat) ^ Suc m \<le> 2 ^ nlog2 n" by (rule power_increasing) simp
    with m nlog2_bounds [OF n] show False by linarith
  qed
qed

lemma bit_nlog2: "0 < n \<Longrightarrow> bit n (nlog2 n)"
proof -
  assume n: "0 < n"
  then have "n div 2 ^ nlog2 n = 1"
    using nlog2_bounds [OF n] by (intro div_nat_eqI) (auto simp: mult_2)
  then show ?thesis by (simp add: bit_iff_odd)
qed

lemma bit_le_nlog2: "bit n i \<Longrightarrow> i \<le> nlog2 n"
proof (rule ccontr)
  assume bit: "bit n i" and "\<not> i \<le> nlog2 n"
  then have "Suc (nlog2 n) \<le> i" by simp
  moreover have "0 < n" using bit by (cases n) auto
  ultimately show False using bit bit_lt_pow nlog2_bounds by blast
qed

lemma nlog2_u64: "unat (v :: u64) \<noteq> 0 \<Longrightarrow> nlog2 (unat v) < 64"
  using bit_nlog2 [of "unat v"] bit_imp_le_length [of v] by (auto simp: bit_unat)

lemma leading_zeros_nlog2: "v \<noteq> 0 \<Longrightarrow> leading_zeros v = 63 - nlog2 (unat v)"
proof -
  assume v: "v \<noteq> 0"
  then have n: "0 < unat v" by (simp add: unat_gt_0)
  show ?thesis
  proof (rule leading_zeros_eq)
    show "nlog2 (unat v) < 64" using n nlog2_u64 by simp
    show "bit v (nlog2 (unat v))" using bit_nlog2 [OF n] by (simp add: bit_unat)
    show "\<not> bit v i" if "nlog2 (unat v) < i" for i
      using that bit_le_nlog2 [of "unat v" i] by (auto simp: bit_unat)
  qed
qed

lemma u64_less_iff: "(a :: u64) < b \<longleftrightarrow> unat a < unat b"
  by (simp add: word_less_nat_alt)

lemma u64_le_iff: "(a :: u64) \<le> b \<longleftrightarrow> unat a \<le> unat b"
  by (simp add: word_le_nat_alt)

lemma unat_u64_lt: "unat (a :: u64) < 18446744073709551616"
  using unsigned_less [of a] by simp

lemma unat_add_u64: "unat a + unat b < 2 ^ 64 \<Longrightarrow> unat (a + b :: u64) = unat a + unat b"
  by (simp add: unat_word_ariths)

lemma unat_plus_one_u64:
  "a \<noteq> - 1 \<Longrightarrow> unat (a + 1 :: u64) = unat a + 1"
  using unatSuc [of a] by (auto simp: add.commute add_eq_0_iff)

lemma unat_of_nat_u64: "n < 2 ^ 64 \<Longrightarrow> unat (of_nat n :: u64) = n"
  by (simp add: unat_of_nat)

lemma unat_mask_u64: "n \<le> 64 \<Longrightarrow> unat (mask n :: u64) = 2 ^ n - 1"
proof -
  assume "n \<le> 64"
  then have "(2::nat) ^ n \<le> 2 ^ 64" by (intro power_increasing) simp_all
  moreover have "(0::nat) < 2 ^ n" by simp
  ultimately have "(2::nat) ^ n - 1 < 2 ^ 64" by linarith
  then have "unat (of_nat (2 ^ n - 1) :: u64) = 2 ^ n - 1" by (rule unat_of_nat_u64)
  then show ?thesis by (simp add: mask_eq_exp_minus_1 of_nat_diff)
qed

text \<open>The number of one bits.\<close>

fun popcount :: "nat \<Rightarrow> nat" where
  "popcount n = (if n = 0 then 0 else n mod 2 + popcount (n div 2))"

declare popcount.simps [simp del]

lemma popcount_0 [simp]: "popcount 0 = 0"
  by (simp add: popcount.simps)

lemma popcount_1 [simp]: "popcount (Suc 0) = Suc 0"
  by (simp add: popcount.simps [of "Suc 0"])

lemma popcount_rec: "popcount n = n mod 2 + popcount (n div 2)"
  by (cases "n = 0") (simp_all add: popcount.simps [of n])

lemma popcount_double [simp]: "popcount (2 * n) = popcount n"
  by (cases "n = 0") (simp_all add: popcount.simps [of "2 * n"])

lemma popcount_Suc_double [simp]: "popcount (Suc (2 * n)) = Suc (popcount n)"
  by (simp add: popcount.simps [of "Suc (2 * n)"])

lemma popcount_shift [simp]: "popcount (n * 2 ^ k) = popcount n"
proof (induction k)
  case (Suc k)
  have "n * 2 ^ Suc k = 2 * (n * 2 ^ k)" by simp
  with Suc show ?case by (simp only: popcount_double)
qed simp

lemma popcount_le: "popcount n \<le> n"
proof (induction n rule: popcount.induct)
  case (1 n)
  have "n mod 2 + n div 2 \<le> n" by presburger
  with 1 show ?case by (cases "n = 0") (auto simp: popcount.simps [of n])
qed

lemma filter_bit_upt:
  "length (filter (bit n) [0..<k]) = popcount (n mod 2 ^ k)" for n :: nat
proof (induction k arbitrary: n)
  case 0
  show ?case by simp
next
  case (Suc k)
  have "filter (bit n) [0..<Suc k] = filter (bit n) (0 # map Suc [0..<k])"
    by (simp only: upt_rec[of 0 "Suc k"] map_Suc_upt) simp
  then have "length (filter (bit n) [0..<Suc k]) = n mod 2 + length (filter (bit (n div 2)) [0..<k])"
    by (simp add: filter_map comp_def bit_Suc bit_0 mod2_eq_if)
  also have "\<dots> = n mod 2 + popcount (n div 2 mod 2 ^ k)" using Suc by simp
  also have "\<dots> = popcount (n mod 2 ^ Suc k)"
  proof -
    have "n mod 2 ^ Suc k = 2 * (n div 2 mod 2 ^ k) + n mod 2" 
      by (simp add: mod_mult2_eq)
    then show ?thesis by (cases "even n") (simp_all add: mod2_eq_if)
  qed
  finally show ?case .
qed

lemma count_ones_popcount: "count_ones v = popcount (unat v)"
proof -
  have "filter (bit v) [0..<64] = filter (bit (unat v)) [0..<64]"
    by (intro filter_cong) (simp_all add: bit_unat)
  then have "count_ones v = popcount (unat v mod 2 ^ 64)"
    unfolding count_ones_def by (simp only: filter_bit_upt)
  moreover have "unat v mod 2 ^ 64 = unat v" using unat_u64_lt[of v] by simp
  ultimately show ?thesis by simp
qed

lemma popcount_le_shift: "popcount p \<le> p * 2 ^ k"
proof -
  have "p * 1 \<le> p * 2 ^ k" by (intro mult_le_mono2) simp
  with popcount_le [of p] show ?thesis by linarith
qed

lemma two_le_pow: "2 \<le> (2::nat) ^ Suc l" by simp

lemma popcount_add_shift:
  "x < 2 ^ i \<Longrightarrow> popcount (x + y * 2 ^ i) = popcount x + popcount y"
proof (induction i arbitrary: x)
  case 0
  then show ?case by simp
next
  case (Suc i)
  have mod: "(x + y * 2 ^ Suc i) mod 2 = x mod 2"
    and div: "(x + y * 2 ^ Suc i) div 2 = x div 2 + y * 2 ^ i" by (simp_all add: mult.left_commute [of y])
  have "x div 2 < 2 ^ i" using Suc.prems by simp
  note IH = Suc.IH [OF this]
  from popcount_rec [of x] show ?case
    unfolding popcount_rec [of "x + y * 2 ^ Suc i"] mod div IH by linarith
qed

lemma popcount_mask [simp]: "popcount (2 ^ k - Suc 0) = k"
proof (induction k)
  case (Suc k)
  have "2 ^ Suc k - 1 = (2 ^ k - 1) + 1 * (2::nat) ^ k" by simp
  also have "popcount \<dots> = popcount (2 ^ k - 1) + popcount 1"
    by (rule popcount_add_shift) simp
  finally show ?case using Suc by simp
qed simp

lemma mod_Suc_bit: "B mod 2 ^ Suc i = B mod 2 ^ i + of_bool (bit B i) * 2 ^ i" for B :: nat
  unfolding take_bit_eq_mod [symmetric] by (simp add: take_bit_Suc_from_most)

lemma shr_1_less: "0 < (v::u64) \<Longrightarrow> unat (shr v (Suc 0)) < unat v"
proof -
  assume "0 < v"
  then have "0 < unat v" by (simp add: word_less_nat_alt)
  moreover have "unat (shr v (Suc 0)) = unat v div 2"
    by (simp add: shr_def drop_bit_Suc unat_div_distrib)
  ultimately show ?thesis by simp
qed

lemma shl_1_trailing_zeros:
  "v \<noteq> 0 \<Longrightarrow> shl v (Suc 0) \<noteq> 0 \<Longrightarrow> trailing_zeros v < trailing_zeros (shl v (Suc 0)) \<and> trailing_zeros (shl v (Suc 0)) < 64"
proof -
  assume v: "v \<noteq> 0" and s: "shl v (Suc 0) \<noteq> 0"
  let ?t = "trailing_zeros (shl v (Suc 0))"
  have b: "bit (shl v (Suc 0)) i \<longleftrightarrow> 0 < i \<and> i < 64 \<and> bit v (i - 1)" for i
  proof -
    have e: "shl v (Suc 0) = push_bit 1 v" by (simp add: shl_def)
    show ?thesis unfolding e bit_push_bit_iff by auto
  qed
  from trailing_zeros_props(1,2) [OF s] b have t: "?t < 64" "0 < ?t" "bit v (?t - 1)" by auto
  have "\<not> ?t - 1 < trailing_zeros v" using t(3) trailing_zeros_props(3) [OF v] by blast
  with t show ?thesis by linarith
qed

end
