(* ===== verification/Position.thy ===== *)
theory Position
  imports Prelude
begin

text \<open>
  Positions of nodes in an unbounded binary tree by their in-order number, as a \<open>u64\<close>
  (\<open>types/src/proof/position/mod.rs\<close>). The operations are the source's bit manipulations;
  the lemmas relate them to the pair of a level and an index within the level, in which the
  tree's structure is plain arithmetic.
\<close>

section \<open>Operations\<close>

type_synonym leaf_count = u64

definition MAX_ACCUMULATOR_PROOF_DEPTH :: nat where
  "MAX_ACCUMULATOR_PROOF_DEPTH = 63"

definition MAX_ACCUMULATOR_LEAVES :: leaf_count where
  "MAX_ACCUMULATOR_LEAVES = shl 1 MAX_ACCUMULATOR_PROOF_DEPTH"

datatype position = Position (to_inorder_index: u64)

datatype node_direction = Left | Right

definition from_inorder_index :: "u64 \<Rightarrow> position" where
  "from_inorder_index index = Position index"

definition smear_ones_for_u64 :: "u64 \<Rightarrow> u64" where
  "smear_ones_for_u64 v =
     (let n = v;
          n = n OR shr n 1;
          n = n OR shr n 2;
          n = n OR shr n 4;
          n = n OR shr n 8;
          n = n OR shr n 16;
          n = n OR shr n 32
      in n)"

definition turn_off_right_most_n_bits :: "u64 \<Rightarrow> nat \<Rightarrow> u64" where
  "turn_off_right_most_n_bits v n = shl (shr v n) n"

definition isolate_rightmost_zero_bit :: "u64 \<Rightarrow> u64" where
  "isolate_rightmost_zero_bit v = NOT v AND (v + 1)"

definition level :: "position \<Rightarrow> nat" where
  "level self = trailing_zeros (NOT (to_inorder_index self))"

definition is_leaf :: "position \<Rightarrow> bool" where
  "is_leaf self \<longleftrightarrow> to_inorder_index self AND 1 = 0"

definition from_level_and_pos :: "nat \<Rightarrow> u64 \<Rightarrow> position" where
  "from_level_and_pos lvl pos =
     (let level_one_bits = shl 1 lvl - 1;
          shifted_pos = shl pos (lvl + 1)
      in Position (shifted_pos OR level_one_bits))"

definition parent :: "position \<Rightarrow> position" where
  "parent self =
     (let v = to_inorder_index self
      in Position ((v OR isolate_rightmost_zero_bit v)
                   AND NOT (shl (isolate_rightmost_zero_bit v) 1)))"

text \<open>
  The source checks with \<open>checked_precondition!\<close>, an \<open>assert!\<close> at run time, that a node whose
  child is asked for is not a leaf.
\<close>

definition child :: "position \<Rightarrow> node_direction \<Rightarrow> ('e, position) result" where
  "child self dir =
     rbind (assert_that (\<not> is_leaf self) ''!self.is_leaf()'') (\<lambda>_.
     let v = to_inorder_index self;
         direction_bit = (case dir of Left \<Rightarrow> 0 | Right \<Rightarrow> isolate_rightmost_zero_bit v)
     in Inr (Position ((v OR direction_bit) AND NOT (shr (isolate_rightmost_zero_bit v) 1))))"

definition left_child :: "position \<Rightarrow> ('e, position) result" where
  "left_child self =
     rbind (assert_that (\<not> is_leaf self) ''!self.is_leaf()'') (\<lambda>_. child self Left)"

definition right_child :: "position \<Rightarrow> ('e, position) result" where
  "right_child self =
     rbind (assert_that (\<not> is_leaf self) ''!self.is_leaf()'') (\<lambda>_. child self Right)"

definition is_left_child :: "position \<Rightarrow> bool" where
  "is_left_child self \<longleftrightarrow>
     to_inorder_index self AND shl (isolate_rightmost_zero_bit (to_inorder_index self)) 1 = 0"

definition is_right_child :: "position \<Rightarrow> bool" where
  "is_right_child self \<longleftrightarrow> \<not> is_left_child self"

definition from_leaf_index :: "u64 \<Rightarrow> position" where
  "from_leaf_index leaf_index = from_level_and_pos 0 leaf_index"

definition sibling :: "position \<Rightarrow> position" where
  "sibling self =
     Position (to_inorder_index self
               XOR shl (isolate_rightmost_zero_bit (to_inorder_index self)) 1)"

definition root_from_leaf_index :: "u64 \<Rightarrow> position" where
  "root_from_leaf_index leaf_index =
     (let leaf = from_leaf_index leaf_index
      in Position (shr (smear_ones_for_u64 (to_inorder_index leaf)) 1))"

text \<open>The two functions below \<open>assert!\<close> a positive count: \<open>Panic\<close> is the failed assertion.\<close>

definition root_from_leaf_count :: "leaf_count \<Rightarrow> ('e, position) result" where
  "root_from_leaf_count leaf_count =
     rbind (assert_that (0 < leaf_count) ''leaf_count > 0'') (\<lambda>_.
     Inr (root_from_leaf_index (leaf_count - 1)))"

definition root_level_from_leaf_count :: "leaf_count \<Rightarrow> ('e, nat) result" where
  "root_level_from_leaf_count leaf_count =
     rbind (assert_that (0 < leaf_count) ''leaf_count > 0'') (\<lambda>_.
     let index = leaf_count - 1
     in Inr (MAX_ACCUMULATOR_PROOF_DEPTH + 1 - leading_zeros index))"

definition right_most_child :: "position \<Rightarrow> position" where
  "right_most_child self =
     (let lvl = level self in Position (to_inorder_index self + shl 1 lvl - 1))"

definition left_most_child :: "position \<Rightarrow> position" where
  "left_most_child self =
     (let lvl = level self
      in Position (turn_off_right_most_n_bits (to_inorder_index self) lvl))"

definition is_freezable :: "position \<Rightarrow> u64 \<Rightarrow> bool" where
  "is_freezable self leaf_index =
     (let leaf = from_leaf_index leaf_index;
          rmc = right_most_child self
      in to_inorder_index rmc \<le> to_inorder_index leaf)"

definition is_placeholder :: "position \<Rightarrow> u64 \<Rightarrow> bool" where
  "is_placeholder self leaf_index =
     (let leaf = from_leaf_index leaf_index
      in if to_inorder_index self \<le> to_inorder_index leaf then False
         else if to_inorder_index (left_most_child self) \<le> to_inorder_index leaf then False
         else True)"

text \<open>
  The ancestor iterators never end; the sources only \<open>take\<close> a prefix of them. An iterator is
  its current position, \<open>next\<close> returns the item and the iterator after it.
\<close>

definition ancestor_sibling_next :: "position \<Rightarrow> position \<times> position" where
  "ancestor_sibling_next it = (sibling it, parent it)"

definition ancestor_next :: "position \<Rightarrow> position \<times> position" where
  "ancestor_next it = (it, parent it)"

primrec take_ancestor_siblings :: "nat \<Rightarrow> position \<Rightarrow> position list" where
  "take_ancestor_siblings 0 it = []"
| "take_ancestor_siblings (Suc n) it =
     (let (item, it') = ancestor_sibling_next it in item # take_ancestor_siblings n it')"

section \<open>Iterators over subtrees\<close>

record frozen_subtree_iterator =
  fsi_bitmap :: u64
  fsi_seen_leaves :: u64

definition frozen_subtree_iterator_new :: "leaf_count \<Rightarrow> frozen_subtree_iterator" where
  "frozen_subtree_iterator_new num_leaves = \<lparr>fsi_bitmap = num_leaves, fsi_seen_leaves = 0\<rparr>"

definition frozen_subtree_next ::
    "frozen_subtree_iterator \<Rightarrow> (position \<times> frozen_subtree_iterator) option" where
  "frozen_subtree_next self =
     (if fsi_bitmap self = 0 then None
      else let root_offset = shr (smear_ones_for_u64 (fsi_bitmap self)) 1;
               num_leaves = root_offset + 1;
               leftmost_leaf = from_leaf_index (fsi_seen_leaves self);
               root = from_inorder_index (to_inorder_index leftmost_leaf + root_offset)
           in Some (root, \<lparr>fsi_bitmap = fsi_bitmap self AND NOT num_leaves,
                           fsi_seen_leaves = fsi_seen_leaves self + num_leaves\<rparr>))"

record frozen_subtree_sibling_iterator =
  fss_current_num_leaves :: leaf_count
  fss_remaining_new_leaves :: leaf_count

definition frozen_subtree_sibling_iterator_new ::
    "leaf_count \<Rightarrow> leaf_count \<Rightarrow> ('e, frozen_subtree_sibling_iterator) result" where
  "frozen_subtree_sibling_iterator_new current_num_leaves new_num_leaves =
     rbind (assert_that (new_num_leaves \<le> MAX_ACCUMULATOR_LEAVES)
              ''An accumulator can have at most 2^63 leaves.'') (\<lambda>_.
     rbind (assert_that (current_num_leaves \<le> new_num_leaves)
              ''Number of leaves needs to be increasing'') (\<lambda>_.
     Inr \<lparr>fss_current_num_leaves = current_num_leaves,
          fss_remaining_new_leaves = new_num_leaves - current_num_leaves\<rparr>))"

definition next_new_leaf_batch :: "frozen_subtree_sibling_iterator \<Rightarrow> leaf_count" where
  "next_new_leaf_batch self =
     (let zeros = leading_zeros (fss_remaining_new_leaves self)
      in shl 1 (MAX_ACCUMULATOR_PROOF_DEPTH - zeros))"

definition frozen_subtree_sibling_next ::
    "frozen_subtree_sibling_iterator \<Rightarrow> (position \<times> frozen_subtree_sibling_iterator) option" where
  "frozen_subtree_sibling_next self =
     (if fss_remaining_new_leaves self = 0 then None
      else let next_subtree_leaves =
             (if fss_current_num_leaves self > 0
              then let rightmost_frozen_subtree_leaves =
                         shl 1 (trailing_zeros (fss_current_num_leaves self))
                   in if fss_remaining_new_leaves self \<ge> rightmost_frozen_subtree_leaves
                      then rightmost_frozen_subtree_leaves
                      else next_new_leaf_batch self
              else next_new_leaf_batch self);
             first_leaf_index = fss_current_num_leaves self;
             last_leaf_index = first_leaf_index + next_subtree_leaves - 1
           in Some (from_inorder_index (first_leaf_index + last_leaf_index),
                \<lparr>fss_current_num_leaves = fss_current_num_leaves self + next_subtree_leaves,
                 fss_remaining_new_leaves = fss_remaining_new_leaves self - next_subtree_leaves\<rparr>))"

section \<open>Post-order numbers\<close>

definition children_of_node :: "u64 \<Rightarrow> u64" where
  "children_of_node node = shl (isolate_rightmost_zero_bit node) 1 - 2"

definition nodes_to_left_of :: "u64 \<Rightarrow> u64" where
  "nodes_to_left_of node =
     (let ones_up_to_level = isolate_rightmost_zero_bit node - 1;
          unset_level_zeros = node XOR ones_up_to_level
      in unset_level_zeros - of_nat (count_ones unset_level_zeros))"

definition inorder_to_postorder :: "u64 \<Rightarrow> u64" where
  "inorder_to_postorder node =
     (let children = children_of_node node;
          left_nodes = nodes_to_left_of node
      in children + left_nodes)"

text \<open>One iteration of the loop of \<open>postorder_to_inorder\<close>, for the bit \<open>i\<close>.\<close>

definition postorder_step :: "nat \<Rightarrow> u64 \<times> u64 \<times> u64 \<Rightarrow> u64 \<times> u64 \<times> u64" where
  "postorder_step i = (\<lambda>(node, full_binary_size, bitmap).
     let (node, bitmap) = (if node \<ge> full_binary_size
                           then (node - full_binary_size, bitmap OR shl 1 i)
                           else (node, bitmap))
     in (node, shr full_binary_size 1, bitmap))"

definition postorder_to_inorder :: "u64 \<Rightarrow> u64" where
  "postorder_to_inorder node =
     (let (node, full_binary_size, bitmap) = fold postorder_step (rev [0..<64]) (node, NOT 0, 0);
          lvl = unat (ucast node :: u32);
          pos = shr bitmap lvl
      in to_inorder_index (from_level_and_pos lvl pos))"

definition from_postorder_index :: "u64 \<Rightarrow> position" where
  "from_postorder_index index = Position (postorder_to_inorder index)"

definition to_postorder_index :: "position \<Rightarrow> u64" where
  "to_postorder_index self = inorder_to_postorder (to_inorder_index self)"

section \<open>Level and index within the level\<close>

text \<open>
  \<open>node_val l p\<close> is the in-order number of the \<open>p\<close>-th node of level \<open>l\<close>: \<open>l\<close> ones below
  a zero below the bits of \<open>p\<close>. Every number but \<open>u64::MAX\<close> is of this form. The operations
  are computed on it bit by bit.
\<close>

declare push_bit_Suc [simp del]

definition onebit :: "nat \<Rightarrow> u64" where "onebit l = push_bit l 1"

lemma bit_onebit: "bit (onebit l) i \<longleftrightarrow> i = l \<and> l < 64"
  by (auto simp: onebit_def bit_simps simp del: push_bit_of_1)

lemma shl_onebit: "l < 63 \<Longrightarrow> shl (onebit l) (Suc 0) = onebit (Suc l)"
  by (rule bit_word_eqI) (auto simp: shl_def bit_push_bit_iff bit_onebit)

lemma shr_onebit: "l < 63 \<Longrightarrow> shr (onebit (Suc l)) (Suc 0) = onebit l"
  by (rule bit_word_eqI) (auto simp: shr_def bit_drop_bit_eq bit_onebit)

definition node_val :: "nat \<Rightarrow> nat \<Rightarrow> u64" where
  "node_val l p = push_bit (Suc l) (of_nat p) OR mask l"

definition valid_node :: "nat \<Rightarrow> nat \<Rightarrow> bool" where
  "valid_node l p \<longleftrightarrow> l < 63 \<and> p < 2 ^ (63 - l)"

lemma bit_push_Suc: "bit (push_bit (Suc l) (of_nat p) :: u64) i \<longleftrightarrow> i < 64 \<and> l < i \<and> bit p (i - Suc l)"
  by (auto simp: bit_push_bit_iff bit_u64_of_nat)

lemma bit_node_val:
  "bit (node_val l p) i \<longleftrightarrow> i < 64 \<and> (i < l \<or> l < i \<and> bit p (i - Suc l))"
  by (auto simp: node_val_def bit_or_iff bit_mask_iff bit_push_Suc)

lemma node_val_plus: "node_val l p = push_bit (Suc l) (of_nat p) + mask l"
  unfolding node_val_def
  by (rule disjunctive_add_eq_or[symmetric], rule bit_word_eqI)
    (auto simp: bit_and_iff bit_mask_iff bit_push_Suc)

lemma node_val_Suc: "node_val l p + 1 = push_bit (Suc l) (of_nat p) OR onebit l"
proof -
  have "node_val l p + 1 = push_bit (Suc l) (of_nat p) + onebit l"
    by (simp add: node_val_plus mask_eq_exp_minus_1 onebit_def)
  also have "\<dots> = push_bit (Suc l) (of_nat p) OR onebit l"
    by (rule disjunctive_add_eq_or, rule bit_word_eqI)
     (auto simp: bit_and_iff bit_onebit bit_push_Suc)
  finally show ?thesis .
qed

lemma isolate_node_val: "isolate_rightmost_zero_bit (node_val l p) = onebit l"
  unfolding isolate_rightmost_zero_bit_def node_val_Suc
  by (rule bit_word_eqI) (auto simp: bit_and_iff bit_or_iff bit_not_iff bit_node_val bit_onebit bit_push_Suc)

lemma node_val_of_nat: "node_val l p = of_nat (p * 2 ^ Suc l + (2 ^ l - 1))"
proof -
  have "of_nat (2 ^ l - 1) = (2 ^ l - 1 :: u64)" by (simp add: of_nat_diff)
  then show ?thesis
    by (simp only: node_val_plus push_bit_eq_mult mask_eq_exp_minus_1 of_nat_add of_nat_mult of_nat_power of_nat_numeral)
qed

lemma valid_node_Suc_bound: "valid_node l p \<Longrightarrow> p * 2 ^ Suc l + 2 ^ Suc l \<le> 2 ^ 64"
proof -
  assume v: "valid_node l p"
  then have "Suc p * 2 ^ Suc l \<le> 2 ^ (63 - l) * 2 ^ Suc l"
    unfolding valid_node_def by (intro mult_le_mono1) simp
  also have "\<dots> = 2 ^ (63 - l + Suc l)" by (simp only: power_add)
  also have "\<dots> = 2 ^ 64"
    using v by (intro arg_cong [of _ _ "\<lambda>n. 2 ^ n"]) (simp add: valid_node_def)
  finally show ?thesis by simp
qed

lemma valid_node_bound: "valid_node l p \<Longrightarrow> p * 2 ^ Suc l + 2 ^ l < 2 ^ 64"
proof -
  assume "valid_node l p"
  from valid_node_Suc_bound [OF this] have "p * 2 ^ Suc l + 2 * 2 ^ l \<le> 2 ^ 64" by simp
  moreover have "(0::nat) < 2 ^ l" by simp
  ultimately show ?thesis by linarith
qed

lemma valid_node_unat: "valid_node l p \<Longrightarrow> unat (of_nat p :: u64) = p"
proof (rule unat_of_nat_u64)
  assume v: "valid_node l p"
  then have "p < 2 ^ (63 - l)" by (simp add: valid_node_def)
  also have "\<dots> \<le> (2::nat) ^ 64" by (rule power_increasing) simp_all
  finally show "p < 2 ^ 64" .
qed

lemma unat_node_val: "valid_node l p \<Longrightarrow> unat (node_val l p) = p * 2 ^ Suc l + (2 ^ l - 1)"
  using valid_node_bound [of l p]
  by (subst node_val_of_nat) (auto simp: valid_node_def unat_of_nat)

lemma from_level_and_pos_eq:
  "l < 63 \<Longrightarrow> from_level_and_pos l p = Position (node_val l (unat p))"
  by (simp add: from_level_and_pos_def shl_def node_val_def mask_eq_exp_minus_1)

lemmas node_bits = bit_and_iff bit_or_iff bit_not_iff bit_xor_iff bit_node_val bit_onebit

lemma bit_div2: "bit (p div 2) n \<longleftrightarrow> bit (p::nat) (Suc n)"
  by (simp add: bit_Suc)

lemma parent_node: "l < 63 \<Longrightarrow> parent (Position (node_val l p)) = Position (node_val (Suc l) (p div 2))"
  unfolding parent_def Let_def position.sel isolate_node_val shl_onebit
  by (rule arg_cong[of _ _ Position], rule bit_word_eqI) 
    (auto simp: shl_onebit node_bits bit_div2 Suc_diff_Suc)

lemma is_leaf_node: "is_leaf (Position (node_val l p)) \<longleftrightarrow> l = 0"
proof -
  have "node_val l p AND 1 = 0 \<longleftrightarrow> \<not> bit (node_val l p) 0"
    by (simp add: and_one_eq bit_0 odd_iff_mod_2_eq_one)
  then show ?thesis by (simp add: is_leaf_def bit_node_val)
qed

lemma bit_2p: "bit (2 * p) n \<longleftrightarrow> 0 < n \<and> bit (p::nat) (n - 1)"
  by (cases n) (auto simp: bit_0 bit_Suc)
lemma bit_2p1: "bit (2 * p + 1) n \<longleftrightarrow> n = 0 \<or> bit (p::nat) (n - 1)"
  by (cases n) (auto simp: bit_0 bit_Suc)

lemma left_child_node: "l < 63 \<Longrightarrow> left_child (Position (node_val (Suc l) p)) = Inr (Position (node_val l (2 * p)))"
  by (auto simp: left_child_def child_def assert_that_def is_leaf_node Let_def isolate_node_val shr_onebit
     intro!: bit_word_eqI)
    (auto simp: node_bits bit_2p)

lemma right_child_node: "l < 63 \<Longrightarrow> right_child (Position (node_val (Suc l) p)) = Inr (Position (node_val l (2 * p + 1)))"
  by (simp add: right_child_def child_def assert_that_def is_leaf_node Let_def isolate_node_val shr_onebit,
     rule bit_word_eqI)
    (auto simp: node_bits bit_2p1[simplified])

lemma is_left_child_node: "l < 63 \<Longrightarrow> is_left_child (Position (node_val l p)) \<longleftrightarrow> even p"
proof -
  assume l: "l < 63"
  have "node_val l p AND onebit (Suc l) = (if bit (node_val l p) (Suc l) then onebit (Suc l) else 0)"
    by (rule bit_word_eqI) (auto simp: node_bits)
  moreover have "onebit (Suc l) \<noteq> 0" using l bit_onebit [of "Suc l" "Suc l"] by auto
  ultimately show ?thesis using l
    by (simp add: is_left_child_def isolate_node_val shl_onebit bit_node_val bit_0)
qed

lemma flip_bit0: "p XOR 1 = (if even p then p + 1 else p - 1)" for p :: nat
  by (simp add: xor_Suc_0_eq)

lemma sibling_node: "l < 63 \<Longrightarrow> sibling (Position (node_val l p)) = Position (node_val l (if even p then p + 1 else p - 1))"
  by (simp add: sibling_def isolate_node_val shl_onebit flip: flip_bit0, rule bit_word_eqI)
    (auto simp: node_bits bit_Suc_0_iff)

lemma level_node: "l < 63 \<Longrightarrow> level (Position (node_val l p)) = l"
  by (simp add: level_def, rule trailing_zeros_eq) (auto simp: node_bits)

lemma node_val_word: "node_val l p = of_nat p * 2 ^ Suc l + (2 ^ l - 1)"
  by (simp only: node_val_plus push_bit_eq_mult mask_eq_exp_minus_1)


lemma node_ex:
  assumes "v \<noteq> - 1"
  obtains l p where "l < 64" "v = node_val l p" "p < 2 ^ (63 - l)"
proof -
  have "\<exists>k. k < 64 \<and> \<not> bit v k"
  proof (rule ccontr)
    assume "\<nexists>k. k < 64 \<and> \<not> bit v k"
    then have "bit v n \<longleftrightarrow> bit (- 1 :: u64) n" if "n < LENGTH(64)" for n
      using that by (auto simp: bit_minus_1_iff)
    then have "v = - 1" by (rule bit_word_eqI)
    with assms show False by simp
  qed
  then obtain k where k: "k < 64" "\<not> bit v k" by blast
  define l where "l = (LEAST k. \<not> bit v k)"
  have l: "\<not> bit v l" unfolding l_def using k(2) by (rule LeastI)
  have below: "bit v i" if "i < l" for i using not_less_Least that unfolding l_def by blast
  have l64: "l < 64" using Least_le [of "\<lambda>k. \<not> bit v k" k] k by (simp add: l_def)
  define p where "p = unat (drop_bit (Suc l) v)"
  have "v = node_val l p"
  proof (rule bit_word_eqI)
    fix n assume "n < LENGTH(64)"
    then show "bit v n \<longleftrightarrow> bit (node_val l p) n"
      using l below by (cases n l rule: linorder_cases)
        (auto simp: p_def bit_node_val bit_unsigned_iff bit_drop_bit_eq)
  qed
  moreover have "p < 2 ^ (63 - l)"
  proof -
    have "63 - l + Suc l = 64" using l64 by simp
    then have "(2::nat) ^ (63 - l) * 2 ^ Suc l = 2 ^ 64"
      by (metis power_add)
    moreover have "unat v < 2 ^ 64" using unat_u64_lt [of v] by simp
    ultimately have "unat v < 2 ^ (63 - l) * 2 ^ Suc l" by (simp only:)
    moreover have "p = unat v div 2 ^ Suc l"
      by (simp only: p_def unat_drop_bit_eq) (simp only: drop_bit_eq_div)
    ultimately show ?thesis
      by (simp only: less_mult_imp_div_less)
  qed
  ultimately show thesis using that l64 by blast
qed
lemma left_most_child_node: "l < 63 \<Longrightarrow> left_most_child (Position (node_val l p)) = Position (node_val 0 (p * 2 ^ l))"
  by (simp add: left_most_child_def level_node turn_off_right_most_n_bits_def shl_def shr_def, rule bit_word_eqI)
    (auto simp: bit_push_bit_iff bit_drop_bit_eq bit_node_val bit_push_bit_iff push_bit_eq_mult[symmetric])

lemma right_most_child_node:
  "l < 63 \<Longrightarrow> right_most_child (Position (node_val l p)) = Position (node_val 0 (p * 2 ^ l + (2 ^ l - 1)))"
proof -
  assume l: "l < 63"
  have "of_nat (2 ^ l - 1) = (2 ^ l - 1 :: u64)" by (simp add: of_nat_diff)
  then have "node_val 0 (p * 2 ^ l + (2 ^ l - 1)) = node_val l p + (2 ^ l - 1)"
    by (simp only: node_val_word of_nat_add of_nat_mult of_nat_power of_nat_numeral) (simp add: algebra_simps)
  with l show ?thesis by (simp add: right_most_child_def level_node shl_def)
qed
lemma interval_split_ex:
  "(\<exists>j::nat. i \<le> j \<and> j < i + 2 * k \<and> P j) \<longleftrightarrow>
   (\<exists>j. i \<le> j \<and> j < i + k \<and> P j) \<or> (\<exists>j. k + i \<le> j \<and> j < k + i + k \<and> P j)"
    (is "?l \<longleftrightarrow> ?r")
proof
  assume ?l
  then obtain j where j: "i \<le> j" "j < i + 2 * k" "P j" by blast
  show ?r
  proof (cases "j < i + k")
    case True
    with j show ?thesis by blast
  next
    case False
    with j have "k + i \<le> j \<and> j < k + i + k \<and> P j" by simp
    then show ?thesis by blast
  qed
next
  assume ?r
  then obtain j where "i \<le> j \<and> j < i + 2 * k \<and> P j" by fastforce
  then show ?l by blast
qed

lemma smear_step:
  assumes "\<And>i. bit n i \<longleftrightarrow> (\<exists>j. i \<le> j \<and> j < i + k \<and> bit v j)" and "k < 64"
  shows "bit (n OR shr n k) i \<longleftrightarrow> (\<exists>j. i \<le> j \<and> j < i + 2 * k \<and> bit v j)"
proof -
  have "bit (n OR shr n k) i \<longleftrightarrow> bit n i \<or> bit n (k + i)"
    using assms(2) by (simp add: bit_or_iff shr_def bit_drop_bit_eq)
  then show ?thesis unfolding assms(1) interval_split_ex .
qed

lemma bit_smear: "bit (smear_ones_for_u64 v) i \<longleftrightarrow> (\<exists>j. i \<le> j \<and> bit v j)"
proof -
  have 0: "bit v i \<longleftrightarrow> (\<exists>j. i \<le> j \<and> j < i + 1 \<and> bit v j)" for i
    by (auto simp: less_Suc_eq)
  define n1 where "n1 = v OR shr v 1"
  define n2 where "n2 = n1 OR shr n1 2"
  define n4 where "n4 = n2 OR shr n2 4"
  define n8 where "n8 = n4 OR shr n4 8"
  define n16 where "n16 = n8 OR shr n8 16"
  have 1: "bit n1 i \<longleftrightarrow> (\<exists>j. i \<le> j \<and> j < i + 2 \<and> bit v j)" for i
    using smear_step [OF 0, of i] by (simp add: n1_def)
  have 2: "bit n2 i \<longleftrightarrow> (\<exists>j. i \<le> j \<and> j < i + 4 \<and> bit v j)" for i
    using smear_step [OF 1, of i] by (simp add: n2_def)
  have 4: "bit n4 i \<longleftrightarrow> (\<exists>j. i \<le> j \<and> j < i + 8 \<and> bit v j)" for i
    using smear_step [OF 2, of i] by (simp add: n4_def)
  have 8: "bit n8 i \<longleftrightarrow> (\<exists>j. i \<le> j \<and> j < i + 16 \<and> bit v j)" for i
    using smear_step [OF 4, of i] by (simp add: n8_def)
  have 16: "bit n16 i \<longleftrightarrow> (\<exists>j. i \<le> j \<and> j < i + 32 \<and> bit v j)" for i
    using smear_step [OF 8, of i] by (simp add: n16_def)
  have "bit (smear_ones_for_u64 v) i \<longleftrightarrow> (\<exists>j. i \<le> j \<and> j < i + 64 \<and> bit v j)"
    using smear_step [OF 16, of i]
    by (simp add: smear_ones_for_u64_def Let_def n1_def n2_def n4_def n8_def n16_def)
  also have "\<dots> \<longleftrightarrow> (\<exists>j. i \<le> j \<and> bit v j)"
    using bit_imp_le_length [of v] by fastforce
  finally show ?thesis .
qed
lemma smear_eq_mask: "v \<noteq> 0 \<Longrightarrow> smear_ones_for_u64 v = mask (Suc (nlog2 (unat v)))"
proof (rule bit_word_eqI)
  fix i assume v: "v \<noteq> 0" and i: "i < LENGTH(64)"
  have n: "0 < unat v" using v by (simp add: unat_gt_0)
  have "(\<exists>j. i \<le> j \<and> bit v j) \<longleftrightarrow> i \<le> nlog2 (unat v)"
    using bit_nlog2 [OF n] bit_le_nlog2 [of "unat v"] by (auto simp: bit_unat intro: order_trans)
  with i show "bit (smear_ones_for_u64 v) i \<longleftrightarrow> bit (mask (Suc (nlog2 (unat v))) :: u64) i"
    by (simp add: bit_smear bit_mask_iff less_Suc_eq_le)
qed

lemma smear_0 [simp]: "smear_ones_for_u64 0 = 0"
  by (rule bit_word_eqI) (simp add: bit_smear)

lemma shr_mask: "n \<le> 63 \<Longrightarrow> shr (mask (Suc n)) (Suc 0) = mask n"
  by (rule bit_word_eqI) (auto simp: shr_def bit_drop_bit_eq bit_mask_iff)

end
