(* ===== verification/Position_Order.thy ===== *)
theory Position_Order
  imports Position
begin

text \<open>
  The order of the positions: the in-order and the post-order traversal of a perfect tree as
  lists, the post-order numbers \<open>MerkleAccumulator\<close> stores its nodes under, and the subtrees
  the iterators of \<open>types/src/proof/position/mod.rs\<close> visit.
\<close>

section \<open>Traversals of a perfect tree\<close>

fun postorder_nodes :: "nat \<Rightarrow> nat \<Rightarrow> (nat \<times> nat) list" where
  "postorder_nodes 0 p = [(0, p)]"
| "postorder_nodes (Suc l) p = postorder_nodes l (2 * p) @ postorder_nodes l (2 * p + 1) @ [(Suc l, p)]"

fun inorder_nodes :: "nat \<Rightarrow> nat \<Rightarrow> (nat \<times> nat) list" where
  "inorder_nodes 0 p = [(0, p)]"
| "inorder_nodes (Suc l) p = inorder_nodes l (2 * p) @ [(Suc l, p)] @ inorder_nodes l (2 * p + 1)"

lemma length_postorder_nodes: "length (postorder_nodes h q) = 2 ^ Suc h - 1"
  by (induction h arbitrary: q) auto

lemma length_inorder_nodes: "length (inorder_nodes h q) = 2 ^ Suc h - 1"
  by (induction h arbitrary: q) auto

definition post_num :: "nat \<Rightarrow> nat \<Rightarrow> nat" where
  "post_num l p = (2 ^ Suc l - 2) + (p * 2 ^ Suc l - popcount p)"

lemma postorder_nth:
  "k < 2 ^ Suc h - 1 \<Longrightarrow> postorder_nodes h q ! k = (l, p) \<Longrightarrow>
     post_num l p = (q * 2 ^ Suc h - popcount q) + k"
proof (induction h arbitrary: q k)
  case 0
  then show ?case by (auto simp: post_num_def)
next
  case (Suc h)
  define n where "n = (2::nat) ^ Suc h - 1"
  have len: "length (postorder_nodes h x) = n" for x by (simp only: length_postorder_nodes n_def)
  have pow1: "2 ^ Suc h = Suc n" by (simp add: n_def)
  then have "2 ^ Suc (Suc h) - 1 = Suc (2 * n)" by (subst power_Suc) (simp only:, simp)
  note pow = pow1 this
  have shift: "q * 2 ^ Suc (Suc h) = 2 * (q * Suc n)" by (simp flip: pow(1))
  note IH = Suc.IH [unfolded pow(1)]
  from Suc.prems(1) consider "k < n" | "n \<le> k" "k - n < n" | "k = 2 * n"
    unfolding pow by linarith
  then show ?case
  proof cases
    case 1
    then have "postorder_nodes h (2 * q) ! k = (l, p)"
      using Suc.prems(2) by (simp add: nth_append len)
    with IH [of k "2 * q"] 1 show ?thesis unfolding shift by simp
  next
    case 2
    then have "postorder_nodes h (2 * q + 1) ! (k - n) = (l, p)"
      using Suc.prems(2) by (simp add: nth_append len)
    with IH [of "k - n" "2 * q + 1"] 2(2)
    have "post_num l p = (2 * (q * Suc n) + Suc n) - Suc (popcount q) + (k - n)"
      by (simp add: distrib_right)
    moreover have "popcount q \<le> 2 * (q * Suc n)"
      using popcount_le_shift [of q "Suc (Suc h)"] unfolding shift .
    ultimately show ?thesis using 2(1) unfolding shift by linarith
  next
    case 3
    then have "(l, p) = (Suc h, q)"
      using Suc.prems(2) by (simp add: nth_append len)
    moreover from pow(2) have "2 ^ Suc (Suc h) - 2 = 2 * n" by arith
    ultimately show ?thesis using 3 by (simp only: post_num_def prod.inject)
  qed
qed

lemma inorder_nth:
  "k < 2 ^ Suc h - 1 \<Longrightarrow> inorder_nodes h q ! k = (l, p) \<Longrightarrow>
     p * 2 ^ Suc l + (2 ^ l - 1) = q * 2 ^ Suc h + k"
proof (induction h arbitrary: q k)
  case 0
  then show ?case by auto
next
  case (Suc h)
  define n where "n = (2::nat) ^ Suc h - 1"
  have len: "length (inorder_nodes h x) = n" for x by (simp only: length_inorder_nodes n_def)
  have pow1: "2 ^ Suc h = Suc n" by (simp add: n_def)
  then have "2 ^ Suc (Suc h) - 1 = Suc (2 * n)" by (subst power_Suc) (simp only:, simp)
  note pow = pow1 this
  have shift: "q * 2 ^ Suc (Suc h) = 2 * (q * Suc n)" by (simp flip: pow(1))
  note IH = Suc.IH [unfolded pow(1)]
  from Suc.prems(1) consider "k < n" | "k = n" | "n < k" "k - Suc n < n"
    unfolding pow by linarith
  then show ?case
  proof cases
    case 1
    then have "inorder_nodes h (2 * q) ! k = (l, p)"
      using Suc.prems(2) by (simp add: nth_append len)
    with IH [of k "2 * q"] 1 show ?thesis unfolding shift by simp
  next
    case 2
    then have "(l, p) = (Suc h, q)"
      using Suc.prems(2) by (simp add: nth_append len)
    with 2 show ?thesis by (simp add: n_def)
  next
    case 3
    then have "inorder_nodes h (2 * q + 1) ! (k - Suc n) = (l, p)"
      using Suc.prems(2) by (simp add: nth_append len nth_Cons')
    with IH [of "k - Suc n" "2 * q + 1"] 3 show ?thesis unfolding shift by (simp add: distrib_right)
  qed
qed

lemma inorder_to_postorder_node:
  assumes "valid_node l p"
  shows "unat (inorder_to_postorder (node_val l p)) = post_num l p"
proof -
  from assms have l: "l < 63" by (simp add: valid_node_def)
  have m: "onebit l - 1 = mask l" by (simp add: onebit_def mask_eq_exp_minus_1)
  have x: "node_val l p XOR mask l = push_bit (Suc l) (of_nat p)"
    by (rule bit_word_eqI) (auto simp: bit_xor_iff bit_node_val bit_mask_iff bit_push_Suc)
  have u: "unat (push_bit (Suc l) (of_nat p) :: u64) = p * 2 ^ Suc l"
    using valid_node_bound [OF assms] unat_of_nat_u64 [of "p * 2 ^ Suc l"]
    by (simp add: push_bit_eq_mult)
  have "children_of_node (node_val l p) = onebit (Suc l) - 2"
    using l by (simp add: children_of_node_def isolate_node_val shl_onebit)
  moreover have "nodes_to_left_of (node_val l p)
      = push_bit (Suc l) (of_nat p) - of_nat (popcount p)"
    by (simp add: nodes_to_left_of_def isolate_node_val m x count_ones_popcount u del: power_Suc)
  ultimately have "inorder_to_postorder (node_val l p)
      = of_nat (2 ^ Suc l - 2) + of_nat (p * 2 ^ Suc l - popcount p)"
    using popcount_le_shift [of p "Suc l"]
    by (simp add: inorder_to_postorder_def of_nat_diff onebit_def push_bit_eq_mult)
  also have "\<dots> = of_nat (post_num l p)" by (simp only: post_num_def of_nat_add)
  finally have "inorder_to_postorder (node_val l p) = of_nat (post_num l p)" .
  moreover have "post_num l p < 2 ^ 64"
    unfolding post_num_def using valid_node_Suc_bound [OF assms] by simp
  ultimately show ?thesis by (simp only: unat_of_nat_u64)
qed

section \<open>From a post-order number to the position\<close>

definition gsum :: "nat \<Rightarrow> nat \<Rightarrow> nat" where
  "gsum B i = 2 * (B mod 2 ^ i) - popcount (B mod 2 ^ i)"

lemma gsum_Suc:
  "gsum B (Suc i) = gsum B i + (if bit B i then 2 ^ Suc i - 1 else 0)"
proof (cases "bit B i")
  case True
  have x: "B mod 2 ^ i < 2 ^ i" by simp
  have "popcount (B mod 2 ^ Suc i) = popcount (B mod 2 ^ i) + 1"
    using True popcount_add_shift [OF x, of 1] by (simp only: mod_Suc_bit) simp
  moreover have "popcount (B mod 2 ^ i) \<le> 2 * (B mod 2 ^ i)"
    using popcount_le [of "B mod 2 ^ i"] by linarith
  moreover have "B mod 2 ^ Suc i = B mod 2 ^ i + 2 ^ i" using True by (simp only: mod_Suc_bit) simp
  moreover have "(1::nat) \<le> 2 ^ i" by simp
  moreover have "2 * (a + b) - (c + 1) = 2 * a - c + (2 * b - 1)" if "c \<le> 2 * a" "1 \<le> b"
    for a b c :: nat using that by arith
  ultimately show ?thesis unfolding gsum_def using True by (simp only: if_True power_Suc)
next
  case False
  then have "B mod 2 ^ Suc i = B mod 2 ^ i" by (simp only: mod_Suc_bit) simp
  with False show ?thesis by (simp only: gsum_def) simp
qed

lemma gsum_mono: "i \<le> j \<Longrightarrow> gsum B i \<le> gsum B j"
  by (rule lift_Suc_mono_le) (simp_all add: gsum_Suc)

lemma gsum_ones_le:
  assumes "B mod 2 ^ l = 2 ^ l - 1" and "l \<le> i"
  shows "gsum B i + l \<le> 2 * (B mod 2 ^ i)"
proof -
  define x where "x = B mod 2 ^ i"
  have "x mod 2 ^ l = 2 ^ l - 1"
    unfolding x_def using assms by (simp add: mod_mod_cancel le_imp_power_dvd)
  then have "x = (2 ^ l - 1) + x div 2 ^ l * 2 ^ l"
    by (metis add.commute div_mult_mod_eq)
  moreover have "popcount ((2 ^ l - 1) + x div 2 ^ l * 2 ^ l) = popcount (2 ^ l - 1) + popcount (x div 2 ^ l)"
    by (rule popcount_add_shift) simp
  ultimately have "l \<le> popcount x" by simp
  with popcount_le [of x] show ?thesis unfolding gsum_def x_def [symmetric] by linarith
qed

lemma postorder_loop:
  fixes B l :: nat
  assumes B: "B < 2 ^ 63" and m: "B mod 2 ^ l = 2 ^ l - 1" and l: "l < 63" and i: "i \<le> 64"
  shows "fold postorder_step (rev [i..<64]) (of_nat (gsum B 64 + l), NOT 0, 0)
           = (of_nat (gsum B i + l), mask i, of_nat B AND NOT (mask i))"
  using i
proof (induction i rule: inc_induct)
  case base
  have "mask 64 = (- 1 :: u64)" by (rule bit_word_eqI) (simp add: bit_mask_iff)
  then show ?case by simp
next
  case (step i)
  then have i: "i < 64" by simp
  then have r: "rev [i..<64] = rev [Suc i..<64] @ [i]" by (simp add: upt_conv_Cons)
  have lt: "gsum B (Suc i) + l < 2 ^ 64"
  proof -
    have "gsum B (Suc i) + l \<le> gsum B 64 + l" using i by (simp add: gsum_mono)
    also have "\<dots> \<le> 2 * (B mod 2 ^ 64)" using m l by (intro gsum_ones_le) simp_all
    also have "\<dots> < 2 ^ 64" using B by simp
    finally show ?thesis .
  qed
  have um: "unat (mask (Suc i) :: u64) = 2 ^ Suc i - 1"
    using i by (intro unat_mask_u64) simp
  have full: "shr (mask (Suc i)) (Suc 0) = mask i" using i by (simp add: shr_mask)
  show ?case
  proof (cases "bit B i")
    case True
    then have g: "gsum B (Suc i) + l = (gsum B i + l) + (2 ^ Suc i - 1)"
      by (simp only: gsum_Suc if_True ac_simps)
    have "mask (Suc i) \<le> (of_nat (gsum B (Suc i) + l) :: u64)"
      unfolding word_le_nat_alt unat_of_nat_u64 [OF lt] um unfolding g by (rule le_add2)
    moreover have "of_nat (gsum B (Suc i) + l) - mask (Suc i) = (of_nat (gsum B i + l) :: u64)"
    proof -
      have "of_nat (2 ^ Suc i - 1) = (mask (Suc i) :: u64)"
        by (simp add: mask_eq_exp_minus_1 of_nat_diff)
      then show ?thesis unfolding g of_nat_add [of "gsum B i + l"] by simp
    qed
    moreover have "(of_nat B AND NOT (mask (Suc i))) OR shl 1 i = (of_nat B AND NOT (mask i) :: u64)"
      using True i by (intro bit_word_eqI)
        (auto simp: bit_and_iff bit_or_iff bit_not_iff bit_mask_iff shl_def bit_push_bit_iff bit_u64_of_nat bit_1_iff less_Suc_eq
          simp del: push_bit_of_1)
    ultimately show ?thesis
      unfolding r fold_append comp_apply step.IH by (simp add: postorder_step_def full del: of_nat_add)
  next
    case False
    have li: "l \<le> i"
    proof (rule ccontr)
      assume "\<not> l \<le> i"
      then have "bit (take_bit l B) i \<longleftrightarrow> bit B i" by (simp add: bit_take_bit_iff)
      moreover have "take_bit l B = mask l" using m by (simp add: take_bit_eq_mod mask_eq_exp_minus_1)
      ultimately show False using False \<open>\<not> l \<le> i\<close> by (simp add: bit_mask_iff)
    qed
    have g: "gsum B (Suc i) = gsum B i" using False by (simp add: gsum_Suc)
    have "gsum B i + l \<le> 2 * (B mod 2 ^ i)" using m li by (rule gsum_ones_le)
    moreover have "B mod 2 ^ i < 2 ^ i" by simp
    ultimately have "gsum B (Suc i) + l < 2 ^ Suc i - 1" unfolding g power_Suc by linarith
    then have "\<not> mask (Suc i) \<le> (of_nat (gsum B (Suc i) + l) :: u64)"
      unfolding word_le_nat_alt unat_of_nat_u64 [OF lt] um by simp
    moreover have "of_nat B AND NOT (mask (Suc i)) = (of_nat B AND NOT (mask i) :: u64)"
      using False i by (intro bit_word_eqI)
        (auto simp: bit_and_iff bit_not_iff bit_mask_iff bit_u64_of_nat less_Suc_eq)
    ultimately show ?thesis
      unfolding r fold_append comp_apply step.IH by (simp add: postorder_step_def full g del: of_nat_add)
  qed
qed

lemma postorder_to_inorder_node:
  assumes v: "valid_node l p"
  shows "postorder_to_inorder (of_nat (post_num l p)) = node_val l p"
proof -
  define B where "B = (2 ^ l - 1) + p * 2 ^ l"
  from v have l: "l < 63" by (simp add: valid_node_def)
  have b2: "2 * B = p * 2 ^ Suc l + (2 ^ Suc l - 2)" by (simp add: B_def diff_mult_distrib2)
  have B63: "B < 2 ^ 63" 
    using valid_node_Suc_bound [OF v] two_le_pow [of l] b2 by simp
  have m: "B mod 2 ^ l = 2 ^ l - 1" unfolding B_def by (simp only: mod_mult_self1) simp
  have pcB: "popcount B = l + popcount p"
    using popcount_add_shift [of "2 ^ l - 1" l p] by (simp add: B_def)
  have "B mod 2 ^ 64 = B" using B63 by simp
  then have "gsum B 64 + l = 2 * B - (l + popcount p) + l" by (simp only: gsum_def pcB)
  also have "\<dots> = post_num l p"
    using popcount_le_shift [of p "Suc l"] popcount_le [of B] pcB b2 unfolding post_num_def by linarith
  finally have g: "gsum B 64 + l = post_num l p" .
  have "fold postorder_step (rev [0..<64]) (of_nat (post_num l p), NOT 0, 0) = (of_nat l, 0, of_nat B)"
    using postorder_loop [OF B63 m l, of 0] unfolding g by (simp add: gsum_def)
  moreover have "unat (ucast (of_nat l :: u64) :: u32) = l" 
    using l by (simp add: unsigned_ucast_eq unsigned_of_nat take_bit_nat_eq_self)
  moreover have "shr (of_nat B) l = of_nat p"
  proof (rule bit_word_eqI)
    fix n
    have "B div 2 ^ l = p" unfolding B_def by (subst div_mult_self1) simp_all
    then have "bit B (l + n) = bit p n" by (metis bit_drop_bit_eq drop_bit_eq_div comp_apply)
    moreover have "bit p n \<Longrightarrow> n < 63 - l"
      using v bit_lt_pow [of p "63 - l" n] by (auto simp: valid_node_def not_le[symmetric])
    ultimately show "bit (shr (of_nat B) l) n = bit (of_nat p :: u64) n"
      using l by (auto simp: shr_def bit_drop_bit_eq bit_u64_of_nat)
  qed
  ultimately show ?thesis using l v
    by (simp add: postorder_to_inorder_def from_level_and_pos_eq valid_node_unat)
qed

end
