(* ===== verification/Position_Iter.thy ===== *)
theory Position_Iter
  imports Position_Order
begin

text \<open>
  The root of a tree of a given number of leaves, the freezing predicates and the two iterators
  over frozen subtrees of \<open>types/src/proof/position/mod.rs\<close>. Each is related to levels and
  indices; the iterators are shown to cover the leaves exactly once and from left to right.
\<close>

section \<open>The root over a number of leaves\<close>

definition root_level :: "nat \<Rightarrow> nat" where
  "root_level n = (if n \<le> 1 then 0 else Suc (nlog2 (n - 1)))"

lemma root_level_bounds:
  assumes "0 < n"
  shows "n \<le> 2 ^ root_level n" and "0 < root_level n \<Longrightarrow> 2 ^ (root_level n - 1) < n"
proof -
  show "n \<le> 2 ^ root_level n"
  proof (cases "n = 1")
    case False
    with assms have "0 < n - 1" by simp
    from nlog2_bounds [OF this] have "n - 1 < 2 ^ Suc (nlog2 (n - 1))" by simp
    then show ?thesis using False assms by (simp add: root_level_def del: power_Suc)
  qed (simp add: root_level_def)
  assume "0 < root_level n"
  then have "1 < n" by (simp add: root_level_def split: if_splits)
  then have "0 < n - 1" by simp
  from nlog2_bounds [OF this] have "2 ^ nlog2 (n - 1) \<le> n - 1" by simp
  with \<open>1 < n\<close> have "2 ^ nlog2 (n - 1) < n" by linarith
  with \<open>1 < n\<close> show "2 ^ (root_level n - 1) < n" by (simp add: root_level_def)
qed

lemma root_level_unique:
  assumes "n \<le> 2 ^ L" and "L = 0 \<or> 2 ^ (L - 1) < n"
  shows "root_level n = L"
proof (cases L)
  case 0
  with assms show ?thesis by (simp add: root_level_def)
next
  case (Suc k)
  with assms have b: "2 ^ k \<le> n - 1" "n - 1 < 2 ^ Suc k" by auto
  have "(1::nat) \<le> 2 ^ k" by simp
  with b have "1 < n" by linarith
  moreover have "nlog2 (n - 1) = k" using b by (rule nlog2_unique)
  ultimately show ?thesis using Suc by (simp add: root_level_def)
qed

lemma root_level_le:
  assumes "n \<le> 2 ^ k" shows "root_level n \<le> k"
proof (cases "root_level n = 0")
  case False
  then have "0 < n" by (cases n) (simp_all add: root_level_def)
  then have "2 ^ (root_level n - 1) < n" using False root_level_bounds(2) by simp
  with assms have "(2::nat) ^ (root_level n - 1) < 2 ^ k" by linarith
  then show ?thesis using False by simp
qed simp

lemma node_val_0_0: "node_val 0 0 = 0" and node_val_root: "node_val l 0 = mask l"
  by (simp_all add: node_val_def)

lemma from_leaf_index_val: "to_inorder_index (from_leaf_index i) = 2 * i"
  by (simp add: from_leaf_index_def from_level_and_pos_def shl_def push_bit_eq_mult)

lemma unat_double: "unat (i::u64) < 2 ^ 63 \<Longrightarrow> unat (2 * i) = 2 * unat i"
  using unat_mult_lem [of 2 i] by simp

lemma root_from_leaf_index_node:
  assumes "unat i < 2 ^ 63"
  shows "root_from_leaf_index i = Position (node_val (root_level (Suc (unat i))) 0)"
proof (cases "i = 0")
  case True
  then show ?thesis
    by (simp add: root_from_leaf_index_def from_leaf_index_val root_level_def node_val_root shr_def)
next
  case False
  then have pos: "0 < unat i" by (simp add: unat_gt_0)
  have nz: "2 * i \<noteq> 0" using unat_double [OF assms] pos by auto
  have "nlog2 (2 * unat i) = Suc (nlog2 (unat i))"
    by (rule nlog2_unique) (use nlog2_bounds [OF pos] in simp_all)
  then have "nlog2 (unat (2 * i)) = Suc (nlog2 (unat i))" using unat_double [OF assms] by simp
  moreover from this have "Suc (nlog2 (unat i)) \<le> 63"
    using nlog2_u64 [of "2 * i"] nz by (simp add: unat_gt_0)
  ultimately show ?thesis using nz pos
    by (simp add: root_from_leaf_index_def from_leaf_index_val smear_eq_mask shr_mask root_level_def
        node_val_root)
qed

lemma root_from_leaf_count_node:
  assumes "0 < unat n" "unat n \<le> 2 ^ 63"
  shows "root_from_leaf_count n = Inr (Position (node_val (root_level (unat n)) 0))"
proof -
  have n0: "0 < n" using assms(1) by (simp add: word_less_nat_alt)
  have "unat (n - 1) = unat n - 1" using n0 by (simp add: unat_minus_one)
  then show ?thesis using n0 assms
    by (simp add: root_from_leaf_count_def root_from_leaf_index_node assert_that_def)
qed

lemma root_level_from_leaf_count_eq:
  assumes "0 < unat n"
  shows "root_level_from_leaf_count n = Inr (root_level (unat n))"
proof -
  have n0: "0 < n" using assms(1) by (simp add: word_less_nat_alt)
  have u: "unat (n - 1) = unat n - 1" using n0 by (simp add: unat_minus_one)
  show ?thesis
  proof (cases "n = 1")
    case True
    then show ?thesis by (simp add: root_level_from_leaf_count_def root_level_def assert_that_def
          leading_zeros_0 MAX_ACCUMULATOR_PROOF_DEPTH_def)
  next
    case False
    then have nz: "n - 1 \<noteq> 0" by simp
    then have "1 < unat n" using u by (metis One_nat_def assms diff_is_0_eq' leI unat_eq_zero)
    then show ?thesis using n0 u nz nlog2_u64 [of "n - 1"]
      by (simp add: root_level_from_leaf_count_def root_level_def assert_that_def
          leading_zeros_nlog2 MAX_ACCUMULATOR_PROOF_DEPTH_def Let_def)
  qed
qed

lemma valid_node_leaves: "valid_node l p \<Longrightarrow> p * 2 ^ l + 2 ^ l \<le> 2 ^ 63"
proof -
  assume "valid_node l p"
  from valid_node_Suc_bound [OF this] have "(p * 2 ^ l + 2 ^ l) * 2 \<le> 2 ^ 63 * 2" by simp
  then show ?thesis by (rule mult_right_le_imp_le) simp
qed

lemma is_freezable_node:
  assumes "valid_node l p" "unat i < 2 ^ 63"
  shows "is_freezable (Position (node_val l p)) i \<longleftrightarrow> (p + 1) * 2 ^ l \<le> unat i + 1"
proof -
  have l: "l < 63" using assms(1) by (simp add: valid_node_def)
  have lt: "p * 2 ^ l + (2 ^ l - 1) < 2 ^ 63"
  proof -
    have "p * 2 ^ l + 2 ^ l \<le> 2 ^ 63" using assms(1) by (rule valid_node_leaves)
    moreover have "(0::nat) < 2 ^ l" by simp
    ultimately show ?thesis by linarith
  qed
  then have "valid_node 0 (p * 2 ^ l + (2 ^ l - 1))" by (simp add: valid_node_def)
  from unat_node_val [OF this] have u: "unat (node_val 0 (p * 2 ^ l + (2 ^ l - 1))) = 2 * (p * 2 ^ l + (2 ^ l - 1))"
    by simp
  have "is_freezable (Position (node_val l p)) i \<longleftrightarrow>
      unat (node_val 0 (p * 2 ^ l + (2 ^ l - 1))) \<le> 2 * unat i"
    using assms(2) unfolding is_freezable_def Let_def right_most_child_node [OF l] from_leaf_index_val
    by (simp only: word_le_nat_alt unat_double position.sel)
  moreover have "(1::nat) \<le> 2 ^ l" by simp
  ultimately show ?thesis unfolding u by (simp add: algebra_simps) arith
qed

lemma is_placeholder_node:
  assumes "valid_node l p" "unat i < 2 ^ 63"
  shows "is_placeholder (Position (node_val l p)) i \<longleftrightarrow> unat i < p * 2 ^ l"
proof -
  have l: "l < 63" using assms(1) by (simp add: valid_node_def)
  have "p * 2 ^ l + 2 ^ l \<le> 2 ^ 63" using assms(1) by (rule valid_node_leaves)
  moreover have pl: "(0::nat) < 2 ^ l" by simp
  ultimately have "p * 2 ^ l < 2 ^ 63" by linarith
  then have "valid_node 0 (p * 2 ^ l)" unfolding valid_node_def by simp
  from unat_node_val [OF this] have u: "unat (node_val 0 (p * 2 ^ l)) = 2 * (p * 2 ^ l)" by simp
  have v: "unat (node_val l p) = 2 * (p * 2 ^ l) + (2 ^ l - 1)"
    using unat_node_val [OF assms(1)] by simp
  show ?thesis using l assms(2) pl
    by (simp add: is_placeholder_def left_most_child_node from_leaf_index_val word_le_nat_alt unat_double u v
        Let_def) arith
qed

section \<open>The roots of the frozen subtrees\<close>

lemma and_not_onebit:
  assumes "bit v m"
  shows "v AND NOT (onebit m) = v - onebit m"
proof -
  have "(v AND NOT (onebit m)) + onebit m = (v AND NOT (onebit m)) OR onebit m"
    by (rule disjunctive_add_eq_or, rule bit_word_eqI) (auto simp: node_bits)
  also have "\<dots> = v" using assms by (intro bit_word_eqI) (auto simp: node_bits)
  finally show ?thesis by (simp add: algebra_simps)
qed

lemma unat_onebit: "m < 64 \<Longrightarrow> unat (onebit m) = 2 ^ m"
proof -
  assume "m < 64"
  then have "(2::nat) ^ m < 2 ^ 64" by (rule power_strict_increasing) simp
  then have "unat (of_nat (2 ^ m) :: u64) = 2 ^ m" by (rule unat_of_nat_u64)
  then show ?thesis by (simp add: onebit_def)
qed

lemma mask_plus_1: "mask m + 1 = onebit m"
  by (simp add: onebit_def mask_eq_exp_minus_1)

lemma root_offset_eq: "v \<noteq> 0 \<Longrightarrow> shr (smear_ones_for_u64 v) (Suc 0) = mask (nlog2 (unat v))"
  using nlog2_u64 [of v] by (simp add: smear_eq_mask shr_mask unat_eq_zero)

lemma frozen_subtree_next_eq:
  assumes "fsi_bitmap self \<noteq> 0"
  shows "frozen_subtree_next self =
    (let m = nlog2 (unat (fsi_bitmap self))
     in Some (Position (to_inorder_index (from_leaf_index (fsi_seen_leaves self)) + mask m),
          \<lparr>fsi_bitmap = fsi_bitmap self - onebit m,
           fsi_seen_leaves = fsi_seen_leaves self + onebit m\<rparr>))"
proof -
  have "0 < unat (fsi_bitmap self)" using assms by (simp add: unat_gt_0)
  then have "bit (unat (fsi_bitmap self)) (nlog2 (unat (fsi_bitmap self)))" by (rule bit_nlog2)
  then have "bit (fsi_bitmap self) (nlog2 (unat (fsi_bitmap self)))" by (simp only: bit_unat)
  then show ?thesis
    using assms by (simp add: frozen_subtree_next_def root_offset_eq mask_plus_1 and_not_onebit
        from_inorder_index_def Let_def)
qed

lemma frozen_subtree_next_less:
  assumes "frozen_subtree_next self = Some (p, it)"
  shows "unat (fsi_bitmap it) < unat (fsi_bitmap self)"
proof -
  from assms have nz: "fsi_bitmap self \<noteq> 0" by (auto simp: frozen_subtree_next_def)
  let ?m = "nlog2 (unat (fsi_bitmap self))"
  have pos: "0 < unat (fsi_bitmap self)" using nz by (simp add: unat_gt_0)
  then have m: "?m < 64" using nlog2_u64 by simp
  have le: "onebit ?m \<le> fsi_bitmap self"
    using nlog2_bounds [OF pos] m by (simp add: word_le_nat_alt unat_onebit)
  from assms have "fsi_bitmap it = fsi_bitmap self - onebit ?m"
    by (simp add: frozen_subtree_next_eq [OF nz] Let_def) auto
  with le m show ?thesis using pos by (simp add: unat_sub unat_onebit)
qed

function frozen_subtree_collect :: "frozen_subtree_iterator \<Rightarrow> position list" where
  "frozen_subtree_collect self =
     (case frozen_subtree_next self of
        None \<Rightarrow> []
      | Some (p, it) \<Rightarrow> p # frozen_subtree_collect it)"
  by pat_completeness auto
termination
  by (relation "measure (\<lambda>it. unat (fsi_bitmap it))") (auto simp: frozen_subtree_next_less)

declare frozen_subtree_collect.simps [simp del]

definition frozen_nodes :: "nat \<Rightarrow> (nat \<times> nat) list" where
  "frozen_nodes n = map (\<lambda>l. (l, n div 2 ^ l - 1)) (filter (bit n) (rev [0..<64]))"

lemma frozen_subtree_collect_below:
  assumes "N < 2 ^ 63" and "k \<le> 63"
  shows "frozen_subtree_collect \<lparr>fsi_bitmap = of_nat (N mod 2 ^ k), fsi_seen_leaves = of_nat (N - N mod 2 ^ k)\<rparr>
    = map (\<lambda>l. Position (node_val l (N div 2 ^ l - 1))) (filter (bit N) (rev [0..<k]))"
  using assms(2)
proof (induction k)
  case 0
  show ?case by (subst frozen_subtree_collect.simps) (simp add: frozen_subtree_next_def)
next
  case (Suc k)
  show ?case
  proof (cases "bit N k")
    case False
    then have "N mod 2 ^ Suc k = N mod 2 ^ k" by (simp only: mod_Suc_bit) simp
    with Suc False show ?thesis by (simp del: power_Suc)
  next
    case True
    have k: "k < 64" using Suc.prems by simp
    have m: "N mod 2 ^ Suc k = N mod 2 ^ k + 2 ^ k" using True by (simp only: mod_Suc_bit) simp
    have lt: "N mod 2 ^ k < 2 ^ k" by simp
    have "N mod 2 ^ Suc k \<le> N" by simp
    moreover have "N < 2 ^ 64" using assms(1) by simp
    ultimately have lt64: "N mod 2 ^ Suc k < 2 ^ 64" by (rule le_less_trans)
    have bm: "unat (of_nat (N mod 2 ^ Suc k) :: u64) = N mod 2 ^ Suc k"
      using lt64 by (rule unat_of_nat_u64)
    have lg: "nlog2 (N mod 2 ^ Suc k) = k"
      unfolding m by (rule nlog2_unique) (use lt in simp_all)
    have nz: "(of_nat (N mod 2 ^ Suc k) :: u64) \<noteq> 0"
      using bm m by (metis add_is_0 power_not_zero unat_0 zero_neq_numeral)
    have b': "of_nat (N mod 2 ^ Suc k) - onebit k = (of_nat (N mod 2 ^ k) :: u64)"
      unfolding m by (simp add: onebit_def)
    have s': "of_nat (N - N mod 2 ^ Suc k) + onebit k = (of_nat (N - N mod 2 ^ k) :: u64)"
    proof -
      have "N - N mod 2 ^ k = (N - N mod 2 ^ Suc k) + 2 ^ k"
        using \<open>N mod 2 ^ Suc k \<le> N\<close> unfolding m by simp
      then show ?thesis
        by (simp only: of_nat_add of_nat_power of_nat_numeral onebit_def push_bit_of_1)
    qed
    have d: "N div 2 ^ k - 1 = 2 * (N div 2 ^ Suc k)"
    proof -
      have "N div 2 ^ Suc k = N div 2 ^ k div 2" by (simp only: power_Suc2 div_mult2_eq)
      moreover have "odd (N div 2 ^ k)" using True by (simp add: bit_iff_odd)
      ultimately show ?thesis using odd_two_times_div_two_nat [of "N div 2 ^ k"] by simp
    qed
    have root: "2 * of_nat (N - N mod 2 ^ Suc k) + mask k = node_val k (N div 2 ^ k - 1)"
    proof -
      have "N - N mod 2 ^ Suc k = N div 2 ^ Suc k * 2 ^ Suc k" by (simp only: minus_mod_eq_div_mult)
      then show ?thesis unfolding d node_val_word mask_eq_exp_minus_1 by simp
    qed
    show ?thesis
      using Suc.IH Suc.prems True nz root [unfolded One_nat_def]
      by (subst frozen_subtree_collect.simps)
        (simp add: frozen_subtree_next_eq bm lg b' s' from_leaf_index_val Let_def del: power_Suc of_nat_add of_nat_mult of_nat_diff)
  qed
qed

lemma frozen_subtree_collect_eq:
  assumes "unat n < 2 ^ 63"
  shows "frozen_subtree_collect (frozen_subtree_iterator_new n) =
    map (\<lambda>(l, p). Position (node_val l p)) (frozen_nodes (unat n))"
proof -
  have "unat n mod 2 ^ 63 = unat n" using assms by simp
  moreover have "\<not> bit (unat n) 63" using assms bit_lt_pow by blast
  moreover have "rev [0..<64] = 63 # rev [0..<63]" by (simp add: numeral_eq_Suc)
  ultimately show ?thesis
    using frozen_subtree_collect_below [OF assms, of 63]
    by (simp add: frozen_subtree_iterator_new_def frozen_nodes_def comp_def)
qed

definition node_leaves :: "nat \<times> nat \<Rightarrow> nat list" where
  "node_leaves n = [snd n * 2 ^ fst n ..< (snd n + 1) * 2 ^ fst n]"

lemma frozen_leaves_below:
  "concat (map (\<lambda>l. node_leaves (l, n div 2 ^ l - 1)) (filter (bit n) (rev [0..<k]))) = [n - n mod 2 ^ k ..< n]"
proof (induction k)
  case 0
  show ?case by simp
next
  case (Suc k)
  show ?case
  proof (cases "bit n k")
    case True
    have m: "n mod 2 ^ Suc k = n mod 2 ^ k + 2 ^ k" using True by (simp only: mod_Suc_bit) simp
    have le: "n mod 2 ^ Suc k \<le> n" by simp
    have q: "n div 2 ^ k * 2 ^ k = n - n mod 2 ^ k" by (simp only: minus_mod_eq_div_mult)
    have "0 < n div 2 ^ k" using True by (metis bit_iff_odd even_zero gr0I)
    then have nl: "node_leaves (k, n div 2 ^ k - 1) = [n - n mod 2 ^ Suc k ..< n - n mod 2 ^ k]"
      using q m by (simp add: node_leaves_def diff_mult_distrib del: power_Suc)
    have "[n - n mod 2 ^ Suc k ..< n] = [n - n mod 2 ^ Suc k ..< n - n mod 2 ^ k] @ [n - n mod 2 ^ k ..< n]"
      by (rule upt_append_split) (use m le in simp_all)
    with Suc True nl show ?thesis by (simp del: power_Suc)
  next
    case False
    then have "n mod 2 ^ Suc k = n mod 2 ^ k" by (simp only: mod_Suc_bit) simp
    with Suc False show ?thesis by (simp del: power_Suc)
  qed
qed

lemma frozen_nodes_leaves: "n < 2 ^ 64 \<Longrightarrow> concat (map node_leaves (frozen_nodes n)) = [0..<n]"
  using frozen_leaves_below [of n 64] by (simp add: frozen_nodes_def comp_def)

lemma frozen_nodes_sorted: "sorted_wrt (\<lambda>(l, p) (l', p'). l' < l) (frozen_nodes n)"
proof -
  have "sorted_wrt (>) (rev [0..<64::nat])" by (simp add: sorted_wrt_rev)
  then have "sorted_wrt (>) (filter (bit n) (rev [0..<64]))" by (rule sorted_wrt_filter)
  then show ?thesis by (simp add: frozen_nodes_def sorted_wrt_map)
qed

section \<open>Sibling iterator\<close>

definition ntz :: "nat \<Rightarrow> nat" where "ntz n = trailing_zeros (of_nat n :: u64)"

definition sibling_level :: "nat \<Rightarrow> nat \<Rightarrow> nat" where
  "sibling_level cur rem =
     (if 0 < cur \<and> 2 ^ ntz cur \<le> rem then ntz cur else nlog2 rem)"

lemma ntz_dvd:
  assumes "0 < n" "n < 2 ^ 64"
  shows "2 ^ ntz n dvd n" and "ntz n < 64"
proof -
  have "unat (of_nat n :: u64) = n" using assms(2) by (rule unat_of_nat_u64)
  with assms(1) have nz: "(of_nat n :: u64) \<noteq> 0" by (metis less_not_refl unat_0)
  show "ntz n < 64" unfolding ntz_def using trailing_zeros_props(1) [OF nz] .
  have "\<not> bit n i" if "i < ntz n" for i
    using trailing_zeros_props(3) [OF nz, of i] that trailing_zeros_props(1) [OF nz]
    by (simp add: ntz_def bit_u64_of_nat)
  then have "take_bit (ntz n) n = 0" by (intro bit_eqI) (auto simp: bit_take_bit_iff)
  then show "2 ^ ntz n dvd n" by (simp add: take_bit_eq_mod dvd_eq_mod_eq_0)
qed

lemma sibling_level_props:
  assumes "0 < rem" "cur + rem \<le> 2 ^ 63"
  shows "2 ^ sibling_level cur rem \<le> rem" and "2 ^ sibling_level cur rem dvd cur"
    and "sibling_level cur rem \<le> 63"
proof -
  have n: "2 ^ nlog2 rem \<le> rem" "rem < 2 ^ Suc (nlog2 rem)" using nlog2_bounds [OF assms(1)] by simp_all
  show le: "2 ^ sibling_level cur rem \<le> rem" using n by (simp add: sibling_level_def)
  then have "(2::nat) ^ sibling_level cur rem \<le> 2 ^ 63" using assms(2) by linarith
  then show "sibling_level cur rem \<le> 63" by (rule power_le_imp_le_exp [rotated]) simp
  show "2 ^ sibling_level cur rem dvd cur"
  proof (cases "cur = 0")
    case False
    with assms have c: "0 < cur" "cur < 2 ^ 64" by simp_all
    have "nlog2 rem \<le> ntz cur" if "rem < 2 ^ ntz cur"
    proof -
      have "(2::nat) ^ nlog2 rem < 2 ^ ntz cur" using n(1) that by (rule le_less_trans)
      then show ?thesis by simp
    qed
    with False have "sibling_level cur rem \<le> ntz cur" by (auto simp: sibling_level_def not_le)
    then have "(2::nat) ^ sibling_level cur rem dvd 2 ^ ntz cur" by (rule le_imp_power_dvd)
    with ntz_dvd(1) [OF c] show ?thesis by (rule dvd_trans [rotated])
  qed simp
qed

lemma frozen_subtree_sibling_next_eq:
  assumes "0 < rem" "cur + rem \<le> 2 ^ 63"
  shows "frozen_subtree_sibling_next \<lparr>fss_current_num_leaves = of_nat cur, fss_remaining_new_leaves = of_nat rem\<rparr> =
    (let t = sibling_level cur rem
     in Some (Position (node_val t (cur div 2 ^ t)),
         \<lparr>fss_current_num_leaves = of_nat (cur + 2 ^ t), fss_remaining_new_leaves = of_nat (rem - 2 ^ t)\<rparr>))"
proof -
  define t where "t = sibling_level cur rem"
  have t: "2 ^ t \<le> rem" "2 ^ t dvd cur" "t \<le> 63"
    unfolding t_def using sibling_level_props [OF assms] by simp_all
  have r: "unat (of_nat rem :: u64) = rem" using assms by (intro unat_of_nat_u64) simp
  have c: "unat (of_nat cur :: u64) = cur" using assms by (intro unat_of_nat_u64) simp
  have rz: "(of_nat rem :: u64) \<noteq> 0" using r assms(1) by (metis less_not_refl unat_0)
  have nl: "nlog2 rem \<le> 63" using nlog2_u64 [of "of_nat rem"] r assms(1) by simp
  have s63: "shl 1 n = of_nat (2 ^ n)" if "n \<le> 63" for n using that by (simp add: shl_def)
  have nb: "next_new_leaf_batch \<lparr>fss_current_num_leaves = of_nat cur, fss_remaining_new_leaves = of_nat rem\<rparr>
      = of_nat (2 ^ nlog2 rem)"
    using rz nl by (simp add: next_new_leaf_batch_def leading_zeros_nlog2 r MAX_ACCUMULATOR_PROOF_DEPTH_def s63)
  have cz: "0 < (of_nat cur :: u64) \<longleftrightarrow> 0 < cur" by (simp only: word_less_nat_alt c unat_0)
  have tz: "unat (shl 1 (ntz cur)) = 2 ^ ntz cur" "shl 1 (ntz cur) = of_nat (2 ^ ntz cur)" if "0 < cur"
  proof -
    have "ntz cur < 64" using that assms by (intro ntz_dvd(2)) simp_all
    then have l: "ntz cur \<le> 63" by simp
    then show "shl 1 (ntz cur) = of_nat (2 ^ ntz cur)" by (rule s63)
    moreover have "(2::nat) ^ ntz cur < 2 ^ 64" using l by (intro power_strict_increasing) simp_all
    ultimately show "unat (shl 1 (ntz cur)) = 2 ^ ntz cur" by (simp only: unat_of_nat_u64)
  qed
  have batch: "(if fss_current_num_leaves \<lparr>fss_current_num_leaves = of_nat cur, fss_remaining_new_leaves = of_nat rem\<rparr> > 0
       then let rightmost_frozen_subtree_leaves = shl 1 (trailing_zeros (of_nat cur))
            in if of_nat rem \<ge> rightmost_frozen_subtree_leaves
               then rightmost_frozen_subtree_leaves
               else next_new_leaf_batch \<lparr>fss_current_num_leaves = of_nat cur, fss_remaining_new_leaves = of_nat rem\<rparr>
       else next_new_leaf_batch \<lparr>fss_current_num_leaves = of_nat cur, fss_remaining_new_leaves = of_nat rem\<rparr>)
     = of_nat (2 ^ t)"
    unfolding nb t_def sibling_level_def using tz
    by (simp add: cz word_le_nat_alt r flip: ntz_def)
  have "node_val t (cur div 2 ^ t) = of_nat cur + (of_nat cur + of_nat (2 ^ t) - 1)"
  proof -
    have "cur div 2 ^ t * 2 ^ t = cur" using t(2) by (rule dvd_div_mult_self)
    then have "of_nat (cur div 2 ^ t) * 2 ^ t = (of_nat cur :: u64)" by (metis of_nat_mult of_nat_numeral of_nat_power)
    then have "of_nat (cur div 2 ^ t) * 2 ^ Suc t = (2 * of_nat cur :: u64)" by (simp add: mult.left_commute)
    then show ?thesis by (simp add: node_val_word del: power_Suc)
  qed
  moreover have "of_nat rem - of_nat (2 ^ t) = (of_nat (rem - 2 ^ t) :: u64)" using t(1) by (simp add: of_nat_diff)
  ultimately show ?thesis
    using rz batch unfolding Let_def t_def [symmetric]
    by (auto simp: frozen_subtree_sibling_next_def from_inorder_index_def Let_def split: if_splits)
qed

lemma next_new_leaf_batch_eq:
  "fss_remaining_new_leaves self \<noteq> 0 \<Longrightarrow>
   next_new_leaf_batch self = onebit (nlog2 (unat (fss_remaining_new_leaves self)))"
  using nlog2_u64 [of "fss_remaining_new_leaves self"]
  by (simp add: next_new_leaf_batch_def leading_zeros_nlog2 MAX_ACCUMULATOR_PROOF_DEPTH_def shl_def onebit_def
      unat_eq_zero)

lemma frozen_subtree_sibling_next_less:
  assumes "frozen_subtree_sibling_next self = Some (p, it)"
  shows "unat (fss_remaining_new_leaves it) < unat (fss_remaining_new_leaves self)"
proof -
  let ?r = "fss_remaining_new_leaves self"
  from assms have nz: "?r \<noteq> 0" by (auto simp: frozen_subtree_sibling_next_def)
  then have pos: "0 < unat ?r" by (simp add: unat_gt_0)
  let ?m = "nlog2 (unat ?r)"
  have m: "?m < 64" using nlog2_u64 pos by simp
  have lm: "onebit ?m \<le> ?r" using nlog2_bounds [OF pos] m by (simp add: word_le_nat_alt unat_onebit)
  have lt: "unat (?r - onebit j) < unat ?r" if "onebit j \<le> ?r" "j < 64" for j
    using that pos by (simp add: unat_sub unat_onebit)
  have tz: "shl 1 (trailing_zeros c) = onebit (trailing_zeros c) \<and> trailing_zeros c < 64" if "0 < c" for c
    using trailing_zeros_props(1) [of c] that by (auto simp: shl_def onebit_def)
  have "fss_remaining_new_leaves it = ?r - onebit ?m \<or>
    (\<exists>j<64. onebit j \<le> ?r \<and> fss_remaining_new_leaves it = ?r - onebit j)"
    using assms nz tz [of "fss_current_num_leaves self"]
    by (auto simp: frozen_subtree_sibling_next_def next_new_leaf_batch_eq Let_def split: if_splits)
  then show ?thesis using lt lm m by auto
qed

function frozen_subtree_sibling_collect :: "frozen_subtree_sibling_iterator \<Rightarrow> position list" where
  "frozen_subtree_sibling_collect self =
     (case frozen_subtree_sibling_next self of
        None \<Rightarrow> []
      | Some (p, it) \<Rightarrow> p # frozen_subtree_sibling_collect it)"
  by pat_completeness auto
termination
  by (relation "measure (\<lambda>it. unat (fss_remaining_new_leaves it))")
    (auto simp: frozen_subtree_sibling_next_less)

declare frozen_subtree_sibling_collect.simps [simp del]

function sibling_nodes :: "nat \<Rightarrow> nat \<Rightarrow> (nat \<times> nat) list" where
  "sibling_nodes cur rem =
     (if rem = 0 then []
      else let t = sibling_level cur rem
           in (t, cur div 2 ^ t) # sibling_nodes (cur + 2 ^ t) (rem - 2 ^ t))"
  by pat_completeness auto
termination by (relation "measure snd") auto

declare sibling_nodes.simps [simp del]

lemma frozen_subtree_sibling_collect_eq:
  assumes "cur + rem \<le> 2 ^ 63"
  shows "frozen_subtree_sibling_collect \<lparr>fss_current_num_leaves = of_nat cur, fss_remaining_new_leaves = of_nat rem\<rparr> =
    map (\<lambda>(l, p). Position (node_val l p)) (sibling_nodes cur rem)"
  using assms
proof (induction cur rem rule: sibling_nodes.induct)
  case (1 cur rem)
  show ?case
  proof (cases "rem = 0")
    case True
    then show ?thesis
      by (subst frozen_subtree_sibling_collect.simps, subst sibling_nodes.simps)
       (simp add: frozen_subtree_sibling_next_def)
  next
    case False
    let ?t = "sibling_level cur rem"
    have "2 ^ ?t \<le> rem" using sibling_level_props(1) False "1.prems" by simp
    then have "cur + 2 ^ ?t + (rem - 2 ^ ?t) \<le> 2 ^ 63" using "1.prems" by simp
    with "1.IH" [OF False refl] False show ?thesis
      by (subst frozen_subtree_sibling_collect.simps, subst sibling_nodes.simps)
       (simp add: frozen_subtree_sibling_next_eq "1.prems" Let_def)
  qed
qed

lemma sibling_nodes_leaves:
  "cur + rem \<le> 2 ^ 63 \<Longrightarrow> concat (map node_leaves (sibling_nodes cur rem)) = [cur..<cur + rem]"
proof (induction cur rem rule: sibling_nodes.induct)
  case (1 cur rem)
  show ?case
  proof (cases "rem = 0")
    case True
    then show ?thesis by (subst sibling_nodes.simps) simp
  next
    case False
    let ?t = "sibling_level cur rem"
    have le: "2 ^ ?t \<le> rem" and dv: "2 ^ ?t dvd cur" using sibling_level_props False "1.prems" by simp_all
    then have b: "cur + 2 ^ ?t + (rem - 2 ^ ?t) \<le> 2 ^ 63" using "1.prems" by simp
    have nl: "node_leaves (?t, cur div 2 ^ ?t) = [cur..<cur + 2 ^ ?t]"
      using dv by (simp add: node_leaves_def add.commute)
    have "[cur..<cur + rem] = [cur..<cur + 2 ^ ?t] @ [cur + 2 ^ ?t..<cur + rem]"
      using le by (intro upt_append_split) simp_all
    with "1.IH" [OF False refl b] nl le False show ?thesis
      by (subst sibling_nodes.simps) (simp add: Let_def)
  qed
qed

section \<open>Properties\<close>

lemma from_level_and_pos_node:
  assumes "l < 63" shows "from_level_and_pos l p = Position (node_val l (unat p))"
  using assms by (simp add: from_level_and_pos_eq)

lemma unat_double_pos:
  assumes "unat (p::u64) < 2 ^ 62"
  shows "unat (2 * p) = 2 * unat p" and "unat (2 * p + 1) = 2 * unat p + 1"
proof -
  show d: "unat (2 * p) = 2 * unat p" using assms by (intro unat_double) simp
  show "unat (2 * p + 1) = 2 * unat p + 1" using assms d unat_add_lem [of "2 * p" 1] by simp
qed

text \<open>
  C20: The tree behind the in-order numbers. Below the word's top levels, the node of index
  \<open>p\<close> on level \<open>l + 1\<close> has that level, its children are the nodes \<open>2 p\<close> and \<open>2 p + 1\<close> of
  level \<open>l\<close>, in this order, its parent is found from both, and they are each other's siblings.
  No operation panics.
\<close>

theorem position_structure:
  "l < 62 \<Longrightarrow> unat p < 2 ^ (62 - l) \<Longrightarrow>
   (let node = from_level_and_pos (Suc l) p;
        lc = from_level_and_pos l (2 * p);
        rc = from_level_and_pos l (2 * p + 1)
    in level node = Suc l \<and> (left_child node :: ('e, _) result) = Inr lc \<and>
       (right_child node :: ('e, _) result) = Inr rc \<and>
       parent lc = node \<and> parent rc = node \<and> sibling lc = rc \<and> sibling rc = lc \<and>
       is_left_child lc \<and> is_right_child rc)"
proof -
  assume l: "l < 62" and p: "unat p < 2 ^ (62 - l)"
  have "(2::nat) ^ (62 - l) \<le> 2 ^ 62" by (rule power_increasing) simp_all
  with p have "unat p < 2 ^ 62" by linarith
  note u = unat_double_pos [OF this]
  have "(2 * unat p + 1) div 2 = unat p" by simp
  with l u show ?thesis
    by (simp add: from_level_and_pos_node parent_node left_child_node right_child_node sibling_node
        level_node is_left_child_node is_right_child_def Let_def)
qed

theorem position_structure_witness:
  "level (from_level_and_pos 2 1) = 2
   \<and> (left_child (from_level_and_pos 2 1) :: (unit, _) result) = Inr (from_level_and_pos 1 2)
   \<and> from_level_and_pos 2 1 = Position 11 \<and> from_level_and_pos 1 2 = Position 9"
proof -
  have "from_level_and_pos 2 1 = Position 11 \<and> from_level_and_pos 1 2 = Position 9" by code_simp
  moreover have "Suc 1 = 2" by simp
  ultimately show ?thesis using position_structure [where 'e = unit, of 1 1] by (simp only: Let_def) simp
qed

lemma postorder_nodes_bound: "(l, p) \<in> set (postorder_nodes h q) \<Longrightarrow> l \<le> h \<and> p < (q + 1) * 2 ^ (h - l)"
proof (induction h arbitrary: q)
  case (Suc h)
  from Suc.prems consider "(l, p) \<in> set (postorder_nodes h (2 * q))" | "(l, p) \<in> set (postorder_nodes h (2 * q + 1))"
    | "l = Suc h" "p = q" by auto
  then show ?case
  proof cases
    case 1
    from Suc.IH [OF this] have "l \<le> h" "p < (2 * q + 1) * 2 ^ (h - l)" by simp_all
    moreover have "(2 * q + 1) * 2 ^ (h - l) \<le> (2 * q + 2) * (2::nat) ^ (h - l)" by simp
    ultimately show ?thesis by (simp add: Suc_diff_le algebra_simps)
  next
    case 2
    from Suc.IH [OF this] show ?thesis by (simp add: Suc_diff_le algebra_simps)
  qed simp
qed simp

lemma inorder_nodes_set: "set (inorder_nodes h q) = set (postorder_nodes h q)"
  by (induction h arbitrary: q) auto

lemma tree_nodes_valid: "h \<le> 62 \<Longrightarrow> (l, p) \<in> set (postorder_nodes h 0) \<Longrightarrow> valid_node l p"
proof -
  assume h: "h \<le> 62" and "(l, p) \<in> set (postorder_nodes h 0)"
  from postorder_nodes_bound [OF this(2)] have b: "l \<le> h" "p < 2 ^ (h - l)" by simp_all
  have "(2::nat) ^ (h - l) \<le> 2 ^ (63 - l)" by (rule power_increasing) (use h in simp_all)
  with b(2) have "p < 2 ^ (63 - l)" by (rule less_le_trans)
  with b h show ?thesis by (simp add: valid_node_def)
qed

text \<open>
  C21: The in-order and post-order numbers are the indices of the two traversals. Over the
  perfect tree of height \<open>h\<close>, the nodes in post-order have the post-order numbers
  \<open>0, 1, 2, ...\<close>, \<open>from_postorder_index\<close> takes these numbers back to the nodes, and the nodes
  in in-order have the in-order numbers \<open>0, 1, 2, ...\<close>.
\<close>

theorem traversal_indices:
  "h \<le> 62 \<Longrightarrow>
   map (\<lambda>(l, p). to_postorder_index (from_level_and_pos l (of_nat p))) (postorder_nodes h 0)
     = map of_nat [0..<2 ^ (h + 1) - 1] \<and>
   map (\<lambda>n. from_postorder_index (of_nat n)) [0..<2 ^ (h + 1) - 1]
     = map (\<lambda>(l, p). from_level_and_pos l (of_nat p)) (postorder_nodes h 0) \<and>
   map (\<lambda>(l, p). to_inorder_index (from_level_and_pos l (of_nat p))) (inorder_nodes h 0)
     = map of_nat [0..<2 ^ (h + 1) - 1]" (is "_ \<Longrightarrow> ?A \<and> ?B \<and> ?C")
proof (intro conjI)
  assume h: "h \<le> 62"
  have len: "length (postorder_nodes h 0) = 2 ^ (h + 1) - 1" "length (inorder_nodes h 0) = 2 ^ (h + 1) - 1"
    by (simp_all only: length_postorder_nodes length_inorder_nodes Suc_eq_plus1)
  have node: "from_level_and_pos l (of_nat p) = Position (node_val l p)" if "valid_node l p" for l p
    using that valid_node_unat by (simp add: valid_node_def from_level_and_pos_node)
  have post: "valid_node l p \<and> post_num l p = k" if "k < 2 ^ (h + 1) - 1" "postorder_nodes h 0 ! k = (l, p)" for k l p
    using that postorder_nth [of k h 0 l p] tree_nodes_valid [OF h, of l p] nth_mem [of k "postorder_nodes h 0"] len
    by simp
  have ino: "valid_node l p \<and> p * 2 ^ Suc l + (2 ^ l - 1) = k"
    if "k < 2 ^ (h + 1) - 1" "inorder_nodes h 0 ! k = (l, p)" for k l p
    using that inorder_nth [of k h 0 l p] tree_nodes_valid [OF h, of l p] nth_mem [of k "inorder_nodes h 0"] len
    by (simp add: inorder_nodes_set)
  show ?A
  proof (rule nth_equalityI)
    fix k assume "k < length (map (\<lambda>(l, p). to_postorder_index (from_level_and_pos l (of_nat p))) (postorder_nodes h 0))"
    then have k: "k < 2 ^ (h + 1) - 1" using len by simp
    obtain l p where n: "postorder_nodes h 0 ! k = (l, p)" by fastforce
    from post [OF k n] have v: "valid_node l p" "post_num l p = k" by simp_all
    have "inorder_to_postorder (node_val l p) = of_nat k"
      unfolding v(2) [symmetric] inorder_to_postorder_node [OF v(1), symmetric] by simp
    with k n v len show "map (\<lambda>(l, p). to_postorder_index (from_level_and_pos l (of_nat p))) (postorder_nodes h 0) ! k
      = map of_nat [0..<2 ^ (h + 1) - 1] ! k"
      by (simp add: node to_postorder_index_def)
  qed (simp add: len)
  show ?B
  proof (rule nth_equalityI)
    fix k assume "k < length (map (\<lambda>n. from_postorder_index (of_nat n)) [0..<2 ^ (h + 1) - 1])"
    then have k: "k < 2 ^ (h + 1) - 1" by simp
    obtain l p where n: "postorder_nodes h 0 ! k = (l, p)" by fastforce
    from post [OF k n] have v: "valid_node l p" "post_num l p = k" by simp_all
    with k n len show "map (\<lambda>n. from_postorder_index (of_nat n)) [0..<2 ^ (h + 1) - 1] ! k
      = map (\<lambda>(l, p). from_level_and_pos l (of_nat p)) (postorder_nodes h 0) ! k"
      using postorder_to_inorder_node [OF v(1)] by (simp add: node from_postorder_index_def)
  qed (simp add: len)
  show ?C
  proof (rule nth_equalityI)
    fix k assume "k < length (map (\<lambda>(l, p). to_inorder_index (from_level_and_pos l (of_nat p))) (inorder_nodes h 0))"
    then have k: "k < 2 ^ (h + 1) - 1" using len by simp
    obtain l p where n: "inorder_nodes h 0 ! k = (l, p)" by fastforce
    from ino [OF k n] have v: "valid_node l p" "p * 2 ^ Suc l + (2 ^ l - 1) = k" by simp_all
    with k n len show "map (\<lambda>(l, p). to_inorder_index (from_level_and_pos l (of_nat p))) (inorder_nodes h 0) ! k
      = map of_nat [0..<2 ^ (h + 1) - 1] ! k"
      by (simp add: node node_val_of_nat del: of_nat_add)
  qed (simp add: len)
qed

theorem traversal_indices_witness:
  "map (\<lambda>n. from_postorder_index (of_nat n)) [0..<7]
     = map (\<lambda>(l, p). from_level_and_pos l (of_nat p)) [(0,0),(0,1),(1,0),(0,2),(0,3),(1,1),(2,0)]"
proof -
  have "postorder_nodes 2 0 = [(0,0),(0,1),(1,0),(0,2),(0,3),(1,1),(2,0)]" by code_simp
  then show ?thesis using traversal_indices [of 2] by simp
qed

text \<open>
  C22: Freezing is about leaves. After the leaf \<open>i\<close> is added, a node is freezable if and only
  if all leaves below it are at most \<open>i\<close>, and it is a placeholder if and only if all of them
  are beyond \<open>i\<close>.
\<close>

theorem freezable_placeholder:
  "l < 63 \<Longrightarrow> unat p < 2 ^ (63 - l) \<Longrightarrow> unat i < 2 ^ 63 \<Longrightarrow>
   (is_freezable (from_level_and_pos l p) i \<longleftrightarrow> (\<forall>j \<in> set (node_leaves (l, unat p)). j \<le> unat i)) \<and>
   (is_placeholder (from_level_and_pos l p) i \<longleftrightarrow> (\<forall>j \<in> set (node_leaves (l, unat p)). unat i < j))"
proof -
  assume l: "l < 63" and p: "unat p < 2 ^ (63 - l)" and i: "unat i < 2 ^ 63"
  from l p have v: "valid_node l (unat p)" by (simp add: valid_node_def)
  define b where "b = unat p * 2 ^ l"
  define w :: nat where "w = 2 ^ l"
  have w: "0 < w" by (simp add: w_def)
  have nl: "set (node_leaves (l, unat p)) = {b..<b + w}" by (simp add: node_leaves_def b_def w_def add.commute)
  have "(unat p + 1) * 2 ^ l = b + w" by (simp add: b_def w_def)
  moreover have "b + w \<le> unat i + 1 \<longleftrightarrow> (\<forall>j\<in>{b..<b + w}. j \<le> unat i)"
  proof
    assume r: "\<forall>j\<in>{b..<b + w}. j \<le> unat i"
    have "b + w - 1 \<in> {b..<b + w}" using w by auto
    with r have "b + w - 1 \<le> unat i" by blast
    then show "b + w \<le> unat i + 1" by simp
  qed auto
  moreover have "unat i < b \<longleftrightarrow> (\<forall>j\<in>{b..<b + w}. unat i < j)" using w by auto
  ultimately show ?thesis
    using is_freezable_node [OF v i] is_placeholder_node [OF v i] unfolding b_def [symmetric]
    by (simp add: from_level_and_pos_node [OF l] nl)
qed

theorem freezable_placeholder_witness:
  "\<not> is_freezable (from_level_and_pos 1 1) 2 \<and> \<not> is_placeholder (from_level_and_pos 1 1) 2"
  using freezable_placeholder [of 1 1 2] by (simp add: node_leaves_def)

lemma frozen_nodes_level: "n < 2 ^ 63 \<Longrightarrow> (l, p) \<in> set (frozen_nodes n) \<Longrightarrow> l < 63"
  using bit_lt_pow [of n 63 l] by (cases "l < 63") (auto simp: frozen_nodes_def)

lemma sibling_nodes_level:
  "cur + rem < 2 ^ 63 \<Longrightarrow> (l, p) \<in> set (sibling_nodes cur rem) \<Longrightarrow> l < 63"
proof (induction cur rem rule: sibling_nodes.induct)
  case (1 cur rem)
  let ?t = "sibling_level cur rem"
  from "1.prems"(2) have nz: "rem \<noteq> 0" by (subst (asm) sibling_nodes.simps) (simp split: if_splits)
  have le: "2 ^ ?t \<le> rem" using sibling_level_props(1) nz "1.prems"(1) by simp
  then have "(2::nat) ^ ?t < 2 ^ 63" using "1.prems"(1) by linarith
  then have "?t < 63" by (rule power_less_imp_less_exp [rotated]) simp
  moreover have "cur + 2 ^ ?t + (rem - 2 ^ ?t) < 2 ^ 63" using "1.prems"(1) le by simp
  ultimately show ?case using "1.IH" [OF nz refl] "1.prems"(2) nz
    by (subst (asm) sibling_nodes.simps) (auto simp: Let_def)
qed

lemma node_positions_eq:
  "(\<And>l p. (l, p) \<in> set ns \<Longrightarrow> l < 63) \<Longrightarrow>
   map (\<lambda>(l, p). Position (node_val l p)) ns = map (\<lambda>(l, p). from_level_and_pos l (of_nat p)) ns"
  by (auto simp: from_level_and_pos_eq node_val_def)

text \<open>
  C24: The two subtree iterators. \<open>FrozenSubTreeIterator\<close> over \<open>n\<close> leaves returns nodes of
  strictly decreasing level whose leaves, in order, are exactly \<open>0, ..., n - 1\<close>;
  \<open>FrozenSubtreeSiblingIterator\<close> from \<open>m\<close> to \<open>n\<close> leaves does not panic and returns nodes whose
  leaves, in order, are exactly \<open>m, ..., n - 1\<close>.
\<close>

theorem subtree_iterators_cover:
  "unat m \<le> unat n \<Longrightarrow> unat n < 2 ^ 63 \<Longrightarrow>
   (\<exists>fs ss it. frozen_subtree_collect (frozen_subtree_iterator_new n)
        = map (\<lambda>(l, p). from_level_and_pos l (of_nat p)) fs \<and>
      sorted_wrt (\<lambda>(l, p) (l', p'). l' < l) fs \<and>
      concat (map node_leaves fs) = [0..<unat n] \<and>
      (frozen_subtree_sibling_iterator_new m n :: (unit, _) result) = Inr it \<and>
      frozen_subtree_sibling_collect it = map (\<lambda>(l, p). from_level_and_pos l (of_nat p)) ss \<and>
      concat (map node_leaves ss) = [unat m..<unat n])"
proof -
  assume mn: "unat m \<le> unat n" and n: "unat n < 2 ^ 63"
  define it where "it = \<lparr>fss_current_num_leaves = of_nat (unat m), fss_remaining_new_leaves = of_nat (unat n - unat m)\<rparr>"
  have sum: "unat m + (unat n - unat m) = unat n" using mn by simp
  have "(frozen_subtree_sibling_iterator_new m n :: (unit, _) result) = Inr it"
    using mn n by (simp add: frozen_subtree_sibling_iterator_new_def assert_that_def it_def word_le_nat_alt
        MAX_ACCUMULATOR_LEAVES_def MAX_ACCUMULATOR_PROOF_DEPTH_def shl_def of_nat_diff)
  moreover have "frozen_subtree_sibling_collect it
      = map (\<lambda>(l, p). from_level_and_pos l (of_nat p)) (sibling_nodes (unat m) (unat n - unat m))"
    using frozen_subtree_sibling_collect_eq [of "unat m" "unat n - unat m"]
      sibling_nodes_level [of "unat m" "unat n - unat m"] n
    unfolding it_def sum by (simp add: node_positions_eq)
  moreover have "concat (map node_leaves (sibling_nodes (unat m) (unat n - unat m))) = [unat m..<unat n]"
    using sibling_nodes_leaves [of "unat m" "unat n - unat m"] n unfolding sum by simp
  moreover have "frozen_subtree_collect (frozen_subtree_iterator_new n)
      = map (\<lambda>(l, p). from_level_and_pos l (of_nat p)) (frozen_nodes (unat n))"
    using frozen_subtree_collect_eq [OF n] frozen_nodes_level [OF n] by (simp add: node_positions_eq)
  moreover have "concat (map node_leaves (frozen_nodes (unat n))) = [0..<unat n]"
    using n by (intro frozen_nodes_leaves) simp
  ultimately show ?thesis using frozen_nodes_sorted by blast
qed

theorem subtree_iterators_cover_witness:
  "\<exists>fs. frozen_subtree_collect (frozen_subtree_iterator_new 5)
      = map (\<lambda>(l, p). from_level_and_pos l (of_nat p)) fs \<and> concat (map node_leaves fs) = [0..<5]"
  using subtree_iterators_cover [of 3 5] by auto

end
