(* ===== verification/Hash_Value.thy ===== *)
theory Hash_Value
  imports Prelude
begin

text \<open>
  \<open>HashValue\<close> and the hashers of \<open>crypto/crypto/src/hash.rs\<close>. A hash is its 32 bytes read as a
  big-endian number, so that the derived \<open>Ord\<close> of the byte array is the order of the word. The
  SHA3-256 function of the \<open>tiny_keccak\<close> crate is the parameter \<open>sha3\<close>: a hasher is the bytes
  fed to it so far.
\<close>

section \<open>Hash values\<close>

type_synonym u8 = "8 word"

definition LENGTH_BYTES :: nat where "LENGTH_BYTES = 32"
definition LENGTH_IN_BITS :: nat where "LENGTH_IN_BITS = LENGTH_BYTES * 8"
definition LENGTH_IN_NIBBLES :: nat where "LENGTH_IN_NIBBLES = LENGTH_BYTES * 2"

definition as_bytes :: "hash_value \<Rightarrow> u8 list" where
  "as_bytes h = map (\<lambda>i. ucast (drop_bit (8 * (31 - i)) h)) [0..<LENGTH_BYTES]"

definition of_bytes :: "u8 list \<Rightarrow> hash_value" where
  "of_bytes bs = foldl (\<lambda>acc b. push_bit 8 acc OR ucast b) 0 bs"

definition from_slice :: "u8 list \<Rightarrow> hash_value anyhow" where
  "from_slice src =
     rbind (ensure (length src = LENGTH_BYTES) ''HashValue decoding failed due to length mismatch'') (\<lambda>_.
     Inr (of_bytes src))"

definition get_bit :: "hash_value \<Rightarrow> nat \<Rightarrow> bool" where
  "get_bit h index =
     (let pos = index div 8; b = 7 - index mod 8
      in drop_bit b (as_bytes h ! pos) AND 1 \<noteq> 0)"

definition iter_bits :: "hash_value \<Rightarrow> bool list" where
  "iter_bits h = map (get_bit h) [0..<LENGTH_IN_BITS]"

text \<open>The loop body of \<open>from_bit_iter\<close>.\<close>

definition set_bit_step :: "nat \<times> bool \<Rightarrow> u8 list \<Rightarrow> u8 list" where
  "set_bit_step = (\<lambda>(i, b) buf.
     if b then buf[i div 8 := buf ! (i div 8) OR push_bit (7 - i mod 8) 1] else buf)"

definition from_bit_iter :: "bool list \<Rightarrow> hash_value anyhow" where
  "from_bit_iter iter =
     rbind (ensure (length iter = LENGTH_IN_BITS) ''The iterator should yield exactly 256 bits'') (\<lambda>_.
     let buf = fold set_bit_step (List.enumerate 0 iter) (replicate LENGTH_BYTES 0)
     in Inr (of_bytes buf))"

definition common_prefix_bits_len :: "hash_value \<Rightarrow> hash_value \<Rightarrow> nat" where
  "common_prefix_bits_len h other =
     length (takeWhile (\<lambda>(x, y). x = y) (zip (iter_bits h) (iter_bits other)))"

definition common_prefix_nibbles_len :: "hash_value \<Rightarrow> hash_value \<Rightarrow> nat" where
  "common_prefix_nibbles_len h other = common_prefix_bits_len h other div 4"

datatype nibble = Nibble u8

definition nibble_from :: "u8 \<Rightarrow> ('e, nibble) result" where
  "nibble_from n = rbind (assert_that (n < 16) ''Nibble out of range'') (\<lambda>_. Inr (Nibble n))"

definition get_nibble :: "hash_value \<Rightarrow> nat \<Rightarrow> ('e, nibble) result" where
  "get_nibble h index =
     rbind (assert_that (index div 2 < LENGTH_BYTES) ''index out of bounds'') (\<lambda>_.
     nibble_from (if index mod 2 = 0 then drop_bit 4 (as_bytes h ! (index div 2))
                  else as_bytes h ! (index div 2) AND 0x0F))"

section \<open>Hashers\<close>

definition LIBRA_HASH_PREFIX :: "u8 list" where
  "LIBRA_HASH_PREFIX = map of_char ''LIBRA::''"

record default_hasher = hasher_state :: "u8 list"

definition sha3_256_of :: "(u8 list \<Rightarrow> hash_value) \<Rightarrow> u8 list \<Rightarrow> hash_value" where
  "sha3_256_of sha3 buffer = sha3 buffer"

definition prefixed_hash :: "(u8 list \<Rightarrow> hash_value) \<Rightarrow> u8 list \<Rightarrow> u8 list" where
  "prefixed_hash sha3 buffer = as_bytes (sha3_256_of sha3 (LIBRA_HASH_PREFIX @ buffer))"

definition default_hasher_new :: "(u8 list \<Rightarrow> hash_value) \<Rightarrow> u8 list \<Rightarrow> default_hasher" where
  "default_hasher_new sha3 typename =
     \<lparr>hasher_state = (if typename \<noteq> [] then prefixed_hash sha3 typename else [])\<rparr>"

definition hasher_update :: "u8 list \<Rightarrow> default_hasher \<Rightarrow> default_hasher" where
  "hasher_update bytes h = h\<lparr>hasher_state := hasher_state h @ bytes\<rparr>"

definition hasher_finish :: "(u8 list \<Rightarrow> hash_value) \<Rightarrow> default_hasher \<Rightarrow> hash_value" where
  "hasher_finish sha3 h = sha3 (hasher_state h)"

definition create_literal_hash :: "string \<Rightarrow> hash_value anyhow" where
  "create_literal_hash word =
     (let s = map of_char word
      in rbind (assert_that (length s \<le> LENGTH_BYTES) ''s.len() <= HashValue::LENGTH'') (\<lambda>_.
         rexpect (from_slice (s @ replicate (LENGTH_BYTES - length s) 0)) ''Cannot fail''))"

definition ACCUMULATOR_PLACEHOLDER_HASH :: hash_value where
  "ACCUMULATOR_PLACEHOLDER_HASH = projr (create_literal_hash ''ACCUMULATOR_PLACEHOLDER_HASH'')"

definition SPARSE_MERKLE_PLACEHOLDER_HASH :: hash_value where
  "SPARSE_MERKLE_PLACEHOLDER_HASH = projr (create_literal_hash ''SPARSE_MERKLE_PLACEHOLDER_HASH'')"

definition GENESIS_BLOCK_ID :: hash_value where
  "GENESIS_BLOCK_ID = of_bytes
     [0x5e, 0x10, 0xba, 0xd4, 0x5b, 0x35, 0xed, 0x92, 0x9c, 0xd6, 0xd2, 0xc7, 0x09, 0x8b, 0x13,
      0x5d, 0x02, 0xdd, 0x25, 0x9a, 0xe8, 0x8a, 0x8d, 0x09, 0xf4, 0xeb, 0x5f, 0xba, 0xe9, 0xa6,
      0xf6, 0xe4]"

section \<open>Bytes and bits\<close>

lemma length_as_bytes [simp]: "length (as_bytes h) = 32"
  by (simp add: as_bytes_def LENGTH_BYTES_def)

lemma as_bytes_nth: "i < 32 \<Longrightarrow> as_bytes h ! i = ucast (drop_bit (8 * (31 - i)) h)"
  by (simp add: as_bytes_def LENGTH_BYTES_def)

lemma bit_as_bytes: "i < 32 \<Longrightarrow> bit (as_bytes h ! i) m \<longleftrightarrow> m < 8 \<and> bit h (8 * (31 - i) + m)"
  by (auto simp: as_bytes_nth bit_ucast_iff bit_drop_bit_eq)

lemma of_bytes_snoc: "of_bytes (bs @ [b]) = push_bit 8 (of_bytes bs) OR ucast b"
  by (simp add: of_bytes_def)

lemma bit_of_bytes:
  "n < 256 \<Longrightarrow> bit (of_bytes bs) n \<longleftrightarrow> n div 8 < length bs \<and> bit (rev bs ! (n div 8)) (n mod 8)"
proof (induction bs arbitrary: n rule: rev_induct)
  case Nil
  then show ?case by (simp add: of_bytes_def)
next
  case (snoc b bs)
  show ?case
  proof (cases "n < 8")
    case True
    then show ?thesis using snoc.prems
      by (auto simp: of_bytes_snoc bit_or_iff bit_push_bit_iff bit_ucast_iff)
  next
    case False
    then have d: "n div 8 = Suc ((n - 8) div 8)" "(n - 8) mod 8 = n mod 8"
      by (simp_all add: le_div_geq le_mod_geq)
    have "\<not> bit b n" using False by (auto dest: bit_imp_le_length)
    then show ?thesis using snoc.prems False snoc.IH [of "n - 8"] d
      by (auto simp: of_bytes_snoc bit_or_iff bit_push_bit_iff bit_ucast_iff)
  qed
qed

lemma of_bytes_eq_iff:
  assumes "length bs = 32" and "\<And>i m. i < 32 \<Longrightarrow> m < 8 \<Longrightarrow> bit (bs ! i) m \<longleftrightarrow> bit h (8 * (31 - i) + m)"
  shows "of_bytes bs = h"
proof (rule bit_word_eqI)
  fix n assume "n < LENGTH(256)"
  then have n: "n < 256" by simp
  then have d: "n div 8 < 32" by simp
  moreover have "8 * (n div 8) + n mod 8 = n" by simp
  moreover from calculation have "31 - (31 - n div 8) = n div 8" by simp
  ultimately show "bit (of_bytes bs) n \<longleftrightarrow> bit h n"
    using n d assms(1) assms(2) [of "31 - n div 8" "n mod 8"] by (auto simp: bit_of_bytes rev_nth)
qed

lemma of_bytes_as_bytes: "of_bytes (as_bytes h) = h"
  by (rule of_bytes_eq_iff) (auto simp: bit_as_bytes)

lemma as_bytes_of_bytes: "length bs = 32 \<Longrightarrow> as_bytes (of_bytes bs) = bs"
proof (rule nth_equalityI)
  fix i assume l: "length bs = 32" and "i < length (as_bytes (of_bytes bs))"
  then have i: "i < 32" by simp
  show "as_bytes (of_bytes bs) ! i = bs ! i"
  proof (rule bit_word_eqI)
    fix m assume "m < LENGTH(8)"
    then have m: "m < 8" by simp
    have "(8 * (31 - i) + m) div 8 = 31 - i" "(8 * (31 - i) + m) mod 8 = m" using m by simp_all
    moreover have "8 * (31 - i) + m < 256" using m by simp
    moreover have "31 - (31 - i) = i" using i by simp
    ultimately show "bit (as_bytes (of_bytes bs) ! i) m \<longleftrightarrow> bit (bs ! i) m"
      using i l m by (simp add: bit_as_bytes bit_of_bytes rev_nth)
  qed
qed simp

lemma div_mod_8: "k < 8 \<Longrightarrow> (8 * a + k) div 8 = a \<and> (8 * a + k) mod 8 = (k::nat)"
  by simp

lemma bit_index_split: "i < (256::nat) \<Longrightarrow> 255 - i = 8 * (31 - i div 8) + (7 - i mod 8)"
proof -
  assume i: "i < 256"
  have "i = 8 * (i div 8) + i mod 8" by simp
  moreover have "i div 8 \<le> 31" "i mod 8 \<le> 7" using i by simp_all
  ultimately show ?thesis by linarith
qed

lemma get_bit_eq: "i < 256 \<Longrightarrow> get_bit h i \<longleftrightarrow> bit h (255 - i)"
proof -
  assume i: "i < 256"
  have a: "8 * (31 - i div 8) + (7 - i mod 8) = 255 - i" using bit_index_split [OF i] by simp
  have b: "7 - i mod 8 < 8" by simp
  have "drop_bit b v AND 1 \<noteq> 0 \<longleftrightarrow> bit v b" for b and v :: u8
    by (simp add: and_one_eq bit_iff_odd_drop_bit odd_iff_mod_2_eq_one)
  then show ?thesis using i a b by (simp only: get_bit_def bit_as_bytes Let_def) (simp add: bit_as_bytes)
qed

lemma iter_bits_nth: "i < 256 \<Longrightarrow> iter_bits h ! i \<longleftrightarrow> bit h (255 - i)"
  by (simp add: iter_bits_def LENGTH_IN_BITS_def LENGTH_BYTES_def get_bit_eq)

lemma length_iter_bits [simp]: "length (iter_bits h) = 256"
  by (simp add: iter_bits_def LENGTH_IN_BITS_def LENGTH_BYTES_def)

lemma iter_bits_inj: "iter_bits h = iter_bits h' \<longleftrightarrow> h = h'"
proof
  assume eq: "iter_bits h = iter_bits h'"
  show "h = h'"
  proof (rule bit_word_eqI)
    fix n assume "n < LENGTH(256)"
    then have "255 - n < 256" "255 - (255 - n) = n" by simp_all
    with eq show "bit h n \<longleftrightarrow> bit h' n"
      using iter_bits_nth [of "255 - n" h] iter_bits_nth [of "255 - n" h'] by simp
  qed
qed simp

lemma set_bit_fold:
  assumes "length bits \<le> 256"
  shows "length (fold set_bit_step (List.enumerate 0 bits) (replicate 32 0)) = 32 \<and>
    (\<forall>i<32. \<forall>m<8. bit (fold set_bit_step (List.enumerate 0 bits) (replicate 32 0) ! i) m
       \<longleftrightarrow> 8 * i + (7 - m) < length bits \<and> bits ! (8 * i + (7 - m)))"
  using assms
proof (induction bits rule: rev_induct)
  case Nil
  show ?case by simp
next
  case (snoc b bits)
  define buf where "buf = fold set_bit_step (List.enumerate 0 bits) (replicate 32 0)"
  let ?n = "length bits"
  from snoc have l: "length buf = 32" by (simp add: buf_def)
  from snoc have IH: "bit (buf ! i) m \<longleftrightarrow> 8 * i + (7 - m) < ?n \<and> bits ! (8 * i + (7 - m))"
    if "i < 32" "m < 8" for i m
    using that by (simp add: buf_def)
  have n: "?n < 256" using snoc.prems by simp
  then have nd: "?n div 8 < 32" by simp
  have step: "fold set_bit_step (List.enumerate 0 (bits @ [b])) (replicate 32 0) = set_bit_step (?n, b) buf"
    by (simp add: buf_def enumerate_append_eq)
  have pos: "8 * i + (7 - m) = ?n \<longleftrightarrow> i = ?n div 8 \<and> m = 7 - ?n mod 8" if "m < 8" for i m
  proof
    assume eq: "8 * i + (7 - m) = ?n"
    have "7 - m < 8" by simp
    then have "(8 * i + (7 - m)) div 8 = i" "(8 * i + (7 - m)) mod 8 = 7 - m" by simp_all
    then have "?n div 8 = i" "?n mod 8 = 7 - m" by (simp_all only: eq)
    then show "i = ?n div 8 \<and> m = 7 - ?n mod 8" using that by simp
  next
    assume "i = ?n div 8 \<and> m = 7 - ?n mod 8"
    moreover have "?n mod 8 \<le> 7" by simp
    moreover have "8 * (?n div 8) + ?n mod 8 = ?n" by simp
    ultimately show "8 * i + (7 - m) = ?n" by simp
  qed
  have "bit (set_bit_step (?n, b) buf ! i) m \<longleftrightarrow>
      8 * i + (7 - m) < Suc ?n \<and> (bits @ [b]) ! (8 * i + (7 - m))" if im: "i < 32" "m < 8" for i m
  proof -
    have "bit (set_bit_step (?n, b) buf ! i) m \<longleftrightarrow>
       bit (buf ! i) m \<or> b \<and> i = ?n div 8 \<and> m = 7 - ?n mod 8"
      using im l nd by (auto simp: set_bit_step_def nth_list_update bit_or_iff bit_push_bit_iff bit_1_iff simp del: push_bit_of_1)
    also have "\<dots> \<longleftrightarrow> bit (buf ! i) m \<or> b \<and> 8 * i + (7 - m) = ?n" using pos [OF im(2), of i] by blast
    also have "\<dots> \<longleftrightarrow> 8 * i + (7 - m) < Suc ?n \<and> (bits @ [b]) ! (8 * i + (7 - m))"
      using IH [OF im] by (auto simp: nth_append less_Suc_eq)
    finally show ?thesis .
  qed
  then show ?case unfolding step using l by (auto simp: set_bit_step_def)
qed

lemma from_bit_iter_bits:
  assumes "length bits = 256"
  shows "\<exists>h. from_bit_iter bits = Inr h \<and> iter_bits h = bits"
proof -
  define buf where "buf = fold set_bit_step (List.enumerate 0 bits) (replicate 32 0)"
  have l: "length buf = 32" using set_bit_fold [of bits] assms by (simp add: buf_def)
  have b: "bit (buf ! i) m \<longleftrightarrow> bits ! (8 * i + (7 - m))" if "i < 32" "m < 8" for i m
    using set_bit_fold [of bits] assms that by (auto simp: buf_def)
  have "from_bit_iter bits = Inr (of_bytes buf)"
    using assms by (simp add: from_bit_iter_def buf_def LENGTH_IN_BITS_def LENGTH_BYTES_def)
  moreover have "iter_bits (of_bytes buf) = bits"
  proof (rule nth_equalityI)
    fix i assume "i < length (iter_bits (of_bytes buf))"
    then have i: "i < 256" by simp
    have e: "(255 - i) div 8 = 31 - i div 8" "(255 - i) mod 8 = 7 - i mod 8" "i div 8 < 32"
      "7 - (7 - i mod 8) = i mod 8"
    proof -
      have k: "7 - i mod 8 < 8" by simp
      show "(255 - i) div 8 = 31 - i div 8" "(255 - i) mod 8 = 7 - i mod 8"
        unfolding bit_index_split [OF i] using div_mod_8 [OF k] by (simp_all only:)
    qed (use i in simp_all)
    have "255 - i < 256" "31 - i div 8 < 32" "31 - (31 - i div 8) = i div 8" using e(3) by linarith+
    then show "iter_bits (of_bytes buf) ! i = bits ! i"
      using i l e b [of "i div 8" "7 - i mod 8"] less_Suc_eq_le [of "7 - i mod 8" 7]
        bit_of_bytes [of "255 - i" buf] by (simp add: iter_bits_nth rev_nth)
  qed (simp add: assms)
  ultimately show ?thesis by blast
qed

lemma common_prefix_bits:
  fixes h other
  defines "n \<equiv> common_prefix_bits_len h other"
  shows "n \<le> 256" and "i < n \<Longrightarrow> iter_bits h ! i = iter_bits other ! i"
    and "n < 256 \<Longrightarrow> iter_bits h ! n \<noteq> iter_bits other ! n"
proof -
  let ?z = "zip (iter_bits h) (iter_bits other)"
  have n: "n = length (takeWhile (\<lambda>(x, y). x = y) ?z)" by (simp add: n_def common_prefix_bits_len_def)
  have lz: "length ?z = 256" by simp
  show le: "n \<le> 256" using length_takeWhile_le [of "\<lambda>(x, y). x = y" ?z] lz n by simp
  show "iter_bits h ! i = iter_bits other ! i" if "i < n"
  proof -
    have "takeWhile (\<lambda>(x, y). x = y) ?z ! i = ?z ! i" using that n by (simp add: takeWhile_nth)
    moreover have "(\<lambda>(x, y). x = y) (takeWhile (\<lambda>(x, y). x = y) ?z ! i)"
      using that n by (metis nth_mem set_takeWhileD)
    ultimately show ?thesis using that le by simp
  qed
  show "iter_bits h ! n \<noteq> iter_bits other ! n" if "n < 256"
    using nth_length_takeWhile [of "\<lambda>(x, y). x = y" ?z] that lz n by simp
qed

lemma common_prefix_full: "common_prefix_bits_len h other = 256 \<longleftrightarrow> h = other"
proof
  assume "common_prefix_bits_len h other = 256"
  then have "iter_bits h ! i = iter_bits other ! i" if "i < 256" for i
    using common_prefix_bits(2) [of i h other] that by simp
  then have "iter_bits h = iter_bits other" by (intro nth_equalityI) simp_all
  then show "h = other" by (simp only: iter_bits_inj)
next
  assume "h = other"
  then show "common_prefix_bits_len h other = 256"
    using common_prefix_bits(1) [of h other] common_prefix_bits(3) [of h other] by force
qed

lemma create_literal_hash_ok:
  "length word \<le> 32 \<Longrightarrow> create_literal_hash word = Inr (of_bytes (map of_char word @ replicate (32 - length word) 0))"
  by (simp add: create_literal_hash_def from_slice_def assert_that_def LENGTH_BYTES_def)

lemma get_nibble_ok:
  "index < 64 \<Longrightarrow> \<exists>n. (get_nibble h index :: ('e, nibble) result) = Inr (Nibble n) \<and> n < 16 \<and>
     (\<forall>m<4. bit n m \<longleftrightarrow> iter_bits h ! (4 * index + (3 - m)))"
proof -
  assume i: "index < 64"
  define b where "b = as_bytes h ! (index div 2)"
  define n where "n = (if index mod 2 = 0 then drop_bit 4 b else b AND 0x0F)"
  have d: "index div 2 < 32" using i by simp
  have f: "(0x0F :: u8) = mask 4" by (simp add: mask_eq_exp_minus_1)
  have bn: "bit n m \<longleftrightarrow> m < 4 \<and> bit b ((if index mod 2 = 0 then 4 else 0) + m)" for m
    using bit_imp_le_length [of b "4 + m"] by (auto simp: n_def f bit_and_iff bit_mask_iff bit_drop_bit_eq)
  then have "take_bit 4 n = n" by (intro bit_word_eqI) (auto simp: bit_take_bit_iff)
  then have "take_bit 4 (unat n) = unat n" by (metis unsigned_take_bit_eq)
  then have lt: "n < 16" using take_bit_nat_less_exp [of 4 "unat n"] by (simp add: word_less_nat_alt)
  have "bit n m \<longleftrightarrow> iter_bits h ! (4 * index + (3 - m))" if m: "m < 4" for m
  proof -
    define k where "k = (if index mod 2 = 0 then 4 else 0) + m"
    have k8: "k < 8" using m by (simp add: k_def)
    have "8 * (31 - index div 2) + k = 255 - (4 * index + (3 - m))"
    proof -
      define q where "q = index div 2"
      have "index = 2 * q \<or> index = 2 * q + 1" unfolding q_def by linarith
      then show ?thesis using m d unfolding k_def by auto
    qed
    moreover have "4 * index + (3 - m) < 256" using i m by linarith
    ultimately show ?thesis using bn [of m] m d k8
      by (simp add: iter_bits_nth b_def bit_as_bytes flip: k_def)
  qed
  moreover have "(get_nibble h index :: ('e, nibble) result) = Inr (Nibble n)"
    using d lt unfolding get_nibble_def nibble_from_def b_def [symmetric] n_def [symmetric]
    by (simp add: assert_that_def LENGTH_BYTES_def)
  ultimately show ?thesis using lt by blast
qed

text \<open>The placeholder's value, precomputed for evaluation.\<close>

lemma ACCUMULATOR_PLACEHOLDER_HASH_value [code]:
  "ACCUMULATOR_PLACEHOLDER_HASH = 0x414343554d554c41544f525f504c414345484f4c4445525f4841534800000000"
  by code_simp

section \<open>Properties\<close>

text \<open>
  C33: Hash values round-trip through both of their representations: \<open>from_slice\<close> accepts
  exactly the slices of 32 bytes, \<open>from_bit_iter\<close> exactly the iterators of 256 bits, and what
  they return has these bytes, respectively these bits, again.
\<close>

theorem hash_value_roundtrip:
  "from_slice (as_bytes h) = Inr h \<and> from_bit_iter (iter_bits h) = Inr h \<and>
   (is_ok (from_slice bs) \<longleftrightarrow> length bs = 32) \<and> (is_ok (from_bit_iter bits) \<longleftrightarrow> length bits = 256) \<and>
   (from_slice bs = Inr h' \<longrightarrow> as_bytes h' = bs) \<and> (from_bit_iter bits = Inr h' \<longrightarrow> iter_bits h' = bits)"
proof -
  have "is_ok (from_slice bs) \<longleftrightarrow> length bs = 32"
    by (auto simp: from_slice_def is_ok_def ensure_def LENGTH_BYTES_def)
  moreover have "is_ok (from_bit_iter bits) \<longleftrightarrow> length bits = 256"
    by (auto simp: from_bit_iter_def is_ok_def ensure_def LENGTH_BYTES_def LENGTH_IN_BITS_def Let_def)
  moreover from calculation(1) have "from_slice bs = Inr h' \<longrightarrow> as_bytes h' = bs"
    by (auto simp: is_ok_def from_slice_def as_bytes_of_bytes LENGTH_BYTES_def)
  moreover from calculation(2) have "from_bit_iter bits = Inr h' \<longrightarrow> iter_bits h' = bits"
    using from_bit_iter_bits [of bits] by (auto simp: is_ok_iff)
  moreover have "from_slice (as_bytes h) = Inr h"
    by (simp add: from_slice_def LENGTH_BYTES_def of_bytes_as_bytes)
  moreover have "from_bit_iter (iter_bits h) = Inr h"
    using from_bit_iter_bits [of "iter_bits h"] by (auto simp: iter_bits_inj)
  ultimately show ?thesis by blast
qed

theorem hash_value_roundtrip_witness:
  "as_bytes (of_bytes (replicate 31 0 @ [7])) = replicate 31 0 @ [7] \<and>
   (\<exists>h. from_slice (replicate 31 0 @ [7]) = Inr h \<and> as_bytes h = replicate 31 0 @ [7])"
proof -
  have f: "from_slice (replicate 31 0 @ [7]) = Inr (of_bytes (replicate 31 0 @ [7]))"
    by (simp add: from_slice_def LENGTH_BYTES_def)
  with hash_value_roundtrip [of 0 "replicate 31 0 @ [7]" "[]" "of_bytes (replicate 31 0 @ [7])"]
  have "as_bytes (of_bytes (replicate 31 0 @ [7])) = replicate 31 0 @ [7]" by blast
  with f show ?thesis by blast
qed



end
