(* ===== verification/Accumulator.thy ===== *)
theory Accumulator
  imports Position_Iter Hash_Value
begin

text \<open>
  The in-memory Merkle accumulator (\<open>types/src/proof/accumulator/mod.rs\<close>). The type parameter
  \<open>H: CryptoHasher\<close> of the source appears as the function \<open>H\<close> that hashes the two children of
  an internal node, \<open>MerkleTreeInternalNode::<H>::new(left, right).hash()\<close>.
\<close>


section \<open>Internal nodes\<close>

record merkle_tree_internal_node =
  left_child_hash :: hash_value
  right_child_hash :: hash_value

definition internal_node_hash ::
    "(u8 list \<Rightarrow> hash_value) \<Rightarrow> u8 list \<Rightarrow> merkle_tree_internal_node \<Rightarrow> hash_value" where
  "internal_node_hash sha3 salt self =
     (let state = default_hasher_new sha3 salt;
          state = hasher_update (as_bytes (left_child_hash self)) state;
          state = hasher_update (as_bytes (right_child_hash self)) state
      in hasher_finish sha3 state)"

type_synonym node_hasher = "hash_value \<Rightarrow> hash_value \<Rightarrow> hash_value"

section \<open>Operations\<close>

record in_memory_accumulator =
  frozen_subtree_roots :: "hash_value list"
  num_leaves :: leaf_count
  root_hash :: hash_value

text \<open>The \<open>while bitmap > 0\<close> loop; \<open>iter\<close> is what is left of the reversed iterator.\<close>

function compute_root_loop ::
    "node_hasher \<Rightarrow> u64 \<Rightarrow> hash_value \<Rightarrow> hash_value list \<Rightarrow> ('e, hash_value) result" where
  "compute_root_loop H bitmap current_hash iter =
     (if bitmap > 0 then
        (if bitmap AND 1 \<noteq> 0 then
           (case iter of
              [] \<Rightarrow> Inl (Panic ''This frozen subtree should exist.'')
            | r # rest \<Rightarrow> compute_root_loop H (shr bitmap 1) (H r current_hash) rest)
         else compute_root_loop H (shr bitmap 1) (H current_hash ACCUMULATOR_PLACEHOLDER_HASH) iter)
      else Inr current_hash)"
  by pat_completeness auto
termination
  by (relation "measure (\<lambda>(H, bitmap, _). unat bitmap)") (simp_all add: shr_1_less)

definition compute_root_hash :: "node_hasher \<Rightarrow> hash_value list \<Rightarrow> leaf_count \<Rightarrow> ('e, hash_value) result" where
  "compute_root_hash H roots n =
     (case roots of
        [] \<Rightarrow> Inr ACCUMULATOR_PLACEHOLDER_HASH
      | [r] \<Rightarrow> Inr r
      | _ \<Rightarrow> compute_root_loop H (shr n (trailing_zeros n)) ACCUMULATOR_PLACEHOLDER_HASH (rev roots))"

definition accumulator_new :: "node_hasher \<Rightarrow> hash_value list \<Rightarrow> leaf_count \<Rightarrow> in_memory_accumulator anyhow" where
  "accumulator_new H roots n =
     rbind (ensure (length roots = count_ones n)
              ''The number of frozen subtrees does not match the number of leaves.'') (\<lambda>_.
     rbind (compute_root_hash H roots n) (\<lambda>root.
     Inr \<lparr>frozen_subtree_roots = roots, num_leaves = n, root_hash = root\<rparr>))"

text \<open>The \<open>for _i in 0..num_trailing_ones\<close> loop of \<open>append_one\<close>.\<close>

primrec merge_last :: "node_hasher \<Rightarrow> nat \<Rightarrow> hash_value list \<Rightarrow> ('e, hash_value list) result" where
  "merge_last H 0 roots = Inr roots"
| "merge_last H (Suc i) roots =
     rbind (expect (vec_pop roots) ''Invalid accumulator.'') (\<lambda>(right_hash, roots).
     rbind (expect (vec_pop roots) ''Invalid accumulator.'') (\<lambda>(left_hash, roots).
     merge_last H i (roots @ [H left_hash right_hash])))"

definition append_one ::
    "node_hasher \<Rightarrow> hash_value list \<Rightarrow> leaf_count \<Rightarrow> hash_value \<Rightarrow> ('e, hash_value list) result" where
  "append_one H roots num_existing_leaves leaf =
     (let num_trailing_ones = trailing_zeros (NOT num_existing_leaves)
      in merge_last H num_trailing_ones (roots @ [leaf]))"

primrec append_loop ::
    "node_hasher \<Rightarrow> hash_value list \<Rightarrow> hash_value list \<Rightarrow> leaf_count
       \<Rightarrow> ('e, hash_value list \<times> leaf_count) result" where
  "append_loop H [] roots n = Inr (roots, n)"
| "append_loop H (leaf # leaves) roots n =
     rbind (append_one H roots n leaf) (\<lambda>roots. append_loop H leaves roots (n + 1))"

definition append_leaves ::
    "node_hasher \<Rightarrow> in_memory_accumulator \<Rightarrow> hash_value list \<Rightarrow> ('e, in_memory_accumulator) result" where
  "append_leaves H self leaves =
     rbind (append_loop H leaves (frozen_subtree_roots self) (num_leaves self)) (\<lambda>(roots, n).
     rexpect (accumulator_new H roots n)
       ''Appending leaves to a valid accumulator should create another valid accumulator.'')"

definition accumulator_default :: "node_hasher \<Rightarrow> ('e, in_memory_accumulator) result" where
  "accumulator_default H =
     rexpect (accumulator_new H [] 0) ''Constructing empty accumulator should work.''"

definition from_leaves :: "node_hasher \<Rightarrow> hash_value list \<Rightarrow> ('e, in_memory_accumulator) result" where
  "from_leaves H leaves = rbind (accumulator_default H) (\<lambda>acc. append_leaves H acc leaves)"

text \<open>
  The two loops of \<open>append_subtrees\<close>: the inner one carries a new subtree over the frozen
  subtrees of the same size, the outer one takes new subtrees as large as the rightmost frozen
  one while enough leaves remain.
\<close>

function carry_loop ::
    "node_hasher \<Rightarrow> leaf_count \<Rightarrow> u64 \<Rightarrow> hash_value \<Rightarrow> hash_value list
       \<Rightarrow> ('e, hash_value \<times> hash_value list \<times> u64) result" where
  "carry_loop H current_num_leaves msk current_hash roots =
     (if current_num_leaves AND msk \<noteq> 0 then
        rbind (expect (vec_pop roots) ''This frozen subtree must exist.'') (\<lambda>(left_hash, roots).
        carry_loop H current_num_leaves (shl msk 1) (H left_hash current_hash) roots)
      else Inr (current_hash, roots, msk))"
  by pat_completeness auto
termination
  by (relation "measure (\<lambda>(H, n, msk, _). if msk = 0 then 0 else 64 - trailing_zeros msk)")
    (auto simp: trailing_zeros_props(1) dest: shl_1_trailing_zeros intro!: diff_less_mono2)

fun subtree_loop ::
    "node_hasher \<Rightarrow> leaf_count \<Rightarrow> leaf_count \<Rightarrow> u64 \<Rightarrow> hash_value list \<Rightarrow> hash_value list
       \<Rightarrow> (leaf_count \<times> leaf_count \<times> hash_value list \<times> hash_value list) anyhow" where
  "subtree_loop H current_num_leaves remaining_new_leaves rightmost_size iter roots =
     (if remaining_new_leaves \<ge> rightmost_size then
        (case iter of
           [] \<Rightarrow> Inl (Err ''Too few subtrees.'')
         | subtree # iter' \<Rightarrow>
             rbind (carry_loop H current_num_leaves rightmost_size subtree roots) (\<lambda>(current_hash, roots, msk).
             subtree_loop H (current_num_leaves + rightmost_size) (remaining_new_leaves - rightmost_size) msk iter'
               (roots @ [current_hash])))
      else Inr (current_num_leaves, remaining_new_leaves, iter, roots))"

definition append_subtrees ::
    "node_hasher \<Rightarrow> in_memory_accumulator \<Rightarrow> hash_value list \<Rightarrow> leaf_count \<Rightarrow> in_memory_accumulator anyhow" where
  "append_subtrees H self subtrees num_new_leaves =
     rbind (ensure (num_new_leaves \<le> MAX_ACCUMULATOR_LEAVES - num_leaves self) ''Too many new leaves.'') (\<lambda>_.
     if num_leaves self = 0 then accumulator_new H subtrees num_new_leaves
     else
       rbind (subtree_loop H (num_leaves self) num_new_leaves (shl 1 (trailing_zeros (num_leaves self)))
                subtrees (frozen_subtree_roots self))
         (\<lambda>(current_num_leaves, remaining_new_leaves, iter, roots).
       accumulator_new H (roots @ iter) (current_num_leaves + remaining_new_leaves)))"

definition accumulator_version :: "in_memory_accumulator \<Rightarrow> u64" where
  "accumulator_version self = (if num_leaves self = 0 then 0 else num_leaves self - 1)"


declare compute_root_loop.simps [simp del] carry_loop.simps [simp del] subtree_loop.simps [simp del]

end
