(* ===== verification/Accumulator_Tree.thy ===== *)
theory Accumulator_Tree
  imports Accumulator
begin

text \<open>
  The Merkle tree over a list of leaves, as a recursive function of a level and an index, and the
  proof that the in-memory accumulator maintains it: the frozen subtree roots and the root hash
  after any sequence of appends are those of the tree over all the leaves.
\<close>

declare upt_rec_numeral [simp del]

section \<open>The tree over a list of leaves\<close>

fun thash :: "node_hasher \<Rightarrow> hash_value list \<Rightarrow> nat \<Rightarrow> nat \<Rightarrow> hash_value" where
  "thash H xs 0 p = (if p < length xs then xs ! p else ACCUMULATOR_PLACEHOLDER_HASH)"
| "thash H xs (Suc l) p =
     (if p * 2 ^ Suc l < length xs then H (thash H xs l (2 * p)) (thash H xs l (2 * p + 1))
      else ACCUMULATOR_PLACEHOLDER_HASH)"

definition tree_root :: "node_hasher \<Rightarrow> hash_value list \<Rightarrow> hash_value" where
  "tree_root H xs = thash H xs (root_level (length xs)) 0"

definition tree_frozen :: "node_hasher \<Rightarrow> hash_value list \<Rightarrow> hash_value list" where
  "tree_frozen H xs = map (\<lambda>(l, p). thash H xs l p) (frozen_nodes (length xs))"

lemma thash_placeholder: "length xs \<le> p * 2 ^ l \<Longrightarrow> thash H xs l p = ACCUMULATOR_PLACEHOLDER_HASH"
  by (cases l) auto

lemma thash_node: "p * 2 ^ Suc l < length xs \<Longrightarrow> thash H xs (Suc l) p = H (thash H xs l (2 * p)) (thash H xs l (2 * p + 1))"
  by simp

lemma thash_append:
  "(p + 1) * 2 ^ l \<le> length xs \<Longrightarrow> thash H (xs @ ys) l p = thash H xs l p"
proof (induction l arbitrary: p)
  case 0
  then show ?case by (simp add: nth_append)
next
  case (Suc l)
  have "(2 * p + 1) * 2 ^ l \<le> (p + 1) * 2 ^ Suc l" "(2 * p + 1 + 1) * 2 ^ l = (p + 1) * 2 ^ Suc l"
    by (simp_all add: algebra_simps)
  moreover have "p * 2 ^ Suc l < length xs"
    by (rule less_le_trans [OF _ Suc.prems]) simp
  ultimately show ?case
    using Suc.IH [of "2 * p"] Suc.IH [of "2 * p + 1"] Suc.prems by (simp del: power_Suc)
qed

declare thash.simps [simp del]

section \<open>The root hash\<close>

lemma shr_of_nat: "k < 64 \<Longrightarrow> n < 2 ^ 64 \<Longrightarrow> shr (of_nat n) k = of_nat (n div 2 ^ k)"
proof -
  assume k: "k < 64" and n: "n < 2 ^ 64"
  have "unat (shr (of_nat n) k) = n div 2 ^ k"
    using k unat_of_nat_u64 [OF n] by (simp only: shr_def unat_drop_bit_eq) (simp add: drop_bit_eq_div)
  moreover have "unat (of_nat (n div 2 ^ k) :: u64) = n div 2 ^ k"
    by (rule unat_of_nat_u64, rule le_less_trans [OF div_le_dividend n])
  ultimately show ?thesis by (metis word_unat_eq_iff)
qed

lemma and_1_bit_u64: "(v :: u64) AND 1 \<noteq> 0 \<longleftrightarrow> bit v 0"
proof
  assume "v AND 1 \<noteq> 0"
  then obtain m where "bit (v AND 1) m" by (auto simp: bit_eq_iff)
  then show "bit v 0" by (auto simp only: bit_and_iff bit_1_iff)
next
  assume "bit v 0"
  then have "bit (v AND 1) 0" by (simp only: bit_and_iff bit_1_iff)
  then show "v AND 1 \<noteq> 0" by (auto simp del: bit_0)
qed

lemma filter_upt_Cons:
  "k < m \<Longrightarrow> filter P [k..<m] = (if P k then k # filter P [Suc k..<m] else filter P [Suc k..<m])"
  by (simp add: upt_conv_Cons)

lemma compute_root_loop_eq:
  assumes n: "length xs = n" "n < 2 ^ 64" "0 < n" and k: "k \<le> Suc (nlog2 n)"
    and nz: "n mod 2 ^ Suc k \<noteq> 0 \<or> k = Suc (nlog2 n)"
  shows "compute_root_loop H (of_nat (n div 2 ^ k)) (thash H xs k (n div 2 ^ k))
      (map (\<lambda>l. thash H xs l (n div 2 ^ l - 1)) (filter (bit n) [k..<64]))
    = (Inr (thash H xs (Suc (nlog2 n)) 0) :: ('e, _) result)"
  using k nz
proof (induction k rule: inc_induct)
  case base
  have "n div 2 ^ Suc (nlog2 n) = 0" using nlog2_bounds [OF n(3)] by simp
  then show ?case by (subst compute_root_loop.simps) simp
next
  case (step k)
  have kn: "k \<le> nlog2 n" using step.hyps by simp
  have k64: "k < 64" using kn nlog2_u64 [of "of_nat n"] unat_of_nat_u64 [OF n(2)] n(3) by simp
  have "Suc 0 \<le> n div 2 ^ k"
  proof -
    have "(2::nat) ^ k \<le> 2 ^ nlog2 n" using kn by (rule power_increasing) simp
    also have "\<dots> \<le> n" using nlog2_bounds [OF n(3)] by simp
    finally show ?thesis by (simp add: Suc_le_eq div_greater_zero_iff)
  qed
  then have pos: "0 < n div 2 ^ k" by simp
  have lt: "n div 2 ^ k < 2 ^ 64" by (rule le_less_trans [OF div_le_dividend n(2)])
  have bpos: "0 < (of_nat (n div 2 ^ k) :: u64)"
    using pos unat_of_nat_u64 [OF lt] by (simp only: word_less_nat_alt) simp
  have d: "n div 2 ^ Suc k = n div 2 ^ k div 2" by (simp only: power_Suc2 div_mult2_eq)
  have sh: "shr (of_nat (n div 2 ^ k)) (Suc 0) = of_nat (n div 2 ^ Suc k)"
    using shr_of_nat [of 1, OF _ lt] by (simp add: d del: power_Suc)
  have odd: "(of_nat (n div 2 ^ k) :: u64) AND 1 \<noteq> 0 \<longleftrightarrow> bit n k"
    by (simp only: and_1_bit_u64 bit_u64_of_nat) (simp add: bit_iff_odd)
  have nz: "n mod 2 ^ Suc k \<noteq> 0" using step.prems step.hyps by simp
  have "n div 2 ^ Suc k * 2 ^ Suc k + n mod 2 ^ Suc k = n" by (rule div_mult_mod_eq)
  then have q: "n div 2 ^ Suc k * 2 ^ Suc k < length xs" using nz n(1) by linarith
  have nz': "n mod 2 ^ Suc (Suc k) \<noteq> 0"
  proof
    assume "n mod 2 ^ Suc (Suc k) = 0"
    then have "2 ^ Suc (Suc k) dvd n" by (simp only: dvd_eq_mod_eq_0)
    then have "2 ^ Suc k dvd n" by (rule power_le_dvd) simp
    with nz show False by (simp only: dvd_eq_mod_eq_0)
  qed
  note IH = step.IH [OF disjI1 [OF nz']]
  show ?case
  proof (cases "bit n k")
    case True
    then have "odd (n div 2 ^ k)" by (simp add: bit_iff_odd)
    then have e: "n div 2 ^ k = 2 * (n div 2 ^ Suc k) + 1" "n div 2 ^ k - 1 = 2 * (n div 2 ^ Suc k)"
      unfolding d by (simp_all add: odd_two_times_div_two_succ)
    have "H (thash H xs k (n div 2 ^ k - 1)) (thash H xs k (n div 2 ^ k)) = thash H xs (Suc k) (n div 2 ^ Suc k)"
      unfolding e(2) using thash_node [OF q, of H] by (simp only: e(1))
    then show ?thesis using IH True k64 bpos odd
      by (subst compute_root_loop.simps) (simp add: filter_upt_Cons sh del: power_Suc)
  next
    case False
    then have "even (n div 2 ^ k)" by (simp add: bit_iff_odd)
    then have e: "n div 2 ^ k = 2 * (n div 2 ^ Suc k)" unfolding d by simp
    have "length xs \<le> (2 * (n div 2 ^ Suc k) + 1) * 2 ^ k"
    proof -
      have "n < (n div 2 ^ k + 1) * 2 ^ k" by (simp add: dividend_less_div_times)
      then show ?thesis using e n(1) by simp
    qed
    then have "H (thash H xs k (n div 2 ^ k)) ACCUMULATOR_PLACEHOLDER_HASH = thash H xs (Suc k) (n div 2 ^ Suc k)"
      using thash_node [OF q, of H] by (simp only: e thash_placeholder)
    then show ?thesis using IH False k64 bpos odd
      by (subst compute_root_loop.simps) (simp add: filter_upt_Cons sh del: power_Suc)
  qed
qed


lemma tree_frozen_alt:
  "tree_frozen H xs = map (\<lambda>l. thash H xs l (length xs div 2 ^ l - 1)) (filter (bit (length xs)) (rev [0..<64]))"
  by (simp add: tree_frozen_def frozen_nodes_def comp_def)

lemma length_tree_frozen: "length xs < 2 ^ 64 \<Longrightarrow> length (tree_frozen H xs) = count_ones (of_nat (length xs))"
proof -
  assume "length xs < 2 ^ 64"
  have "filter (bit (of_nat (length xs) :: u64)) [0..<64] = filter (bit (length xs)) [0..<64]"
    by (rule filter_cong) (auto simp: bit_u64_of_nat)
  then show ?thesis by (simp add: tree_frozen_alt count_ones_def flip: rev_filter)
qed

lemma single_bit:
  assumes "(n::nat) < 2 ^ 64" "filter (bit n) (rev [0..<64]) = [L]"
  shows "n = 2 ^ L"
proof (rule bit_eqI)
  fix i
  have "set (filter (bit n) (rev [0..<64])) = {L}" using assms(2) by simp
  then have "{i. i < 64 \<and> bit n i} = {L}" by auto
  moreover have "bit n i \<Longrightarrow> i < 64" using bit_lt_pow [OF assms(1), of i] by (cases "i < 64") auto
  ultimately show "bit n i \<longleftrightarrow> bit (2 ^ L :: nat) i" by (auto simp: bit_exp_iff)
qed

lemma compute_root_hash_tree:
  assumes "length xs < 2 ^ 64"
  shows "compute_root_hash H (tree_frozen H xs) (of_nat (length xs)) = (Inr (tree_root H xs) :: ('e, _) result)"
proof -
  let ?n = "length xs"
  let ?f = "\<lambda>l. thash H xs l (?n div 2 ^ l - 1)"
  define ls where "ls = filter (bit ?n) (rev [0..<64])"
  have tf: "tree_frozen H xs = map ?f ls" unfolding ls_def by (rule tree_frozen_alt)
  have rls: "rev ls = filter (bit ?n) [0..<64]" by (simp add: ls_def rev_filter del: upt_rec_numeral)
  have ls: "i \<in> set ls \<longleftrightarrow> i < 64 \<and> bit ?n i" for i by (auto simp: ls_def simp del: upt_rec_numeral)
  have dls: "distinct ls" by (simp add: ls_def del: upt_rec_numeral)
  consider "ls = []" | L where "ls = [L]" | a b r where "ls = a # b # r"
    by (metis list.exhaust)
  then show ?thesis
  proof cases
    case 1
    have "?n = 0"
    proof (rule ccontr)
      assume "?n \<noteq> 0"
      then have "0 < ?n" by simp
      then have "bit ?n (nlog2 ?n)" "nlog2 ?n < 64"
        using bit_nlog2 nlog2_u64 [of "of_nat ?n"] unat_of_nat_u64 [OF assms] by simp_all
      then have "nlog2 ?n \<in> set ls" by (simp add: ls)
      with 1 show False by simp
    qed
    then have "xs = []" by simp
    moreover have "tree_frozen H [] = []" by (simp add: tree_frozen_alt)
    ultimately show ?thesis by (simp add: compute_root_hash_def tree_root_def root_level_def thash.simps)
  next
    case (2 L)
    then have n: "?n = 2 ^ L" unfolding ls_def by (rule single_bit [OF assms])
    have "root_level ?n = L" unfolding n by (rule root_level_unique) auto
    with 2 n show ?thesis by (simp add: tf compute_root_hash_def tree_root_def)
  next
    case (3 a b r)
    have "a \<in> set ls" using 3 by simp
    then have n0: "0 < ?n" by (cases "?n = 0") (simp_all add: ls)
    have unz: "(of_nat ?n :: u64) \<noteq> 0" using unat_of_nat_u64 [OF assms] n0 by (metis less_not_refl unat_0)
    define t where "t = trailing_zeros (of_nat ?n)"
    have t: "t < 64" "bit ?n t" and below: "\<And>i. i < t \<Longrightarrow> \<not> bit ?n i"
      using trailing_zeros_props [OF unz] by (auto simp: t_def bit_u64_of_nat)
    have dv: "2 ^ t dvd ?n" using ntz_dvd(1) [OF n0 assms] by (simp add: t_def ntz_def)
    have tn: "t \<le> nlog2 ?n" using t(2) by (rule bit_le_nlog2)
    have "?n mod 2 ^ Suc t \<noteq> 0" using t(2) by (simp only: mod_Suc_bit) simp
    moreover have "thash H xs t (?n div 2 ^ t) = ACCUMULATOR_PLACEHOLDER_HASH"
      using dv by (intro thash_placeholder) simp
    moreover have "filter (bit ?n) [t..<64] = filter (bit ?n) [0..<64]"
    proof -
      have "[0..<64] = [0..<t] @ [t..<64]" using t(1) by (intro upt_split) simp
      then have "filter (bit ?n) [0..<64] = filter (bit ?n) [0..<t] @ filter (bit ?n) [t..<64]"
        by (simp only: filter_append)
      moreover have "filter (bit ?n) [0..<t] = []" using below by simp
      ultimately show ?thesis by (simp only: append_Nil)
    qed
    moreover have "shr (of_nat ?n) t = of_nat (?n div 2 ^ t)" using t(1) assms by (rule shr_of_nat)
    ultimately have "compute_root_loop H (shr (of_nat ?n) t) ACCUMULATOR_PLACEHOLDER_HASH
        (rev (map ?f ls)) = (Inr (thash H xs (Suc (nlog2 ?n)) 0) :: ('e, _) result)"
      using compute_root_loop_eq [OF refl assms n0, of t H] tn by (simp add: rev_map rls del: upt_rec_numeral)
    moreover have "root_level ?n = Suc (nlog2 ?n)"
    proof (rule root_level_unique)
      show "?n \<le> 2 ^ Suc (nlog2 ?n)" using nlog2_bounds [OF n0] by simp
      have "2 ^ nlog2 ?n \<noteq> ?n"
      proof
        assume e: "2 ^ nlog2 ?n = ?n"
        have "a \<in> set ls" "b \<in> set ls" using 3 by simp_all
        then have "bit ?n a" "bit ?n b" by (simp_all add: ls)
        moreover define L where "L = nlog2 ?n"
        with e have "?n = 2 ^ L" by simp
        ultimately have "a = L" "b = L" by (simp_all add: bit_exp_iff)
        with dls show False using 3 by simp
      qed
      with nlog2_bounds [OF n0] show "Suc (nlog2 ?n) = 0 \<or> 2 ^ (Suc (nlog2 ?n) - 1) < ?n" by simp
    qed
    ultimately show ?thesis using 3
      by (simp add: tf compute_root_hash_def tree_root_def flip: t_def)
  qed
qed


lemma accumulator_new_tree:
  assumes "length xs < 2 ^ 64"
  shows "accumulator_new H (tree_frozen H xs) (of_nat (length xs)) =
    Inr \<lparr>frozen_subtree_roots = tree_frozen H xs, num_leaves = of_nat (length xs), root_hash = tree_root H xs\<rparr>"
  using assms by (simp add: accumulator_new_def length_tree_frozen compute_root_hash_tree)

section \<open>Appending one leaf\<close>

text \<open>The hashes of the frozen subtrees of level at least \<open>k\<close> in a tree of \<open>n\<close> leaves.\<close>

definition frozen_from :: "node_hasher \<Rightarrow> hash_value list \<Rightarrow> nat \<Rightarrow> nat \<Rightarrow> hash_value list" where
  "frozen_from H xs n k = map (\<lambda>l. thash H xs l (n div 2 ^ l - 1)) (filter (bit n) (rev [k..<64]))"

lemma frozen_from_Suc:
  assumes "k < 64"
  shows "frozen_from H xs n k =
    (if bit n k then frozen_from H xs n (Suc k) @ [thash H xs k (n div 2 ^ k - 1)] else frozen_from H xs n (Suc k))"
  using assms by (simp add: frozen_from_def upt_conv_Cons)

lemma tree_frozen_from: "tree_frozen H xs = frozen_from H xs (length xs) 0"
  by (simp add: tree_frozen_alt frozen_from_def)

lemma frozen_node_bound: "bit n l \<Longrightarrow> (n div 2 ^ l - 1 + 1) * 2 ^ l \<le> (n::nat)"
proof -
  assume "bit n l"
  then have "0 < n div 2 ^ l" by (auto simp: bit_iff_odd intro: gr0I)
  then have "n div 2 ^ l - 1 + 1 = n div 2 ^ l" by simp
  then show ?thesis by simp
qed

lemma frozen_from_append: "n \<le> length xs \<Longrightarrow> frozen_from H (xs @ ys) n k = frozen_from H xs n k"
  unfolding frozen_from_def
  by (rule map_cong [OF refl], rule thash_append)
    (use frozen_node_bound le_trans in fastforce)

lemma merge_last_frozen:
  assumes i: "j \<le> 63" "i \<le> j" and ones: "\<And>k. i \<le> k \<Longrightarrow> k < j \<Longrightarrow> bit n k"
    and n: "n < length xs"
  shows "merge_last H (j - i) (frozen_from H xs n i @ [thash H xs i (n div 2 ^ i)])
    = (Inr (frozen_from H xs n j @ [thash H xs j (n div 2 ^ j)]) :: ('e, _) result)"
  using i(2) ones
proof (induction i rule: inc_induct)
  case base
  show ?case by simp
next
  case (step i)
  from step have b: "bit n i" by simp
  have i64: "i < 64" using step i(1) by simp
  have d: "n div 2 ^ Suc i = n div 2 ^ i div 2" by (simp only: power_Suc2 div_mult2_eq)
  from b have "odd (n div 2 ^ i)" by (simp add: bit_iff_odd)
  then have e: "n div 2 ^ i = 2 * (n div 2 ^ Suc i) + 1" "n div 2 ^ i - 1 = 2 * (n div 2 ^ Suc i)"
    unfolding d by (simp_all add: odd_two_times_div_two_succ)
  have "n div 2 ^ Suc i * 2 ^ Suc i \<le> n" by (rule div_times_less_eq_dividend)
  then have "n div 2 ^ Suc i * 2 ^ Suc i < length xs" using n by linarith
  from thash_node [OF this, of H]
  have h: "H (thash H xs i (n div 2 ^ i - 1)) (thash H xs i (n div 2 ^ i)) = thash H xs (Suc i) (n div 2 ^ Suc i)"
    unfolding e(2) by (simp only: e(1))
  have ji: "j - i = Suc (j - Suc i)" using step by simp
  show ?case
    unfolding ji frozen_from_Suc [OF i64] using b step.IH step.prems h
    by (simp add: append_assoc [symmetric] del: append_assoc power_Suc)
qed

lemma Suc_div_trailing:
  assumes "\<And>k. k < j \<Longrightarrow> bit (n::nat) k"
  shows "n mod 2 ^ j = 2 ^ j - 1"
proof -
  have "take_bit j n = mask j" by (rule bit_eqI) (auto simp: bit_take_bit_iff bit_mask_iff assms)
  then show ?thesis by (simp add: take_bit_eq_mod mask_eq_exp_minus_1)
qed

lemma trailing_ones:
  assumes "n < 2 ^ 64 - 1"
  defines "j \<equiv> trailing_zeros (NOT (of_nat n))"
  shows "j < 64" "\<not> bit n j" "\<And>k. k < j \<Longrightarrow> bit n k"
proof -
  have "NOT (of_nat n :: u64) \<noteq> 0"
  proof
    assume "NOT (of_nat n :: u64) = 0"
    then have "\<not> bit (NOT (of_nat n :: u64)) k" for k by simp
    then have "bit n k" if "k < 64" for k using that by (auto simp: bit_not_iff bit_u64_of_nat)
    then have "n mod 2 ^ 64 = 2 ^ 64 - 1" by (rule Suc_div_trailing)
    with assms(1) show False by simp
  qed
  from trailing_zeros_props [OF this] show "j < 64" "\<not> bit n j" "\<And>k. k < j \<Longrightarrow> bit n k"
    by (auto simp: j_def bit_not_iff bit_u64_of_nat)
qed

lemma add_carry:
  assumes j: "t \<le> j" "\<not> bit n j" and ones: "\<And>k. t \<le> k \<Longrightarrow> k < j \<Longrightarrow> bit n k"
    and zeros: "\<And>k. k < t \<Longrightarrow> \<not> bit n k"
  shows "j < l \<Longrightarrow> (n + 2 ^ t) div 2 ^ l = n div 2 ^ l"
    and "bit (n + 2 ^ t) l \<longleftrightarrow> (if l < j then False else if l = j then True else bit (n::nat) l)"
    and "(n + 2 ^ t) div 2 ^ j - 1 = n div 2 ^ j"
proof -
  have low: "n mod 2 ^ j = 2 ^ j - 2 ^ t"
  proof -
    have "take_bit j n = push_bit t (mask (j - t))"
    proof (rule bit_eqI)
      fix i
      show "bit (take_bit j n) i \<longleftrightarrow> bit (push_bit t (mask (j - t)) :: nat) i"
        using j(1) ones [of i] zeros [of i]
        by (cases "i < t") (auto simp: bit_take_bit_iff bit_push_bit_iff bit_mask_iff)
    qed
    moreover have "(2::nat) ^ j = 2 ^ (j - t) * 2 ^ t" using j(1) by (simp flip: power_add)
    ultimately show ?thesis
      by (simp add: take_bit_eq_mod push_bit_eq_mult mask_eq_exp_minus_1 diff_mult_distrib)
  qed
  have le: "(2::nat) ^ t \<le> 2 ^ j" using j(1) by (rule power_increasing) simp
  define q where "q = n div 2 ^ j"
  have nq: "n = q * 2 ^ j + (2 ^ j - 2 ^ t)" using low div_mult_mod_eq [of n "2 ^ j"] by (simp add: q_def)
  have eq: "even q" using j(2) by (simp add: q_def bit_iff_odd)
  have nt: "n + 2 ^ t = (q + 1) * 2 ^ j"
    using le by (subst nq) (simp only: add.assoc le_add_diff_inverse2 distrib_right mult_1)
  show hi: "(n + 2 ^ t) div 2 ^ l = n div 2 ^ l" if jl: "j < l" for l
  proof -
    obtain d where p2: "l - j = Suc d" using jl by (cases "l - j") auto
    have p: "(2::nat) ^ l = 2 ^ j * 2 ^ (l - j)" using jl by (simp flip: power_add)
    have "(n + 2 ^ t) div 2 ^ l = (q + 1) div 2 ^ (l - j)" unfolding nt p by (simp add: div_mult2_eq)
    also have "\<dots> = q div 2 ^ (l - j)"
    proof -
      have "(q + 1) div 2 = q div 2" using eq by simp
      then show ?thesis unfolding p2 by (simp only: power_Suc div_mult2_eq)
    qed
    also have "\<dots> = n div 2 ^ l" unfolding p div_mult2_eq q_def ..
    finally show ?thesis .
  qed
  show "bit (n + 2 ^ t) l \<longleftrightarrow> (if l < j then False else if l = j then True else bit n l)" for l
  proof (cases l j rule: linorder_cases)
    case less
    then have p: "(2::nat) ^ j = 2 ^ l * 2 ^ (j - l)" by (simp flip: power_add)
    have "(n + 2 ^ t) div 2 ^ l = (q + 1) * 2 ^ (j - l)" unfolding nt p by simp
    also have "even \<dots>" using less by simp
    finally show ?thesis using less by (simp add: bit_iff_odd)
  next
    case equal
    then have "(n + 2 ^ t) div 2 ^ l = q + 1" unfolding nt by simp
    with equal eq show ?thesis by (simp add: bit_iff_odd)
  next
    case greater
    with hi show ?thesis by (simp add: bit_iff_odd)
  qed
  show "(n + 2 ^ t) div 2 ^ j - 1 = n div 2 ^ j" unfolding nt by (simp add: q_def)
qed

lemma frozen_from_add:
  assumes j: "t \<le> j" "j < 64" "\<not> bit n j" and ones: "\<And>k. t \<le> k \<Longrightarrow> k < j \<Longrightarrow> bit n k"
    and zeros: "\<And>k. k < t \<Longrightarrow> \<not> bit n k"
  shows "frozen_from H xs (n + 2 ^ t) 0 = frozen_from H xs n j @ [thash H xs j (n div 2 ^ j)]"
proof -
  note hi = add_carry(1) [OF j(1,3) ones zeros] and bits = add_carry(2) [OF j(1,3) ones zeros]
    and at = add_carry(3) [OF j(1,3) ones zeros]
  have "filter (bit (n + 2 ^ t)) (rev [0..<64]) = filter (bit n) (rev [Suc j..<64]) @ [j]"
  proof -
    have "[0..<64] = [0..<j] @ j # [Suc j..<64]"
      using j(2) upt_split [of j 64] upt_conv_Cons [of j 64] by simp
    moreover have "filter (bit (n + 2 ^ t)) [0..<j] = []" using bits by simp
    moreover have "filter (bit (n + 2 ^ t)) [Suc j..<64] = filter (bit n) [Suc j..<64]"
      by (rule filter_cong) (auto simp: bits)
    ultimately show ?thesis using bits [of j] by (simp add: rev_filter [symmetric])
  qed
  then have "frozen_from H xs (n + 2 ^ t) 0
      = map (\<lambda>l. thash H xs l ((n + 2 ^ t) div 2 ^ l - 1)) (filter (bit n) (rev [Suc j..<64]))
        @ [thash H xs j ((n + 2 ^ t) div 2 ^ j - 1)]"
    by (simp add: frozen_from_def)
  moreover have "map (\<lambda>l. thash H xs l ((n + 2 ^ t) div 2 ^ l - 1)) (filter (bit n) (rev [Suc j..<64]))
      = frozen_from H xs n (Suc j)"
    unfolding frozen_from_def by (rule map_cong) (auto simp: hi)
  ultimately show ?thesis using j at by (simp add: frozen_from_Suc)
qed

lemma append_one_tree:
  assumes "length xs < 2 ^ 64 - 1"
  shows "append_one H (tree_frozen H xs) (of_nat (length xs)) x = (Inr (tree_frozen H (xs @ [x])) :: ('e, _) result)"
proof -
  define j where "j = trailing_zeros (NOT (of_nat (length xs)))"
  note j = trailing_ones [OF assms, folded j_def]
  have "thash H (xs @ [x]) 0 (length xs div 2 ^ 0) = x" by (simp add: thash.simps)
  then have "append_one H (tree_frozen H xs) (of_nat (length xs)) x =
      merge_last H (j - 0) (frozen_from H (xs @ [x]) (length xs) 0 @ [thash H (xs @ [x]) 0 (length xs div 2 ^ 0)])"
    by (simp add: append_one_def tree_frozen_from frozen_from_append Let_def flip: j_def)
  also have "\<dots> = Inr (frozen_from H (xs @ [x]) (length xs) j @ [thash H (xs @ [x]) j (length xs div 2 ^ j)])"
    by (rule merge_last_frozen) (use j in auto)
  also have "\<dots> = Inr (tree_frozen H (xs @ [x]))"
    using frozen_from_add [of 0 j "length xs" H "xs @ [x]"] j by (simp add: tree_frozen_from)
  finally show ?thesis .
qed


section \<open>Appending leaves\<close>

definition acc_of :: "node_hasher \<Rightarrow> hash_value list \<Rightarrow> in_memory_accumulator" where
  "acc_of H xs = \<lparr>frozen_subtree_roots = tree_frozen H xs, num_leaves = of_nat (length xs), root_hash = tree_root H xs\<rparr>"

lemma append_loop_tree:
  "length xs + length ys < 2 ^ 64 \<Longrightarrow>
   append_loop H ys (tree_frozen H xs) (of_nat (length xs)) =
     (Inr (tree_frozen H (xs @ ys), of_nat (length (xs @ ys))) :: ('e, _) result)"
proof (induction ys arbitrary: xs)
  case (Cons y ys)
  then have "append_one H (tree_frozen H xs) (of_nat (length xs)) y = (Inr (tree_frozen H (xs @ [y])) :: ('e, _) result)"
    by (intro append_one_tree) simp
  moreover have "of_nat (length xs) + 1 = (of_nat (length (xs @ [y])) :: u64)" by simp
  moreover have "append_loop H ys (tree_frozen H (xs @ [y])) (of_nat (length (xs @ [y]))) =
     (Inr (tree_frozen H ((xs @ [y]) @ ys), of_nat (length ((xs @ [y]) @ ys))) :: ('e, _) result)"
    by (rule Cons.IH) (use Cons.prems in simp)
  ultimately show ?case by (simp add: add.commute add.left_commute)
qed simp

lemma append_leaves_tree:
  "length xs + length ys < 2 ^ 64 \<Longrightarrow>
   append_leaves H (acc_of H xs) ys = (Inr (acc_of H (xs @ ys)) :: ('e, _) result)"
  using accumulator_new_tree [of "xs @ ys" H]
  by (simp add: append_leaves_def acc_of_def append_loop_tree del: length_append of_nat_add)
    (simp add: length_append)

lemma tree_frozen_Nil: "tree_frozen H [] = []"
  by (simp add: tree_frozen_alt)

lemma accumulator_default_tree: "accumulator_default H = (Inr (acc_of H []) :: ('e, _) result)"
  using accumulator_new_tree [of "[]" H] by (simp add: accumulator_default_def acc_of_def tree_frozen_Nil)

lemma from_leaves_tree: "length xs < 2 ^ 64 \<Longrightarrow> from_leaves H xs = (Inr (acc_of H xs) :: ('e, _) result)"
  using append_leaves_tree [of "[]" xs H] by (simp add: from_leaves_def accumulator_default_tree)

section \<open>Appending subtrees\<close>

lemma disjoint_add_bits:
  assumes "2 ^ k dvd cur" "rem < 2 ^ k"
  shows "bit (cur + rem) i \<longleftrightarrow> (if i < k then bit rem i else bit (cur::nat) i)"
    and "k \<le> i \<Longrightarrow> (cur + rem) div 2 ^ i = cur div 2 ^ i"
    and "i < k \<Longrightarrow> \<not> bit cur i"
proof -
  obtain c where c: "cur = 2 ^ k * c" using assms(1) by (elim dvdE)
  then have cp: "cur = push_bit k c" by (simp add: push_bit_eq_mult mult.commute)
  have r: "\<not> bit rem i" if "k \<le> i" for i using bit_lt_pow [OF assms(2) that] .
  show z: "\<not> bit cur i" if "i < k" for i using that by (simp add: cp bit_push_bit_iff)
  have "cur + rem = cur OR rem"
    by (rule disjunctive_add_eq_or, rule bit_eqI) (use r z not_le in \<open>auto simp: bit_and_iff\<close>)
  then show "bit (cur + rem) i \<longleftrightarrow> (if i < k then bit rem i else bit cur i)"
    using r [of i] z [of i] by (auto simp: bit_or_iff not_less)
  show "(cur + rem) div 2 ^ i = cur div 2 ^ i" if ki: "k \<le> i"
  proof -
    have "(2::nat) ^ i = 2 ^ k * 2 ^ (i - k)" using ki by (simp flip: power_add)
    then show ?thesis using assms(2) c by (simp add: div_mult2_eq)
  qed
qed

lemma sibling_nodes_small:
  assumes "2 ^ k dvd cur" "rem < 2 ^ k" "cur + rem \<le> 2 ^ 63"
  shows "sibling_nodes cur rem = map (\<lambda>l. (l, (cur + rem) div 2 ^ l - 1)) (filter (bit rem) (rev [0..<64]))"
  using assms
proof (induction rem arbitrary: cur k rule: less_induct)
  case (less rem)
  show ?case
  proof (cases "rem = 0")
    case True
    then show ?thesis by (subst sibling_nodes.simps) simp
  next
    case False
    then have pos: "0 < rem" by simp
    define t where "t = nlog2 rem"
    have tb: "2 ^ t \<le> rem" "rem < 2 ^ Suc t" using nlog2_bounds [OF pos] by (simp_all add: t_def)
    have "rem < 2 ^ 64" using less.prems(3) by simp
    have t64: "t < 64"
      using nlog2_u64 [of "of_nat rem"] unat_of_nat_u64 [OF \<open>rem < 2 ^ 64\<close>] pos by (simp add: t_def)
    have tk: "t < k"
    proof -
      have "(2::nat) ^ t < 2 ^ k" using tb(1) less.prems(2) by (rule le_less_trans)
      then show ?thesis by simp
    qed
    have sl: "sibling_level cur rem = t"
    proof (cases "cur = 0")
      case False
      then have c: "0 < cur" "cur < 2 ^ 64" using less.prems(3) by simp_all
      have "(of_nat cur :: u64) \<noteq> 0" using unat_of_nat_u64 [OF c(2)] c(1) by (metis less_not_refl unat_0)
      from trailing_zeros_props(1,2) [OF this] have "bit cur (ntz cur)"
        by (simp add: ntz_def bit_u64_of_nat)
      with disjoint_add_bits(3) [OF less.prems(1,2), of "ntz cur"] have "k \<le> ntz cur" by (simp add: not_less [symmetric]) blast
      then have "(2::nat) ^ k \<le> 2 ^ ntz cur" by (rule power_increasing) simp
      with less.prems(2) have "\<not> 2 ^ ntz cur \<le> rem" by linarith
      then show ?thesis by (simp add: sibling_level_def t_def)
    qed (simp add: sibling_level_def t_def)
    have d: "2 ^ t dvd cur" using less.prems(1) tk by (meson dvd_trans le_imp_power_dvd less_imp_le)
    have "sibling_nodes (cur + 2 ^ t) (rem - 2 ^ t) =
      map (\<lambda>l. (l, (cur + 2 ^ t + (rem - 2 ^ t)) div 2 ^ l - 1)) (filter (bit (rem - 2 ^ t)) (rev [0..<64]))"
    proof (rule less.IH)
      show "rem - 2 ^ t < rem" using pos by simp
      show "2 ^ t dvd cur + 2 ^ t" using d by simp
      show "rem - 2 ^ t < 2 ^ t" using tb by simp
      show "cur + 2 ^ t + (rem - 2 ^ t) \<le> 2 ^ 63" using tb(1) less.prems(3) by simp
    qed
    moreover have "cur + 2 ^ t + (rem - 2 ^ t) = cur + rem" using tb(1) by simp
    moreover have "cur div 2 ^ t = (cur + rem) div 2 ^ t - 1"
    proof -
      obtain c where c: "cur = 2 ^ t * c" using d by (elim dvdE)
      have "rem div 2 ^ t = 1" using tb by (intro div_nat_eqI) (auto simp: mult_2)
      then show ?thesis using c by (simp add: div_plus_div_distrib_dvd_left)
    qed
    moreover have "filter (bit rem) (rev [0..<64]) = t # filter (bit (rem - 2 ^ t)) (rev [0..<64])"
    proof -
      define r where "r = rem - 2 ^ t"
      have rem: "rem = 2 ^ t + r" using tb(1) by (simp add: r_def)
      have r: "r < 2 ^ t" using tb by (simp add: r_def)
      have bits: "bit rem i \<longleftrightarrow> (if i < t then bit r i else i = t)" for i
        unfolding rem using disjoint_add_bits(1) [of t "2 ^ t" r i] r by (simp add: bit_exp_iff)
      have rhi: "\<not> bit r i" if "t \<le> i" for i using bit_lt_pow [OF r that] .
      have u: "[0..<64] = [0..<t] @ t # [Suc t..<64]"
        using t64 upt_split [of t 64] upt_conv_Cons [of t 64] by simp
      have "filter (bit rem) [0..<t] = filter (bit r) [0..<t]" by (rule filter_cong) (auto simp: bits)
      moreover have "filter (bit rem) [Suc t..<64] = []" "filter (bit r) [Suc t..<64] = []"
        using bits rhi by simp_all
      ultimately show ?thesis using bits [of t] rhi [of t] unfolding r_def [symmetric] u
        by (simp add: rev_filter [symmetric])
    qed
    ultimately show ?thesis using False sl
      by (subst sibling_nodes.simps) (simp add: Let_def)
  qed
qed

lemma frozen_from_small:
  assumes "2 ^ k dvd cur" "rem < 2 ^ k" "k \<le> 64" "cur + rem \<le> 2 ^ 63"
  shows "frozen_from H zs (cur + rem) 0 = frozen_from H zs cur 0 @ map (\<lambda>(l, p). thash H zs l p) (sibling_nodes cur rem)"
proof -
  note b = disjoint_add_bits [OF assms(1,2)]
  have u: "[0..<64] = [0..<k] @ [k..<64]" using assms(3) by (rule upt_split)
  have "filter (bit (cur + rem)) [0..<k] = filter (bit rem) [0..<k]" by (rule filter_cong) (auto simp: b(1))
  moreover have hi: "filter (bit (cur + rem)) [k..<64] = filter (bit cur) [k..<64]" by (rule filter_cong) (auto simp: b(1))
  moreover have "filter (bit cur) [0..<k] = []" using b(3) by simp
  moreover have "filter (bit rem) [k..<64] = []" using bit_lt_pow [OF assms(2)] by simp
  ultimately have f: "filter (bit (cur + rem)) (rev [0..<64]) = filter (bit cur) (rev [0..<64]) @ filter (bit rem) (rev [0..<64])"
    unfolding u by (simp add: rev_filter [symmetric])
  have k: "k \<le> l" if "bit cur l" for l using b(3) [of l] that by (cases "l < k") auto
  have "map (\<lambda>l. thash H zs l ((cur + rem) div 2 ^ l - 1)) (filter (bit cur) (rev [0..<64])) = frozen_from H zs cur 0"
    unfolding frozen_from_def by (rule map_cong) (auto simp: b(2) dest: k)
  then show ?thesis
    unfolding frozen_from_def [of H zs "cur + rem"] f sibling_nodes_small [OF assms(1,2,4)]
    by (simp add: comp_def)
qed


lemma and_onebit_iff: "i < 64 \<Longrightarrow> (of_nat n AND onebit i \<noteq> (0 :: u64)) \<longleftrightarrow> bit n i"
proof -
  assume i: "i < 64"
  have "(of_nat n AND onebit i \<noteq> (0 :: u64)) \<longleftrightarrow> (\<exists>m. bit (of_nat n AND onebit i :: u64) m)"
    using bit_eqI [of "of_nat n AND onebit i :: u64" 0] by auto
  also have "\<dots> \<longleftrightarrow> bit n i" using i by (auto simp: bit_and_iff bit_onebit bit_u64_of_nat)
  finally show ?thesis .
qed

lemma carry_loop_eq:
  assumes i: "j \<le> 63" "i \<le> j" and ones: "\<And>k. i \<le> k \<Longrightarrow> k < j \<Longrightarrow> bit n k" and nj: "\<not> bit n j"
    and n: "n < length zs"
  shows "carry_loop H (of_nat n) (onebit i) (thash H zs i (n div 2 ^ i)) (frozen_from H zs n i) =
    (Inr (thash H zs j (n div 2 ^ j), frozen_from H zs n j, onebit j) :: ('e, _) result)"
  using i(2) ones
proof (induction i rule: inc_induct)
  case base
  have "of_nat n AND onebit j = (0 :: u64)" using nj i(1) and_onebit_iff [of j n] by simp
  then show ?case by (subst carry_loop.simps) simp
next
  case (step i)
  from step have b: "bit n i" by simp
  have i63: "i < 63" using step i(1) by simp
  have a: "of_nat n AND onebit i \<noteq> (0 :: u64)" using b i63 and_onebit_iff [of i n] by simp
  have d: "n div 2 ^ Suc i = n div 2 ^ i div 2" by (simp only: power_Suc2 div_mult2_eq)
  from b have "odd (n div 2 ^ i)" by (simp add: bit_iff_odd)
  then have e: "n div 2 ^ i = 2 * (n div 2 ^ Suc i) + 1" "n div 2 ^ i - 1 = 2 * (n div 2 ^ Suc i)"
    unfolding d by (simp_all add: odd_two_times_div_two_succ)
  have "n div 2 ^ Suc i * 2 ^ Suc i \<le> n" by (rule div_times_less_eq_dividend)
  then have "n div 2 ^ Suc i * 2 ^ Suc i < length zs" using n by linarith
  from thash_node [OF this, of H]
  have h: "H (thash H zs i (n div 2 ^ i - 1)) (thash H zs i (n div 2 ^ i)) = thash H zs (Suc i) (n div 2 ^ Suc i)"
    unfolding e(2) by (simp only: e(1))
  have ff: "frozen_from H zs n i = frozen_from H zs n (Suc i) @ [thash H zs i (n div 2 ^ i - 1)]"
    using frozen_from_Suc [of i H zs n] b i63 by simp
  show ?case
    by (subst carry_loop.simps)
      (use a h ff step.IH step.prems shl_onebit [OF i63] in \<open>simp del: power_Suc\<close>)
qed

lemma carry_target:
  assumes "bit n t" "n < 2 ^ 63"
  obtains j where "t < j" "j \<le> 63" "\<not> bit n j" "\<And>k. t \<le> k \<Longrightarrow> k < j \<Longrightarrow> bit (n::nat) k"
proof -
  define j where "j = (LEAST j. t \<le> j \<and> \<not> bit n j)"
  have t: "t < 63" using bit_lt_pow [OF assms(2), of t] assms(1) by (cases "t < 63") auto
  have ex: "t \<le> 63 \<and> \<not> bit n 63" using t bit_lt_pow [OF assms(2), of 63] by simp
  have j: "t \<le> j \<and> \<not> bit n j" unfolding j_def using ex by (rule LeastI)
  have "j \<le> 63" unfolding j_def using ex by (rule Least_le)
  moreover have "t < j" using j assms(1) by (cases "t = j") auto
  moreover have "bit n k" if "t \<le> k" "k < j" for k
    using not_less_Least [of k "\<lambda>j. t \<le> j \<and> \<not> bit n j"] that unfolding j_def [symmetric] by blast
  ultimately show thesis using that j by blast
qed

lemma ntz_props:
  assumes "0 < n" "n < 2 ^ 64"
  shows "bit n (ntz n)" and "i < ntz n \<Longrightarrow> \<not> bit n i"
proof -
  have nz: "(of_nat n :: u64) \<noteq> 0" using unat_of_nat_u64 [OF assms(2)] assms(1) by (metis less_not_refl unat_0)
  from trailing_zeros_props [OF nz] show "bit n (ntz n)" and "i < ntz n \<Longrightarrow> \<not> bit n i"
    by (auto simp: ntz_def bit_u64_of_nat)
qed

lemma ntz_eq:
  assumes "n < 2 ^ 64" "bit n j" "\<And>i. i < j \<Longrightarrow> \<not> bit n i"
  shows "ntz n = j"
proof -
  have j: "j < 64" using bit_lt_pow [OF assms(1), of j] assms(2) by (cases "j < 64") auto
  show ?thesis unfolding ntz_def using j assms by (intro trailing_zeros_eq) (auto simp: bit_u64_of_nat)
qed

lemma add_carry_ntz:
  assumes j: "t < j" "j \<le> 63" "\<not> bit n j" and ones: "\<And>k. t \<le> k \<Longrightarrow> k < j \<Longrightarrow> bit n k"
    and zeros: "\<And>k. k < t \<Longrightarrow> \<not> bit n k" and n: "n + 2 ^ t < 2 ^ 64"
  shows "ntz (n + 2 ^ t) = j"
proof (rule ntz_eq [OF n])
  note bits = add_carry(2) [OF less_imp_le [OF j(1)] j(3) ones zeros]
  show "bit (n + 2 ^ t) j" using bits [of j] by simp
  show "\<not> bit (n + 2 ^ t) i" if "i < j" for i using bits [of i] that by simp
qed

lemma subtree_loop_eq:
  assumes "0 < cur" "cur + rem \<le> 2 ^ 63" "cur + rem \<le> length zs"
  shows "\<exists>c r iter roots.
    subtree_loop H (of_nat cur) (of_nat rem) (onebit (ntz cur))
        (map (\<lambda>(l, p). thash H zs l p) (sibling_nodes cur rem)) (frozen_from H zs cur 0) = Inr (c, r, iter, roots) \<and>
    c + r = of_nat (cur + rem) \<and> roots @ iter = frozen_from H zs (cur + rem) 0"
  using assms
proof (induction rem arbitrary: cur rule: less_induct)
  case (less rem)
  have c64: "cur < 2 ^ 64" "rem < 2 ^ 64" using less.prems by simp_all
  define t where "t = ntz cur"
  have t: "bit cur t" "\<And>i. i < t \<Longrightarrow> \<not> bit cur i" "t < 64" "2 ^ t dvd cur"
    using ntz_props [OF less.prems(1) c64(1)] ntz_dvd [OF less.prems(1) c64(1)] by (simp_all add: t_def)
  have cmp: "onebit t \<le> of_nat rem \<longleftrightarrow> 2 ^ t \<le> rem"
    using t(3) unat_of_nat_u64 [OF c64(2)] by (simp add: word_le_nat_alt unat_onebit)
  show ?case
  proof (cases "2 ^ t \<le> rem")
    case False
    then have "frozen_from H zs (cur + rem) 0
      = frozen_from H zs cur 0 @ map (\<lambda>(l, p). thash H zs l p) (sibling_nodes cur rem)"
      using less.prems t by (intro frozen_from_small [of t]) simp_all
    then show ?thesis using False cmp
      by (subst subtree_loop.simps) (simp add: flip: t_def)
  next
    case True
    have cl: "cur < 2 ^ 63" "cur < length zs"
    proof -
      have "(0::nat) < 2 ^ t" by simp
      with True have "0 < rem" by linarith
      then show "cur < 2 ^ 63" "cur < length zs" using less.prems by linarith+
    qed
    obtain j where j: "t < j" "j \<le> 63" "\<not> bit cur j" "\<And>k. t \<le> k \<Longrightarrow> k < j \<Longrightarrow> bit cur k"
      using carry_target [OF t(1) cl(1)] by blast
    have rem0: "rem \<noteq> 0" using True by (metis le_zero_eq power_not_zero zero_neq_numeral)
    have sl: "sibling_level cur rem = t" using True less.prems(1) by (simp add: sibling_level_def t_def)
    have sn: "sibling_nodes cur rem = (t, cur div 2 ^ t) # sibling_nodes (cur + 2 ^ t) (rem - 2 ^ t)"
      using rem0 sl by (subst sibling_nodes.simps) (simp add: Let_def)
    have fz: "frozen_from H zs cur 0 = frozen_from H zs cur t"
    proof -
      have "[0..<64] = [0..<t] @ [t..<64]" using t(3) by (intro upt_split) simp
      then show ?thesis using t(2) by (simp add: frozen_from_def)
    qed
    have carry: "carry_loop H (of_nat cur) (onebit t) (thash H zs t (cur div 2 ^ t)) (frozen_from H zs cur 0) =
       Inr (thash H zs j (cur div 2 ^ j), frozen_from H zs cur j, onebit j)"
      unfolding fz using j cl(2) by (intro carry_loop_eq) simp_all
    have sum: "cur + 2 ^ t + (rem - 2 ^ t) = cur + rem" using True by simp
    have b: "cur + 2 ^ t \<le> cur + rem" using True by simp
    then have c': "cur + 2 ^ t < 2 ^ 64" using less.prems(2) by simp
    have ntz': "ntz (cur + 2 ^ t) = j" using j t(2) c' by (intro add_carry_ntz) simp_all
    have ff: "frozen_from H zs cur j @ [thash H zs j (cur div 2 ^ j)] = frozen_from H zs (cur + 2 ^ t) 0"
      using frozen_from_add [of t j cur H zs] j t(2) by simp
    have w: "of_nat cur + onebit t = (of_nat (cur + 2 ^ t) :: u64)" "of_nat rem - onebit t = (of_nat (rem - 2 ^ t) :: u64)"
      using True by (simp_all add: onebit_def of_nat_diff)
    have "\<exists>c r iter roots. subtree_loop H (of_nat (cur + 2 ^ t)) (of_nat (rem - 2 ^ t)) (onebit (ntz (cur + 2 ^ t)))
        (map (\<lambda>(l, p). thash H zs l p) (sibling_nodes (cur + 2 ^ t) (rem - 2 ^ t))) (frozen_from H zs (cur + 2 ^ t) 0)
          = Inr (c, r, iter, roots) \<and>
      c + r = of_nat (cur + 2 ^ t + (rem - 2 ^ t)) \<and> roots @ iter = frozen_from H zs (cur + 2 ^ t + (rem - 2 ^ t)) 0"
      using less.prems rem0 sum by (intro less.IH) simp_all
    moreover have "subtree_loop H (of_nat cur) (of_nat rem) (onebit t)
        (map (\<lambda>(l, p). thash H zs l p) (sibling_nodes cur rem)) (frozen_from H zs cur 0) =
      subtree_loop H (of_nat (cur + 2 ^ t)) (of_nat (rem - 2 ^ t)) (onebit j)
        (map (\<lambda>(l, p). thash H zs l p) (sibling_nodes (cur + 2 ^ t) (rem - 2 ^ t))) (frozen_from H zs (cur + 2 ^ t) 0)"
      by (subst subtree_loop.simps) (simp add: True cmp sn carry ff w del: of_nat_add of_nat_diff)
    ultimately show ?thesis unfolding sum ntz' t_def [symmetric] by simp
  qed
qed


lemma append_subtrees_tree:
  assumes "length xs + length ys \<le> 2 ^ 63"
  shows "append_subtrees H (acc_of H xs)
      (map (\<lambda>(l, p). thash H (xs @ ys) l p) (sibling_nodes (length xs) (length ys))) (of_nat (length ys))
    = Inr (acc_of H (xs @ ys))"
proof -
  let ?n = "length xs" and ?m = "length ys" and ?zs = "xs @ ys"
  have n64: "?n < 2 ^ 64" "?m < 2 ^ 64" using assms by simp_all
  have max: "unat (MAX_ACCUMULATOR_LEAVES - of_nat ?n) = 2 ^ 63 - ?n"
  proof -
    have m: "MAX_ACCUMULATOR_LEAVES = of_nat (2 ^ 63)"
      by (simp add: MAX_ACCUMULATOR_LEAVES_def MAX_ACCUMULATOR_PROOF_DEPTH_def shl_def)
    have "MAX_ACCUMULATOR_LEAVES - of_nat ?n = of_nat (2 ^ 63 - ?n)"
      unfolding m using assms by (simp add: of_nat_diff)
    then show ?thesis by (simp add: unat_of_nat_u64)
  qed
  have ens: "of_nat ?m \<le> MAX_ACCUMULATOR_LEAVES - of_nat ?n"
    unfolding word_le_nat_alt max unat_of_nat_u64 [OF n64(2)] using assms by simp
  have new: "accumulator_new H (frozen_from H ?zs (?n + ?m) 0) (of_nat (?n + ?m)) = Inr (acc_of H ?zs)"
    using accumulator_new_tree [of ?zs H] assms by (simp add: acc_of_def tree_frozen_from)
  show ?thesis
  proof (cases "xs = []")
    case True
    have "frozen_from H ys ?m 0 = map (\<lambda>(l, p). thash H ys l p) (sibling_nodes 0 ?m)"
      using frozen_from_small [of 64 0 ?m H ys] n64 assms True by (simp add: frozen_from_def)
    with True new ens show ?thesis by (simp add: append_subtrees_def acc_of_def)
  next
    case False
    then have n0: "0 < ?n" by simp
    have nz: "(of_nat ?n :: u64) \<noteq> 0" using unat_of_nat_u64 [OF n64(1)] n0 by (metis less_not_refl unat_0)
    have t: "shl 1 (trailing_zeros (of_nat ?n)) = onebit (ntz ?n)"
      using ntz_dvd(2) [OF n0 n64(1)] by (simp add: ntz_def shl_def onebit_def)
    have fz: "frozen_subtree_roots (acc_of H xs) = frozen_from H ?zs ?n 0"
      by (simp add: acc_of_def tree_frozen_from frozen_from_append)
    obtain c r iter roots where l: "subtree_loop H (of_nat ?n) (of_nat ?m) (onebit (ntz ?n))
        (map (\<lambda>(l, p). thash H ?zs l p) (sibling_nodes ?n ?m)) (frozen_from H ?zs ?n 0) = Inr (c, r, iter, roots)"
      and "c + r = of_nat (?n + ?m)" "roots @ iter = frozen_from H ?zs (?n + ?m) 0"
      using subtree_loop_eq [OF n0 assms, of ?zs H] by auto
    with new have "accumulator_new H (roots @ iter) (c + r) = Inr (acc_of H ?zs)" by simp
    moreover have "num_leaves (acc_of H xs) = of_nat ?n" by (simp add: acc_of_def)
    ultimately show ?thesis using l nz ens t fz
      by (simp add: append_subtrees_def)
  qed
qed

section \<open>Properties\<close>

text \<open>
  C4: The in-memory accumulator refines the list of leaves. Building an accumulator from leaves and
  appending more in any batches never panics below \<open>2^64\<close> leaves, and the frozen subtree roots, the
  number of leaves and the root hash are those of the Merkle tree over all leaves in order.
\<close>

theorem accumulator_append_refines:
  "length xs + length ys < 2 ^ 64 \<Longrightarrow>
   from_leaves H xs = (Inr (acc_of H xs) :: ('e, _) result) \<and>
   append_leaves H (acc_of H xs) ys = (Inr (acc_of H (xs @ ys)) :: ('e, _) result)"
  by (simp add: from_leaves_tree append_leaves_tree)

theorem accumulator_append_refines_witness:
  "from_leaves (\<lambda>a b. 2 * a + 3 * b) [11, 22] = (Inr (acc_of (\<lambda>a b. 2 * a + 3 * b) [11, 22]) :: (unit, _) result) \<and>
   append_leaves (\<lambda>a b. 2 * a + 3 * b) (acc_of (\<lambda>a b. 2 * a + 3 * b) [11, 22]) [33]
     = (Inr (acc_of (\<lambda>a b. 2 * a + 3 * b) [11, 22, 33]) :: (unit, _) result)"
  using accumulator_append_refines [where 'e = unit, of "[11, 22]" "[33]" "\<lambda>a b. 2 * a + 3 * b"] by simp

text \<open>
  C15: Appending subtrees is appending leaves. Given the hashes of the subtrees that
  \<open>FrozenSubtreeSiblingIterator\<close> enumerates from the old to the new number of leaves, that is a
  consistency proof between the two accumulators, \<open>append_subtrees\<close> gives the accumulator that
  \<open>append\<close> gives for the leaves themselves.
\<close>

theorem append_subtrees_equals_append:
  "length xs + length ys \<le> 2 ^ 63 \<Longrightarrow>
   append_subtrees H (acc_of H xs)
     (map (\<lambda>(l, p). thash H (xs @ ys) l p) (sibling_nodes (length xs) (length ys))) (of_nat (length ys))
   = append_leaves H (acc_of H xs) ys"
  by (simp add: append_subtrees_tree append_leaves_tree)

theorem append_subtrees_equals_append_witness:
  "append_subtrees (\<lambda>a b. 2 * a + 3 * b) (acc_of (\<lambda>a b. 2 * a + 3 * b) [11, 22])
     (map (\<lambda>(l, p). thash (\<lambda>a b. 2 * a + 3 * b) ([11, 22] @ [33]) l p)
       (sibling_nodes (length [11, 22 :: hash_value]) (length [33 :: hash_value]))) (of_nat (length [33 :: hash_value]))
   = append_leaves (\<lambda>a b. 2 * a + 3 * b) (acc_of (\<lambda>a b. 2 * a + 3 * b) [11, 22]) [33]"
  by (rule append_subtrees_equals_append) simp

end
