(* ===== verification/Accumulator_Proof.thy ===== *)
theory Accumulator_Proof
  imports Accumulator_Tree
begin

text \<open>
  The proofs over accumulators of \<open>types/src/proof/definition.rs\<close>: inclusion of one leaf, of a
  range of leaves, consistency and extension of an accumulator, with their verifiers.
\<close>

section \<open>Verifiers\<close>

record accumulator_proof =
  ap_siblings :: "hash_value list"

text \<open>The closure folded over the siblings.\<close>

definition proof_step :: "node_hasher \<Rightarrow> hash_value \<Rightarrow> hash_value \<times> u64 \<Rightarrow> hash_value \<times> u64" where
  "proof_step H sibling_hash = (\<lambda>(hash, index).
     (if index mod 2 = 0 then H hash sibling_hash else H sibling_hash hash, index div 2))"

definition accumulator_proof_verify ::
    "node_hasher \<Rightarrow> accumulator_proof \<Rightarrow> hash_value \<Rightarrow> hash_value \<Rightarrow> u64 \<Rightarrow> unit anyhow" where
  "accumulator_proof_verify H self expected_root_hash element_hash element_index =
     rbind (ensure (length (ap_siblings self) \<le> MAX_ACCUMULATOR_PROOF_DEPTH)
              ''Accumulator proof has more than 63 siblings.'') (\<lambda>_.
     let actual_root_hash = fst (fold (proof_step H) (ap_siblings self) (element_hash, element_index))
     in rbind (ensure (actual_root_hash = expected_root_hash) ''Root hashes do not match.'') (\<lambda>_.
        Inr ()))"

record accumulator_consistency_proof =
  acp_subtrees :: "hash_value list"

record accumulator_range_proof =
  left_siblings :: "hash_value list"
  right_siblings :: "hash_value list"

definition range_proof_new_empty :: accumulator_range_proof where
  "range_proof_new_empty = \<lparr>left_siblings = [], right_siblings = []\<rparr>"

text \<open>\<open>chunks_exact(2)\<close>, each chunk hashed, and its \<open>remainder\<close>.\<close>

fun pair_up :: "node_hasher \<Rightarrow> hash_value list \<Rightarrow> hash_value list" where
  "pair_up H (left_hash # right_hash # rest) = H left_hash right_hash # pair_up H rest"
| "pair_up H _ = []"

fun chunks_remainder :: "'a list \<Rightarrow> 'a list" where
  "chunks_remainder (_ # _ # rest) = chunks_remainder rest"
| "chunks_remainder xs = xs"

text \<open>One iteration of the \<open>while\<close> loop of \<open>AccumulatorRangeProof::verify\<close>.\<close>

definition range_level ::
    "node_hasher \<Rightarrow> position \<Rightarrow> hash_value list \<Rightarrow> hash_value list \<Rightarrow> hash_value list
       \<Rightarrow> (hash_value list \<times> hash_value list \<times> hash_value list) anyhow" where
  "range_level H first_pos current_hashes left_iter right_iter =
     rbind (if is_right_child first_pos
            then rbind (ok_or (case left_iter of [] \<Rightarrow> None | l # left_iter \<Rightarrow> Some (l, left_iter))
                          ''First child is a right child, but missing sibling on the left.'') (\<lambda>(left_hash, left_iter).
                 rbind (expect (case current_hashes of [] \<Rightarrow> None | h # hs \<Rightarrow> Some (h, hs))
                          ''The first leaf must exist.'') (\<lambda>(right_hash, children).
                 Inr ([H left_hash right_hash], children, left_iter)))
            else Inr ([], current_hashes, left_iter)) (\<lambda>(parent_hashes, children, left_iter).
     let parent_hashes = parent_hashes @ pair_up H children
     in case chunks_remainder children of
          [] \<Rightarrow> Inr (parent_hashes, left_iter, right_iter)
        | left_hash # _ \<Rightarrow>
            rbind (ok_or (case right_iter of [] \<Rightarrow> None | r # right_iter \<Rightarrow> Some (r, right_iter))
                     ''Last child is a left child, but missing sibling on the right.'') (\<lambda>(right_hash, right_iter).
            Inr (parent_hashes @ [H left_hash right_hash], left_iter, right_iter)))"

text \<open>The loop. The vector of hashes is never empty, see \<open>range_level_length\<close>.\<close>

lemma chunks_remainder_length: "length (chunks_remainder xs) = length xs mod 2"
  by (induction xs rule: chunks_remainder.induct) auto

lemma pair_up_length: "length (pair_up H xs) = length xs div 2"
  by (induction H xs rule: pair_up.induct) auto

lemma pair_up_snoc: "chunks_remainder xs = x # rest \<Longrightarrow> pair_up H (xs @ [y]) = pair_up H xs @ [H x y]"
  by (induction H xs rule: pair_up.induct) auto

text \<open>
  One iteration takes at most one sibling on each side and pairs up the hashes between them.
\<close>

lemma range_level_ok:
  assumes "range_level H pos hs l r = Inr (hs', l', r')"
  obtains ls rs where "l = ls @ l'" "r = rs @ r'" "length ls = (if is_right_child pos then 1 else 0)"
    "length rs \<le> 1" "even (length (ls @ hs @ rs))" "hs' = pair_up H (ls @ hs @ rs)"
proof -
  from assms obtain ps ch where
    a: "is_right_child pos \<and> (\<exists>x h. l = x # l' \<and> hs = h # ch \<and> ps = [H x h]) \<or>
        \<not> is_right_child pos \<and> ps = [] \<and> ch = hs \<and> l' = l" and
    b: "chunks_remainder ch = [] \<and> hs' = ps @ pair_up H ch \<and> r' = r \<or>
        (\<exists>x rest y. chunks_remainder ch = x # rest \<and> r = y # r' \<and> hs' = ps @ pair_up H ch @ [H x y])"
    unfolding range_level_def
    by (auto simp: result_simps Let_def split: if_splits list.splits)
  define ls where "ls = (if is_right_child pos then [hd l] else [])"
  define rs where "rs = (if chunks_remainder ch = [] then [] else [hd r])"
  have l: "l = ls @ l'" "length ls = (if is_right_child pos then 1 else 0)" using a by (auto simp: ls_def)
  have r: "r = rs @ r'" "length rs \<le> 1" using b by (auto simp: rs_def)
  have lsh: "ls @ hs = (if is_right_child pos then [hd l, hd hs] else []) @ ch" using a by (auto simp: ls_def)
  have pr: "pair_up H (ch @ rs) = (case chunks_remainder ch of [] \<Rightarrow> pair_up H ch | x # _ \<Rightarrow> pair_up H ch @ [H x (hd r)])"
    by (auto simp: rs_def pair_up_snoc split: list.splits)
  have "hs' = pair_up H (ls @ hs @ rs)"
    using a b pr by (auto simp: ls_def)
  moreover have "even (length (ls @ hs @ rs))"
  proof -
    have e: "even (length ch + length rs)"
      using b chunks_remainder_length [of ch] by (auto simp: rs_def)
    have "length (ls @ hs) = (if is_right_child pos then 2 else 0) + length ch" unfolding lsh by simp
    then have eq: "length (ls @ hs @ rs) = (if is_right_child pos then 2 else 0) + (length ch + length rs)"
      by simp
    show ?thesis unfolding eq using e by simp
  qed
  ultimately show thesis using that l r by blast
qed

lemma range_level_length:
  assumes "range_level H pos hs l r = Inr (hs', l', r')" and "hs \<noteq> []"
  shows "hs' \<noteq> []" and "length hs' + length l' + length r' < length hs + length l + length r"
proof -
  from assms(1) obtain ls rs where r: "l = ls @ l'" "r = rs @ r'" "even (length (ls @ hs @ rs))"
    "hs' = pair_up H (ls @ hs @ rs)" by (rule range_level_ok)
  define k where "k = length (ls @ hs @ rs)"
  have k: "0 < k" "even k" using assms(2) r(3) by (simp_all add: k_def)
  have len: "length hs' = k div 2" using r(4) by (simp add: pair_up_length k_def)
  show "hs' \<noteq> []" using len k by auto
  have "length hs' < k" using len k by simp
  then show "length hs' + length l' + length r' < length hs + length l + length r"
    using r(1,2) by (simp add: k_def)
qed

function range_loop ::
    "node_hasher \<Rightarrow> position \<Rightarrow> hash_value list \<Rightarrow> hash_value list \<Rightarrow> hash_value list \<Rightarrow> hash_value list anyhow" where
  "range_loop H first_pos current_hashes left_iter right_iter =
     (if current_hashes = [] then Inl (Panic ''The first leaf must exist.'')
      else if length current_hashes > 1 \<or> left_iter \<noteq> [] \<or> right_iter \<noteq> []
      then rbind (range_level H first_pos current_hashes left_iter right_iter) (\<lambda>(parent_hashes, left_iter, right_iter).
           range_loop H (parent first_pos) parent_hashes left_iter right_iter)
      else Inr current_hashes)"
  by pat_completeness auto
termination
  by (relation "measure (\<lambda>(H, pos, hs, l, r). length hs + length l + length r)")
    (use range_level_length(2) in fastforce)+

declare range_loop.simps [simp del]

definition accumulator_range_proof_verify ::
    "node_hasher \<Rightarrow> accumulator_range_proof \<Rightarrow> hash_value \<Rightarrow> u64 option \<Rightarrow> hash_value list \<Rightarrow> unit anyhow" where
  "accumulator_range_proof_verify H self expected_root_hash first_leaf_index leaf_hashes =
     (if first_leaf_index = None
      then rbind (ensure (leaf_hashes = [])
                    ''first_leaf_index indicated empty list while leaf_hashes is not empty.'') (\<lambda>_.
           rbind (ensure (left_siblings self = [] \<and> right_siblings self = []) ''No siblings are needed.'') (\<lambda>_.
           Inr ()))
      else
        rbind (ensure (length (left_siblings self) \<le> MAX_ACCUMULATOR_PROOF_DEPTH)
                 ''Proof has more than 63 left siblings.'') (\<lambda>_.
        rbind (ensure (length (right_siblings self) \<le> MAX_ACCUMULATOR_PROOF_DEPTH)
                 ''Proof has more than 63 right siblings.'') (\<lambda>_.
        rbind (ensure (leaf_hashes \<noteq> [])
                 ''leaf_hashes is empty while first_leaf_index indicated non-empty list.'') (\<lambda>_.
        rbind (expect first_leaf_index ''first_leaf_index should not be None.'') (\<lambda>index.
        rbind (range_loop H (from_leaf_index index) leaf_hashes (left_siblings self) (right_siblings self)) (\<lambda>hashes.
        rbind (expect (case hashes of [] \<Rightarrow> None | h # _ \<Rightarrow> Some h) ''index out of bounds'') (\<lambda>h.
        rbind (ensure (h = expected_root_hash) ''Root hashes do not match.'') (\<lambda>_.
        Inr ()))))))))"

record accumulator_extension_proof =
  aep_frozen_subtree_roots :: "hash_value list"
  aep_num_leaves :: leaf_count
  aep_leaves :: "hash_value list"

definition accumulator_extension_proof_verify ::
    "node_hasher \<Rightarrow> accumulator_extension_proof \<Rightarrow> hash_value \<Rightarrow> in_memory_accumulator anyhow" where
  "accumulator_extension_proof_verify H self original_root =
     rbind (accumulator_new H (aep_frozen_subtree_roots self) (aep_num_leaves self)) (\<lambda>original_tree.
     rbind (ensure (root_hash original_tree = original_root) ''Root hashes do not match.'') (\<lambda>_.
     append_leaves H original_tree (aep_leaves self)))"


section \<open>Inclusion of one leaf\<close>

text \<open>The pairs a verifier hashes, and the pairs hashed in the tree over \<open>xs\<close>.\<close>

definition proof_hash :: "node_hasher \<Rightarrow> hash_value list \<Rightarrow> hash_value \<Rightarrow> u64 \<Rightarrow> nat \<Rightarrow> hash_value" where
  "proof_hash H ss h i k = fst (fold (proof_step H) (take k ss) (h, i))"

definition proof_pair :: "node_hasher \<Rightarrow> hash_value list \<Rightarrow> hash_value \<Rightarrow> u64 \<Rightarrow> nat \<Rightarrow> hash_value \<times> hash_value" where
  "proof_pair H ss h i k =
     (if bit i k then (ss ! k, proof_hash H ss h i k) else (proof_hash H ss h i k, ss ! k))"

definition proof_pairs :: "node_hasher \<Rightarrow> hash_value list \<Rightarrow> hash_value \<Rightarrow> u64 \<Rightarrow> (hash_value \<times> hash_value) set" where
  "proof_pairs H ss h i = proof_pair H ss h i ` {..<length ss}"

definition tree_pairs :: "node_hasher \<Rightarrow> hash_value list \<Rightarrow> (hash_value \<times> hash_value) set" where
  "tree_pairs H xs =
     {(thash H xs l (2 * p), thash H xs l (2 * p + 1)) | l p.
        l < root_level (length xs) \<and> p * 2 ^ Suc l < length xs}"

lemma proof_step_eq:
  "proof_step H s (h, i) = (if bit i 0 then H s h else H h s, i div 2)"
proof -
  have "i mod 2 = 0 \<longleftrightarrow> \<not> bit i 0" by (simp only: bit_0 even_iff_mod_2_eq_zero not_not)
  then show ?thesis by (simp add: proof_step_def)
qed

lemma proof_fold_index: "snd (fold (proof_step H) ss (h, i)) = drop_bit (length ss) i"
proof (induction ss rule: rev_induct)
  case (snoc s ss)
  obtain a b where f: "fold (proof_step H) ss (h, i) = (a, b)" by fastforce
  with snoc show ?case by (simp add: proof_step_eq drop_bit_Suc drop_bit_half del: bit_0)
qed simp

lemma proof_hash_Suc:
  assumes "k < length ss"
  shows "proof_hash H ss h i (Suc k) = case_prod H (proof_pair H ss h i k)"
proof -
  obtain a b where f: "fold (proof_step H) (take k ss) (h, i) = (a, b)" by fastforce
  have b: "b = drop_bit k i" using proof_fold_index [of H "take k ss" h i] f assms by simp
  have "bit b 0 \<longleftrightarrow> bit i k" unfolding b by (simp only: bit_drop_bit_eq comp_apply) simp
  with f assms show ?thesis
    by (simp add: proof_hash_def proof_pair_def take_Suc_conv_app_nth proof_step_eq del: bit_0)
qed

lemma proof_hash_0: "proof_hash H ss h i 0 = h" by (simp add: proof_hash_def)

lemma verify_iff:
  "accumulator_proof_verify H pf root h i = Inr () \<longleftrightarrow>
   length (ap_siblings pf) \<le> 63 \<and> proof_hash H (ap_siblings pf) h i (length (ap_siblings pf)) = root"
  by (simp add: accumulator_proof_verify_def proof_hash_def result_simps MAX_ACCUMULATOR_PROOF_DEPTH_def Let_def)


text \<open>
  What the soundness of a proof needs of the hash function, for the finitely many values at hand:
  the pairs that were hashed do not collide, and none of them hashes to one of the given leaf
  values.
\<close>

definition collision_free :: "node_hasher \<Rightarrow> (hash_value \<times> hash_value) set \<Rightarrow> hash_value set \<Rightarrow> bool" where
  "collision_free H P V \<longleftrightarrow> inj_on (case_prod H) P \<and> (\<forall>x \<in> P. case_prod H x \<notin> V)"

lemma collision_freeD:
  assumes "collision_free H P V"
  shows "x \<in> P \<Longrightarrow> y \<in> P \<Longrightarrow> case_prod H x = case_prod H y \<Longrightarrow> x = y"
    and "x \<in> P \<Longrightarrow> case_prod H x \<noteq> v \<or> v \<notin> V"
    and "x \<in> P \<Longrightarrow> case_prod H x \<notin> V"
  using assms by (auto simp: collision_free_def inj_on_def)

lemma mod_div_index: "k < m \<Longrightarrow> (i mod 2 ^ m) div 2 ^ k = 2 * ((i mod 2 ^ m) div 2 ^ Suc k) + (if bit i k then 1 else 0)"
  for i :: nat
proof -
  assume k: "k < m"
  let ?j = "i mod 2 ^ m"
  have b: "bit ?j k \<longleftrightarrow> bit i k" using k by (simp flip: take_bit_eq_mod add: bit_take_bit_iff)
  have d: "?j div 2 ^ Suc k = ?j div 2 ^ k div 2" by (simp only: power_Suc2 div_mult2_eq)
  have "?j div 2 ^ k = 2 * (?j div 2 ^ k div 2) + (if odd (?j div 2 ^ k) then 1 else 0)"
    by (cases "even (?j div 2 ^ k)") simp_all
  then show ?thesis unfolding d using b by (simp add: bit_iff_odd)
qed

lemma tree_pairsI:
  "l < root_level (length xs) \<Longrightarrow> p * 2 ^ Suc l < length xs \<Longrightarrow> (thash H xs l (2 * p), thash H xs l (2 * p + 1)) \<in> tree_pairs H xs"
  unfolding tree_pairs_def by blast

lemma proof_path:
  assumes cf: "collision_free H (tree_pairs H xs \<union> proof_pairs H ss h i) V"
    and V: "ACCUMULATOR_PLACEHOLDER_HASH \<in> V"
    and root: "proof_hash H ss h i (length ss) = tree_root H xs"
    and d: "d \<le> length ss" "d \<le> root_level (length xs)"
  shows "proof_hash H ss h i (length ss - d) =
    thash H xs (root_level (length xs) - d) ((unat i mod 2 ^ length ss) div 2 ^ (length ss - d))"
  using d
proof (induction d)
  case 0
  then show ?case using root by (simp add: tree_root_def)
next
  case (Suc d)
  define k where "k = length ss - Suc d"
  define l where "l = root_level (length xs) - Suc d"
  let ?j = "unat i mod 2 ^ length ss"
  let ?q = "?j div 2 ^ Suc k"
  have k: "length ss - d = Suc k" "k < length ss" using Suc.prems by (simp_all add: k_def)
  have l: "root_level (length xs) - d = Suc l" "l < root_level (length xs)" using Suc.prems by (simp_all add: l_def)
  have pp: "proof_pair H ss h i k \<in> proof_pairs H ss h i" using k(2) by (auto simp: proof_pairs_def)
  have eq: "case_prod H (proof_pair H ss h i k) = thash H xs (Suc l) ?q"
    using Suc.IH Suc.prems k l proof_hash_Suc [OF k(2), of H h i] by simp
  have q: "?q * 2 ^ Suc l < length xs"
  proof (rule ccontr)
    assume "\<not> ?q * 2 ^ Suc l < length xs"
    then have "thash H xs (Suc l) ?q = ACCUMULATOR_PLACEHOLDER_HASH" by (intro thash_placeholder) simp
    with eq collision_freeD(2) [OF cf, of "proof_pair H ss h i k" ACCUMULATOR_PLACEHOLDER_HASH] pp V show False by simp
  qed
  have "proof_pair H ss h i k = (thash H xs l (2 * ?q), thash H xs l (2 * ?q + 1))"
    using collision_freeD(1) [OF cf, of "proof_pair H ss h i k"] pp tree_pairsI [OF l(2) q, of H] eq thash_node [OF q, of H] by simp
  moreover have "bit (unat i) k \<longleftrightarrow> bit i k" by (rule bit_unat)
  ultimately show ?case
    using mod_div_index [OF k(2), of "unat i"] by (auto simp: proof_pair_def simp flip: k_def l_def split: if_splits)
qed

lemma proof_sound:
  assumes cf: "collision_free H (tree_pairs H xs \<union> proof_pairs H ss h i)
      (insert ACCUMULATOR_PLACEHOLDER_HASH (insert h (set xs)))" (is "collision_free H ?P ?V")
    and h: "h \<noteq> ACCUMULATOR_PLACEHOLDER_HASH"
    and root: "proof_hash H ss h i (length ss) = tree_root H xs"
  shows "length ss = root_level (length xs) \<and> unat i mod 2 ^ length ss < length xs \<and>
    xs ! (unat i mod 2 ^ length ss) = h"
proof -
  let ?m = "length ss" and ?L = "root_level (length xs)" and ?j = "unat i mod 2 ^ length ss"
  note path = proof_path [OF cf insertI1 root]
  consider "?m < ?L" | "?L < ?m" | "?m = ?L" by linarith
  then show ?thesis
  proof cases
    case 1
    then obtain l where l: "?L - ?m = Suc l" "l < ?L" by (cases "?L - ?m") auto
    have "h = thash H xs (Suc l) ?j" using path [of ?m] 1 l by (simp add: proof_hash_0)
    moreover from this have q: "?j * 2 ^ Suc l < length xs"
      using h thash_placeholder [of xs ?j "Suc l" H] by (meson not_le)
    ultimately have "case_prod H (thash H xs l (2 * ?j), thash H xs l (2 * ?j + 1)) = h"
      using thash_node [OF q, of H] by simp
    with collision_freeD(2) [OF cf] tree_pairsI [OF l(2) q, of H] show ?thesis by blast
  next
    case 2
    define k where "k = ?m - ?L - 1"
    have k: "?m - ?L = Suc k" "k < ?m" using 2 by (simp_all add: k_def)
    have "proof_hash H ss h i (Suc k) = thash H xs 0 (?j div 2 ^ Suc k)" using path [of ?L] 2 k by simp
    then have "case_prod H (proof_pair H ss h i k) \<in> ?V"
      using proof_hash_Suc [OF k(2), of H h i] by (auto simp: thash.simps)
    moreover have "proof_pair H ss h i k \<in> ?P" using k(2) by (auto simp: proof_pairs_def)
    ultimately show ?thesis using collision_freeD(2) [OF cf] by blast
  next
    case 3
    then have "h = thash H xs 0 ?j" using path [of ?m] by (simp add: proof_hash_0)
    with h 3 show ?thesis by (auto simp: thash.simps split: if_splits)
  qed
qed

definition sibling_index :: "nat \<Rightarrow> nat" where
  "sibling_index p = (if even p then p + 1 else p - 1)"

definition tree_siblings :: "node_hasher \<Rightarrow> hash_value list \<Rightarrow> nat \<Rightarrow> hash_value list" where
  "tree_siblings H xs i = map (\<lambda>k. thash H xs k (sibling_index (i div 2 ^ k))) [0..<root_level (length xs)]"

lemma tree_siblings_hash:
  assumes i: "unat i < length xs" and k: "k \<le> root_level (length xs)"
  shows "proof_hash H (tree_siblings H xs (unat i)) (xs ! unat i) i k = thash H xs k (unat i div 2 ^ k)"
  using k
proof (induction k)
  case 0
  then show ?case using i by (simp add: proof_hash_0 thash.simps)
next
  case (Suc k)
  let ?ss = "tree_siblings H xs (unat i)" and ?p = "unat i div 2 ^ k" and ?q = "unat i div 2 ^ Suc k"
  have k: "k < length ?ss" using Suc.prems by (simp add: tree_siblings_def)
  have d: "?q = ?p div 2" by (simp only: power_Suc2 div_mult2_eq)
  have "?q * 2 ^ Suc k \<le> unat i" by (rule div_times_less_eq_dividend)
  then have q: "?q * 2 ^ Suc k < length xs" using i by linarith
  have s: "?ss ! k = thash H xs k (sibling_index ?p)" using Suc.prems by (simp add: tree_siblings_def)
  have b: "bit i k \<longleftrightarrow> odd ?p" by (simp flip: bit_unat add: bit_iff_odd)
  have "proof_pair H ?ss (xs ! unat i) i k = (thash H xs k (2 * ?q), thash H xs k (2 * ?q + 1))"
    unfolding d using Suc s b by (cases "even ?p") (simp_all add: proof_pair_def sibling_index_def)
  then show ?case using proof_hash_Suc [OF k, of H] thash_node [OF q, of H] by simp
qed

lemma proof_complete:
  assumes i: "unat i < length xs" and n: "length xs \<le> 2 ^ 63"
  shows "accumulator_proof_verify H \<lparr>ap_siblings = tree_siblings H xs (unat i)\<rparr> (tree_root H xs) (xs ! unat i) i = Inr ()"
proof -
  let ?L = "root_level (length xs)"
  have "?L \<le> 63" using n by (rule root_level_le)
  have "0 < length xs" using i by linarith
  from root_level_bounds(1) [OF this] i have "unat i div 2 ^ ?L = 0" by simp
  with tree_siblings_hash [OF i order_refl, of H] have "proof_hash H (tree_siblings H xs (unat i)) (xs ! unat i) i ?L = tree_root H xs"
    by (simp add: tree_root_def)
  with \<open>?L \<le> 63\<close> show ?thesis by (simp add: verify_iff tree_siblings_def)
qed

section \<open>Extension\<close>

text \<open>
  Whether the operations succeed depends on the number of roots only, so their success on any
  roots follows from their success on the roots of some tree.
\<close>

lemma merge_last_length:
  "merge_last H j r = (Inr a :: ('e, _) result) \<Longrightarrow> length r' = length r \<Longrightarrow>
   \<exists>b. merge_last H j r' = (Inr b :: ('f, _) result) \<and> length b = length a"
proof (induction j arbitrary: r r')
  case (Suc j)
  show ?case
  proof (cases r rule: rev_cases)
    case Nil
    with Suc.prems show ?thesis by simp
  next
    case (snoc q y)
    show ?thesis
    proof (cases q rule: rev_cases)
      case Nil
      with Suc.prems snoc show ?thesis by (simp add: vec_pop_def)
    next
      case (snoc p x)
      with \<open>r = q @ [y]\<close> have r: "r = (p @ [x]) @ [y]" by simp
      obtain q' y' where q': "r' = q' @ [y']" using Suc.prems(2) r by (cases r' rule: rev_cases) auto
      then obtain p' x' where r': "r' = (p' @ [x']) @ [y']" using Suc.prems(2) r by (cases q' rule: rev_cases) auto
      have "merge_last H j (p @ [H x y]) = (Inr a :: ('e, _) result)"
        using Suc.prems(1) unfolding r by (simp del: append_assoc)
      moreover have "length (p' @ [H x' y']) = length (p @ [H x y])" using Suc.prems(2) r r' by simp
      ultimately obtain b where "merge_last H j (p' @ [H x' y']) = (Inr b :: ('f, _) result)" "length b = length a"
        using Suc.IH by blast
      then show ?thesis unfolding r' by (simp del: append_assoc)
    qed
  qed
qed auto

lemma append_loop_length:
  "append_loop H xs r n = (Inr (a, m) :: ('e, _) result) \<Longrightarrow> length r' = length r \<Longrightarrow>
   \<exists>b. append_loop H xs r' n = (Inr (b, m) :: ('f, _) result) \<and> length b = length a"
proof (induction xs arbitrary: r r' n)
  case (Cons x xs)
  from Cons.prems(1) obtain r1 where r1: "append_one H r n x = (Inr r1 :: ('e, _) result)"
    and rec: "append_loop H xs r1 (n + 1) = (Inr (a, m) :: ('e, _) result)"
    by (auto simp: result_simps)
  from r1 Cons.prems(2) obtain r2 where "append_one H r' n x = (Inr r2 :: ('f, _) result)" "length r2 = length r1"
    using merge_last_length [of H _ "r @ [x]" r1 "r' @ [x]"] by (auto simp: append_one_def Let_def)
  with Cons.IH [OF rec] show ?case by auto
qed auto

lemma compute_root_loop_length:
  "compute_root_loop H b h r = (Inr a :: ('e, _) result) \<Longrightarrow> length r' = length r \<Longrightarrow>
   \<exists>c. compute_root_loop H b h' r' = (Inr c :: ('f, _) result)"
proof (induction H b h r arbitrary: r' h' rule: compute_root_loop.induct)
  case (1 H b h r)
  show ?case
  proof (cases "b > 0")
    case False
    then show ?thesis by (subst compute_root_loop.simps) simp
  next
    case True
    show ?thesis
    proof (cases "b AND 1 \<noteq> 0")
      case odd: True
      with True "1.prems" obtain x rest where r: "r = x # rest"
        by (subst (asm) compute_root_loop.simps) (auto split: list.splits)
      then obtain x' rest' where r': "r' = x' # rest'" "length rest' = length rest" using "1.prems"(2) by (cases r') auto
      have "compute_root_loop H (shr b 1) (H x h) rest = (Inr a :: ('e, _) result)"
        using "1.prems"(1) True odd r by (subst (asm) compute_root_loop.simps) simp
      from "1.IH"(1) [OF True odd r this r'(2), of "H x' h'"] show ?thesis
        using True odd r' by (subst compute_root_loop.simps) simp
    next
      case even: False
      have "compute_root_loop H (shr b 1) (H h ACCUMULATOR_PLACEHOLDER_HASH) r = (Inr a :: ('e, _) result)"
        using "1.prems"(1) True even by (subst (asm) compute_root_loop.simps) simp
      from "1.IH"(2) [OF True even this "1.prems"(2), of "H h' ACCUMULATOR_PLACEHOLDER_HASH"] show ?thesis
        using True even by (subst compute_root_loop.simps) simp
    qed
  qed
qed

lemma compute_root_hash_length:
  assumes "compute_root_hash H r n = (Inr a :: ('e, _) result)" "length r' = length r"
  shows "\<exists>c. compute_root_hash H r' n = (Inr c :: ('f, _) result)"
proof -
  consider "r = []" | x where "r = [x]" | x y z where "r = x # y # z" by (metis list.exhaust)
  then show ?thesis
  proof cases
    case 3
    then obtain x' y' z' where r': "r' = x' # y' # z'"
      using assms(2) by (metis length_Suc_conv length_Cons)
    show ?thesis using assms compute_root_loop_length [of H "shr n (trailing_zeros n)" ACCUMULATOR_PLACEHOLDER_HASH "rev r" a "rev r'"] 3 r'
      by (simp add: compute_root_hash_def)
  qed (use assms in \<open>auto simp: compute_root_hash_def length_Suc_conv\<close>)
qed

lemma accumulator_new_ok:
  "(\<exists>acc. accumulator_new H r n = Inr acc) \<longleftrightarrow> length r = count_ones n"
proof
  assume l: "length r = count_ones n"
  define xs :: "hash_value list" where "xs = replicate (unat n) 0"
  have n: "length xs < 2 ^ 64" "of_nat (length xs) = n" using unat_u64_lt [of n] by (simp_all add: xs_def)
  have "length r = length (tree_frozen H xs)" using l length_tree_frozen [OF n(1), of H] n(2) by simp
  from compute_root_hash_length [OF compute_root_hash_tree [OF n(1), of H] this]
  obtain c where "compute_root_hash H r n = (Inr c :: (string, _) result)" unfolding n(2) by blast
  with l show "\<exists>acc. accumulator_new H r n = Inr acc" by (simp add: accumulator_new_def)
qed (auto simp: accumulator_new_def result_simps)

lemma append_leaves_ok:
  assumes "length (frozen_subtree_roots acc) = count_ones (num_leaves acc)" "unat (num_leaves acc) + length xs < 2 ^ 64"
  shows "\<exists>acc'. append_leaves H acc xs = (Inr acc' :: ('e, _) result) \<and> num_leaves acc' = num_leaves acc + of_nat (length xs)"
proof -
  let ?n = "num_leaves acc"
  define ys :: "hash_value list" where "ys = replicate (unat ?n) 0"
  have n: "length ys < 2 ^ 64" "of_nat (length ys) = ?n" "length ys + length xs < 2 ^ 64"
    using assms(2) by (simp_all add: ys_def)
  have "length (frozen_subtree_roots acc) = length (tree_frozen H ys)"
    using assms(1) length_tree_frozen [OF n(1), of H] n(2) by simp
  from append_loop_length [OF append_loop_tree [OF n(3), of H] this]
  obtain b where b: "append_loop H xs (frozen_subtree_roots acc) ?n = (Inr (b, of_nat (length (ys @ xs))) :: ('e, _) result)"
    "length b = length (tree_frozen H (ys @ xs))" unfolding n(2) by blast
  have "length b = count_ones (of_nat (length (ys @ xs)))"
    using b(2) length_tree_frozen [of "ys @ xs" H] n(3) by simp
  then obtain acc' where a: "accumulator_new H b (of_nat (length (ys @ xs))) = Inr acc'"
    using accumulator_new_ok by blast
  moreover from a have "num_leaves acc' = of_nat (length (ys @ xs))" by (auto simp: accumulator_new_def result_simps)
  ultimately show ?thesis using b(1) n(2) by (simp add: append_leaves_def)
qed


section \<open>Properties\<close>

text \<open>
  C10: An inclusion proof is complete: for every leaf of an accumulator of at most \<open>2^63\<close> leaves,
  the siblings on the path from the leaf to the root are accepted by the verifier.
\<close>

theorem inclusion_proof_verifies:
  "unat i < length xs \<Longrightarrow> length xs \<le> 2 ^ 63 \<Longrightarrow>
   accumulator_proof_verify H \<lparr>ap_siblings = tree_siblings H xs (unat i)\<rparr> (tree_root H xs) (xs ! unat i) i = Inr ()"
  by (rule proof_complete)

theorem inclusion_proof_verifies_witness:
  "accumulator_proof_verify (\<lambda>a b. 2 * a + 3 * b) \<lparr>ap_siblings = [11]\<rparr>
     (tree_root (\<lambda>a b. 2 * a + 3 * b) [11, 22]) 22 1 = Inr ()"
proof -
  let ?H = "\<lambda>a b. 2 * a + 3 * b :: hash_value"
  have "root_level (length [11, 22 :: hash_value]) = 1" by (rule root_level_unique) simp_all
  then have "tree_siblings ?H [11, 22] 1 = [11]" by (simp add: tree_siblings_def sibling_index_def thash.simps)
  then show ?thesis using inclusion_proof_verifies [of 1 "[11, 22]" ?H] by simp
qed

text \<open>
  C6: An inclusion proof is sound: if the verifier accepts \<open>h\<close> as the element of index \<open>i\<close> for the
  root hash of the accumulator over \<open>xs\<close>, and the pairs hashed by the tree and by the verifier
  neither collide nor hash to a leaf, to \<open>h\<close> or to the placeholder, then the proof has exactly as
  many siblings as the tree has levels and \<open>h\<close> is the leaf of \<open>xs\<close> at \<open>i\<close> modulo the width of the
  tree, which is \<open>i\<close> itself for every index the ledger information admits.
\<close>

theorem inclusion_proof_sound:
  "accumulator_proof_verify H pf (tree_root H xs) h i = Inr () \<Longrightarrow>
   collision_free H (tree_pairs H xs \<union> proof_pairs H (ap_siblings pf) h i)
     (insert ACCUMULATOR_PLACEHOLDER_HASH (insert h (set xs))) \<Longrightarrow>
   h \<noteq> ACCUMULATOR_PLACEHOLDER_HASH \<Longrightarrow>
   length (ap_siblings pf) = root_level (length xs) \<and>
   unat i mod 2 ^ root_level (length xs) < length xs \<and> xs ! (unat i mod 2 ^ root_level (length xs)) = h \<and>
   (unat i < length xs \<longrightarrow> xs ! unat i = h)"
proof -
  let ?L = "root_level (length xs)"
  assume "accumulator_proof_verify H pf (tree_root H xs) h i = Inr ()"
    and cf: "collision_free H (tree_pairs H xs \<union> proof_pairs H (ap_siblings pf) h i)
      (insert ACCUMULATOR_PLACEHOLDER_HASH (insert h (set xs)))"
    and h: "h \<noteq> ACCUMULATOR_PLACEHOLDER_HASH"
  then have "proof_hash H (ap_siblings pf) h i (length (ap_siblings pf)) = tree_root H xs" by (simp add: verify_iff)
  from proof_sound [OF cf h this]
  have r: "length (ap_siblings pf) = ?L" "unat i mod 2 ^ ?L < length xs" "xs ! (unat i mod 2 ^ ?L) = h" by auto
  moreover have "unat i mod 2 ^ ?L = unat i" if "unat i < length xs"
    using root_level_bounds(1) [of "length xs"] that by (intro mod_less) linarith
  ultimately show ?thesis by auto
qed

theorem inclusion_proof_sound_witness:
  "accumulator_proof_verify (\<lambda>a b. 2 * a + 3 * b) \<lparr>ap_siblings = [11]\<rparr>
     (tree_root (\<lambda>a b. 2 * a + 3 * b) [11, 22]) 22 1 = Inr () \<and> [11, 22 :: hash_value] ! 1 = 22"
proof -
  let ?H = "\<lambda>a b. 2 * a + 3 * b :: hash_value" and ?pf = "\<lparr>ap_siblings = [11]\<rparr>"
  have L: "root_level (length [11, 22 :: hash_value]) = 1" by (rule root_level_unique) simp_all
  then have root: "tree_root ?H [11, 22] = 88" by (simp add: tree_root_def thash.simps)
  have v: "accumulator_proof_verify ?H ?pf 88 22 1 = Inr ()" by code_simp
  have pp: "proof_pairs ?H [11] 22 1 = {(11, 22)}" by (simp add: proof_pairs_def proof_pair_def proof_hash_def lessThan_Suc)
  have tp: "tree_pairs ?H [11, 22] = {(11, 22)}"
    using L by (auto simp: tree_pairs_def thash.simps intro: exI [of _ 0])
  have cf: "collision_free ?H (tree_pairs ?H [11, 22] \<union> proof_pairs ?H (ap_siblings ?pf) 22 1)
     (insert ACCUMULATOR_PLACEHOLDER_HASH (insert 22 (set [11, 22])))"
    by (simp add: pp tp collision_free_def ACCUMULATOR_PLACEHOLDER_HASH_value)
  from inclusion_proof_sound [of ?H ?pf "[11, 22]" 22 1] v cf
  show ?thesis by (simp add: root ACCUMULATOR_PLACEHOLDER_HASH_value)
qed



text \<open>
  C36: An extension proof does not bind the number of leaves to the root hash it is verified against:
  for every root hash and every power of two there is a proof with that number of leaves, the root
  as its only frozen subtree and no new leaf, which the verifier accepts. The number of leaves of
  the result, and so its version, is the prover's choice.
\<close>

theorem extension_proof_unbound_version:
  "k < 64 \<Longrightarrow> \<exists>acc. accumulator_extension_proof_verify H
     \<lparr>aep_frozen_subtree_roots = [root], aep_num_leaves = 2 ^ k, aep_leaves = []\<rparr> root = Inr acc \<and>
     root_hash acc = root \<and> num_leaves acc = 2 ^ k \<and> accumulator_version acc = 2 ^ k - 1"
proof -
  assume k: "k < 64"
  have p: "(2 ^ k :: u64) = onebit k" by (simp add: onebit_def)
  have c: "count_ones (2 ^ k) = 1"
  proof -
    have "filter (bit (onebit k)) [0..<64] = [k]"
    proof -
      have "[0..<64] = [0..<k] @ k # [Suc k..<64]" using k upt_split [of k 64] upt_conv_Cons [of k 64] by simp
      then show ?thesis using k by (simp add: bit_onebit)
    qed
    then show ?thesis unfolding p by (simp add: count_ones_def)
  qed
  have "unat (2 ^ k :: u64) = 2 ^ k" unfolding p using k by (rule unat_onebit)
  then have "(2 ^ k :: u64) \<noteq> 0" by (metis power_not_zero unat_0 zero_neq_numeral)
  with c show ?thesis
    by (simp add: accumulator_extension_proof_verify_def accumulator_new_def compute_root_hash_def append_leaves_def accumulator_version_def)
qed

theorem extension_proof_unbound_version_witness:
  "\<exists>acc. accumulator_extension_proof_verify (\<lambda>a b. 2 * a + 3 * b)
     \<lparr>aep_frozen_subtree_roots = [7], aep_num_leaves = 2 ^ 40, aep_leaves = []\<rparr> 7 = Inr acc \<and> accumulator_version acc = 2 ^ 40 - 1"
  using extension_proof_unbound_version [of 40 "\<lambda>a b. 2 * a + 3 * b" 7] by auto

end
