(* ===== verification/Accumulator_Range.thy ===== *)
theory Accumulator_Range
  imports Accumulator_Proof
begin

text \<open>
  The range proof's verifier related to the tree: it accepts the siblings the tree has on both
  sides of a range, and, as long as the hashes at hand do not collide, it accepts nothing else.
\<close>

section \<open>Positions of the ancestors of a leaf\<close>

definition ancestor_pos :: "u64 \<Rightarrow> nat \<Rightarrow> position" where
  "ancestor_pos i k = (if k \<le> 63 then Position (node_val k ((unat i mod 2 ^ 63) div 2 ^ k)) else Position (- 1))"

lemma ancestor_pos_0: "from_leaf_index i = ancestor_pos i 0"
proof -
  have "node_val 0 (unat i mod 2 ^ 63) = push_bit 1 i"
  proof (rule bit_word_eqI)
    fix n assume "n < LENGTH(64)"
    then show "bit (node_val 0 (unat i mod 2 ^ 63)) n \<longleftrightarrow> bit (push_bit 1 i) n"
      unfolding take_bit_eq_mod [symmetric]
      by (auto simp only: bit_node_val bit_push_bit_iff bit_take_bit_iff bit_unat) auto
  qed
  then show ?thesis
    by (simp add: ancestor_pos_def from_leaf_index_def from_level_and_pos_def shl_def)
qed

lemma node_val_63: "node_val 63 p = mask 63"
  by (rule bit_word_eqI) (auto simp: bit_node_val bit_mask_iff)

lemma ancestor_pos_parent: "parent (ancestor_pos i k) = ancestor_pos i (Suc k)"
proof -
  have top: "parent (Position (mask 63)) = Position (- 1)" "parent (Position (- 1)) = Position (- 1)"
    by code_simp+
  have d: "j div 2 ^ k div 2 = j div 2 ^ Suc k" for j :: nat by (simp only: power_Suc2 div_mult2_eq)
  consider "k < 63" | "k = 63" | "63 < k" by linarith
  then show ?thesis
    by cases (simp_all add: ancestor_pos_def parent_node d node_val_63 top del: power_Suc)
qed

lemma ancestor_pos_right: "is_right_child (ancestor_pos i k) \<longleftrightarrow> odd ((unat i mod 2 ^ 63) div 2 ^ k)"
proof -
  have top: "is_left_child (Position (mask 63))" "is_left_child (Position (- 1))"
    by code_simp+
  have z: "(unat i mod 2 ^ 63) div 2 ^ k = 0" if "63 \<le> k"
  proof -
    have "(2::nat) ^ 63 \<le> 2 ^ k" using that by (rule power_increasing) simp
    moreover have "unat i mod 2 ^ 63 < 2 ^ 63" by simp
    ultimately show ?thesis by (intro div_less) linarith
  qed
  consider "k < 63" | "k = 63" | "63 < k" by linarith
  then show ?thesis
    by cases (simp_all add: ancestor_pos_def is_right_child_def is_left_child_node node_val_63 top z [simplified])
qed

section \<open>One level\<close>

definition left_taken :: "position \<Rightarrow> nat" where
  "left_taken pos = (if is_right_child pos then 1 else 0)"

definition right_taken :: "position \<Rightarrow> nat \<Rightarrow> nat" where
  "right_taken pos n = (if odd (left_taken pos + n) then 1 else 0)"

definition level_children ::
    "position \<Rightarrow> hash_value list \<Rightarrow> hash_value list \<Rightarrow> hash_value list \<Rightarrow> hash_value list" where
  "level_children pos hs l r = take (left_taken pos) l @ hs @ take (right_taken pos (length hs)) r"

lemma pair_up_append_even: "even (length xs) \<Longrightarrow> pair_up H (xs @ ys) = pair_up H xs @ pair_up H ys"
  by (induction H xs rule: pair_up.induct) auto

lemma range_level_eq:
  assumes "hs \<noteq> []"
  shows "range_level H pos hs l r =
    (if length l < left_taken pos then Inl (Err ''First child is a right child, but missing sibling on the left.'')
     else if length r < right_taken pos (length hs) then Inl (Err ''Last child is a left child, but missing sibling on the right.'')
     else Inr (pair_up H (level_children pos hs l r), drop (left_taken pos) l, drop (right_taken pos (length hs)) r))"
proof -
  have rest: "(case chunks_remainder ch of
          [] \<Rightarrow> Inr (ps @ pair_up H ch, l', r)
        | left_hash # _ \<Rightarrow>
            rbind (ok_or (case r of [] \<Rightarrow> None | x # r' \<Rightarrow> Some (x, r'))
                     ''Last child is a left child, but missing sibling on the right.'') (\<lambda>(right_hash, r').
            Inr ((ps @ pair_up H ch) @ [H left_hash right_hash], l', r'))) =
       (let b = (if odd (length ch) then 1 else 0)
        in if length r < b then Inl (Err ''Last child is a left child, but missing sibling on the right.'')
           else Inr (ps @ pair_up H (ch @ take b r), l', drop b r))" for ps ch l'
    using chunks_remainder_length [of ch]
    by (auto simp: pair_up_snoc Let_def split: list.splits)
  show ?thesis
  proof (cases "is_right_child pos")
    case False
    then show ?thesis
      by (simp add: range_level_def rest [of "[]", simplified] left_taken_def right_taken_def level_children_def Let_def)
  next
    case True
    then show ?thesis using assms
      by (cases l; cases hs)
        (simp_all add: range_level_def rest [of "[x]" for x, simplified] left_taken_def right_taken_def
          level_children_def Let_def)
  qed
qed


lemma level_children_even:
  "left_taken pos \<le> length l \<Longrightarrow> right_taken pos (length hs) \<le> length r \<Longrightarrow> even (length (level_children pos hs l r))"
  by (auto simp: level_children_def right_taken_def left_taken_def split: if_splits)

section \<open>Completeness\<close>

definition range_hashes :: "node_hasher \<Rightarrow> hash_value list \<Rightarrow> nat \<Rightarrow> nat \<Rightarrow> nat \<Rightarrow> hash_value list" where
  "range_hashes H xs k a b = map (thash H xs k) [a..<Suc b]"

lemma pair_up_range:
  assumes "even a" "\<And>p. a \<le> 2 * p \<Longrightarrow> p \<le> b \<Longrightarrow> p * 2 ^ Suc k < length xs" "a div 2 \<le> b"
  shows "pair_up H (map (thash H xs k) [a..<2 * b + 2]) = range_hashes H xs (Suc k) (a div 2) b"
  using assms
proof (induction "b - a div 2" arbitrary: a)
  case 0
  then have b: "b = a div 2" by simp
  then have "2 * b = a" using 0 by simp
  then have u: "[a..<2 * b + 2] = [2 * b, 2 * b + 1]" by simp
  have "b * 2 ^ Suc k < length xs" using 0 b by simp
  then show ?case using thash_node [of b k xs H] b unfolding u by (simp add: range_hashes_def)
next
  case (Suc d)
  define q where "q = a div 2"
  have a: "a = 2 * q" using Suc.prems(1) by (simp add: q_def)
  have qb: "q < b" using Suc.hyps(2) by (simp add: q_def)
  have u: "[a..<2 * b + 2] = 2 * q # (2 * q + 1) # [2 * (q + 1)..<2 * b + 2]"
    using qb unfolding a by (simp add: upt_conv_Cons)
  have "q * 2 ^ Suc k < length xs" using Suc.prems(2) [of q] qb a by simp
  note node = thash_node [OF this, of H]
  have "pair_up H (map (thash H xs k) [2 * (q + 1)..<2 * b + 2]) = range_hashes H xs (Suc k) (2 * (q + 1) div 2) b"
  proof (rule Suc.hyps(1))
    show "d = b - 2 * (q + 1) div 2" using Suc.hyps(2) unfolding q_def [symmetric] by simp
    show "p * 2 ^ Suc k < length xs" if "2 * (q + 1) \<le> 2 * p" "p \<le> b" for p
      using Suc.prems(2) [of p] that a by simp
  qed (use qb in simp_all)
  moreover have "range_hashes H xs (Suc k) q b = thash H xs (Suc k) q # range_hashes H xs (Suc k) (q + 1) b"
    using qb by (simp add: range_hashes_def upt_conv_Cons)
  ultimately show ?case using node unfolding u q_def [symmetric] by simp
qed

definition tree_left_siblings :: "node_hasher \<Rightarrow> hash_value list \<Rightarrow> nat \<Rightarrow> nat \<Rightarrow> hash_value list" where
  "tree_left_siblings H xs k i =
     map (\<lambda>k. thash H xs k (i div 2 ^ k - 1)) (filter (\<lambda>k. odd (i div 2 ^ k)) [k..<root_level (length xs)])"

definition tree_right_siblings :: "node_hasher \<Rightarrow> hash_value list \<Rightarrow> nat \<Rightarrow> nat \<Rightarrow> hash_value list" where
  "tree_right_siblings H xs k j =
     map (\<lambda>k. thash H xs k (j div 2 ^ k + 1)) (filter (\<lambda>k. even (j div 2 ^ k)) [k..<root_level (length xs)])"

lemma tree_left_siblings_Suc:
  "k < root_level (length xs) \<Longrightarrow> tree_left_siblings H xs k i =
     (if odd (i div 2 ^ k) then [thash H xs k (i div 2 ^ k - 1)] else []) @ tree_left_siblings H xs (Suc k) i"
  by (simp add: tree_left_siblings_def upt_conv_Cons del: power_Suc)

lemma tree_right_siblings_Suc:
  "k < root_level (length xs) \<Longrightarrow> tree_right_siblings H xs k j =
     (if even (j div 2 ^ k) then [thash H xs k (j div 2 ^ k + 1)] else []) @ tree_right_siblings H xs (Suc k) j"
  by (simp add: tree_right_siblings_def upt_conv_Cons del: power_Suc)

lemma div_pow_Suc: "(n::nat) div 2 ^ Suc k = n div 2 ^ k div 2"
  by (simp only: power_Suc2 div_mult2_eq)

lemma range_level_tree:
  fixes i :: u64 and j :: nat
  defines "f \<equiv> \<lambda>k. unat i div 2 ^ k" and "e \<equiv> \<lambda>k. j div 2 ^ k"
  assumes i: "unat i \<le> j" and j: "j < length xs" and i63: "unat i < 2 ^ 63" and k: "k < root_level (length xs)"
  shows "range_level H (ancestor_pos i k) (range_hashes H xs k (f k) (e k))
      (tree_left_siblings H xs k (unat i)) (tree_right_siblings H xs k j) =
    Inr (range_hashes H xs (Suc k) (f (Suc k)) (e (Suc k)),
         tree_left_siblings H xs (Suc k) (unat i), tree_right_siblings H xs (Suc k) j)"
proof -
  have fe: "f k \<le> e k" unfolding f_def e_def using i by (rule div_le_mono)
  have right: "is_right_child (ancestor_pos i k) \<longleftrightarrow> odd (f k)"
    using i63 by (simp add: ancestor_pos_right f_def)
  have lt: "left_taken (ancestor_pos i k) = (if odd (f k) then 1 else 0)" by (simp add: left_taken_def right)
  have len: "length (range_hashes H xs k (f k) (e k)) = Suc (e k) - f k"
    using fe by (simp add: range_hashes_def Suc_diff_le)
  have tl: "tree_left_siblings H xs k (unat i) =
      (if odd (f k) then [thash H xs k (f k - 1)] else []) @ tree_left_siblings H xs (Suc k) (unat i)"
    unfolding f_def by (rule tree_left_siblings_Suc [OF k])
  have tr: "tree_right_siblings H xs k j =
      (if even (e k) then [thash H xs k (e k + 1)] else []) @ tree_right_siblings H xs (Suc k) j"
    unfolding e_def by (rule tree_right_siblings_Suc [OF k])
  have rt: "right_taken (ancestor_pos i k) (Suc (e k) - f k) = (if even (e k) then 1 else 0)"
    using fe by (auto simp: right_taken_def lt)
  let ?hs = "range_hashes H xs k (f k) (e k)"
  define a where "a = 2 * f (Suc k)"
  define b where "b = e (Suc k)"
  have fa: "f k = (if odd (f k) then a + 1 else a)" "e k = (if even (e k) then 2 * b else 2 * b + 1)"
    unfolding a_def b_def f_def e_def div_pow_Suc by auto
  have takes: "take (left_taken (ancestor_pos i k)) (tree_left_siblings H xs k (unat i))
       = (if odd (f k) then [thash H xs k (f k - 1)] else [])"
     "take (right_taken (ancestor_pos i k) (Suc (e k) - f k)) (tree_right_siblings H xs k j)
       = (if even (e k) then [thash H xs k (e k + 1)] else [])"
    unfolding lt rt tl tr by simp_all
  have ch: "level_children (ancestor_pos i k) ?hs (tree_left_siblings H xs k (unat i)) (tree_right_siblings H xs k j)
      = map (thash H xs k) [a..<2 * b + 2]"
  proof -
    have "(if odd (f k) then [thash H xs k (f k - 1)] else []) = map (thash H xs k) [a..<f k]"
      using fa(1) by (cases "odd (f k)") simp_all
    moreover have "(if even (e k) then [thash H xs k (e k + 1)] else []) = map (thash H xs k) [Suc (e k)..<2 * b + 2]"
      using fa(2) by (cases "even (e k)") simp_all
    moreover have "[a..<2 * b + 2] = [a..<f k] @ [f k..<Suc (e k)] @ [Suc (e k)..<2 * b + 2]"
    proof -
      have "a \<le> f k" "Suc (e k) \<le> 2 * b + 2" using fa by (simp_all split: if_splits)
      then have "[a..<2 * b + 2] = [a..<f k] @ [f k..<2 * b + 2]" "[f k..<2 * b + 2] = [f k..<Suc (e k)] @ [Suc (e k)..<2 * b + 2]"
        using fe by (intro upt_append_split; simp)+
      then show ?thesis by simp
    qed
    ultimately show ?thesis
      unfolding level_children_def len takes by (simp only: range_hashes_def map_append)
  qed
  have "pair_up H (map (thash H xs k) [a..<2 * b + 2]) = range_hashes H xs (Suc k) (a div 2) b"
  proof (rule pair_up_range)
    show "even a" by (simp add: a_def)
    have "f (Suc k) \<le> e (Suc k)" unfolding f_def e_def using i by (rule div_le_mono)
    then show "a div 2 \<le> b" by (simp add: a_def b_def)
    fix p assume "p \<le> b"
    then have "p * 2 ^ Suc k \<le> b * 2 ^ Suc k" by (rule mult_le_mono1)
    also have "\<dots> \<le> j" unfolding b_def e_def by (rule div_times_less_eq_dividend)
    finally show "p * 2 ^ Suc k < length xs" using j by linarith
  qed
  moreover have "?hs \<noteq> []" using fe by (simp add: range_hashes_def)
  ultimately show ?thesis
    using ch unfolding a_def b_def by (simp add: range_level_eq len lt rt tl tr)
qed


lemma range_loop_tree:
  fixes i :: u64
  assumes i: "unat i \<le> j" and j: "j < length xs" and i63: "unat i < 2 ^ 63" and k: "k \<le> root_level (length xs)"
  shows "range_loop H (ancestor_pos i k) (range_hashes H xs k (unat i div 2 ^ k) (j div 2 ^ k))
      (tree_left_siblings H xs k (unat i)) (tree_right_siblings H xs k j) = Inr [tree_root H xs]"
  using k
proof (induction k rule: inc_induct)
  case base
  have "0 < length xs" using j by linarith
  from root_level_bounds(1) [OF this] have "unat i div 2 ^ root_level (length xs) = 0" "j div 2 ^ root_level (length xs) = 0"
    using i j by simp_all
  then show ?case
    by (subst range_loop.simps) (simp add: range_hashes_def tree_left_siblings_def tree_right_siblings_def tree_root_def)
next
  case (step k)
  then have k: "k < root_level (length xs)" by simp
  let ?f = "unat i div 2 ^ k" and ?e = "j div 2 ^ k"
  have fe: "?f \<le> ?e" using i by (rule div_le_mono)
  have ne: "range_hashes H xs k ?f ?e \<noteq> []" using fe by (simp add: range_hashes_def)
  have "1 < length (range_hashes H xs k ?f ?e) \<or> tree_left_siblings H xs k (unat i) \<noteq> [] \<or> tree_right_siblings H xs k j \<noteq> []"
  proof (cases "?f = ?e")
    case True
    then show ?thesis using tree_left_siblings_Suc [OF k, of H "unat i"] tree_right_siblings_Suc [OF k, of H j]
      by (cases "even ?e") simp_all
  next
    case False
    with fe show ?thesis by (simp add: range_hashes_def)
  qed
  with ne show ?case
    by (subst range_loop.simps)
      (simp add: range_level_tree [OF i j i63 k] ancestor_pos_parent step.IH del: power_Suc)
qed

lemma filter_length_le: "length (filter P [0..<n]) \<le> n"
  using length_filter_le [of P "[0..<n]"] by simp

lemma range_proof_complete:
  fixes i :: u64
  assumes m: "0 < m" "unat i + m \<le> length xs" and n: "length xs \<le> 2 ^ 63"
  shows "accumulator_range_proof_verify H
      \<lparr>left_siblings = tree_left_siblings H xs 0 (unat i), right_siblings = tree_right_siblings H xs 0 (unat i + m - 1)\<rparr>
      (tree_root H xs) (Some i) (take m (drop (unat i) xs)) = Inr ()"
proof -
  let ?L = "root_level (length xs)"
  define j where "j = unat i + m - 1"
  have j: "unat i \<le> j" "j < length xs" using m by (simp_all add: j_def)
  have i63: "unat i < 2 ^ 63" using m n by simp
  have L: "?L \<le> 63" using n by (rule root_level_le)
  have hs: "take m (drop (unat i) xs) = range_hashes H xs 0 (unat i div 2 ^ 0) (j div 2 ^ 0)"
  proof (rule nth_equalityI)
    show "length (take m (drop (unat i) xs)) = length (range_hashes H xs 0 (unat i div 2 ^ 0) (j div 2 ^ 0))"
      using m by (simp add: range_hashes_def j_def)
    fix k assume "k < length (take m (drop (unat i) xs))"
    then show "take m (drop (unat i) xs) ! k = range_hashes H xs 0 (unat i div 2 ^ 0) (j div 2 ^ 0) ! k"
      using m by (simp add: range_hashes_def j_def thash.simps nth_append less_Suc_eq)
  qed
  have ne: "take m (drop (unat i) xs) \<noteq> []" using m by simp
  have "length (tree_left_siblings H xs 0 (unat i)) \<le> 63" "length (tree_right_siblings H xs 0 j) \<le> 63"
    using filter_length_le [of _ ?L] L
    by (simp_all add: tree_left_siblings_def tree_right_siblings_def) (meson order_trans)+
  then show ?thesis
    using range_loop_tree [OF j i63, of 0 H] ne unfolding hs j_def [symmetric]
    by (simp add: accumulator_range_proof_verify_def MAX_ACCUMULATOR_PROOF_DEPTH_def ancestor_pos_0)
qed


section \<open>Soundness\<close>

fun adjacent :: "'a list \<Rightarrow> ('a \<times> 'a) list" where
  "adjacent (a # b # rest) = (a, b) # adjacent rest"
| "adjacent _ = []"

lemma pair_up_adjacent: "pair_up H xs = map (case_prod H) (adjacent xs)"
  by (induction H xs rule: pair_up.induct) auto

lemma adjacent_inject: "even (length xs) \<Longrightarrow> even (length ys) \<Longrightarrow> adjacent xs = adjacent ys \<Longrightarrow> xs = ys"
proof (induction xs arbitrary: ys rule: adjacent.induct)
  case (1 a b rest)
  then show ?case by (cases ys rule: adjacent.cases) auto
next
  case "2_1"
  then show ?case by (cases ys rule: adjacent.cases) auto
qed auto

text \<open>The pairs the loop of the verifier hashes.\<close>

function range_pairs ::
    "node_hasher \<Rightarrow> position \<Rightarrow> hash_value list \<Rightarrow> hash_value list \<Rightarrow> hash_value list \<Rightarrow> (hash_value \<times> hash_value) set" where
  "range_pairs H pos hs l r =
     (if hs \<noteq> [] \<and> (length hs > 1 \<or> l \<noteq> [] \<or> r \<noteq> []) then
        (case range_level H pos hs l r of
           Inl _ \<Rightarrow> {}
         | Inr (hs', l', r') \<Rightarrow> set (adjacent (level_children pos hs l r)) \<union> range_pairs H (parent pos) hs' l' r')
      else {})"
  by pat_completeness auto
termination
  by (relation "measure (\<lambda>(H, pos, hs, l, r). length hs + length l + length r)")
    (use range_level_length(2) in fastforce)+

declare range_pairs.simps [simp del]

lemma children_of_tree:
  assumes cf: "collision_free H P V" and V: "ACCUMULATOR_PLACEHOLDER_HASH \<in> V"
    and P: "set (adjacent cs) \<subseteq> P" "tree_pairs H xs \<subseteq> P"
    and cs: "even (length cs)" "pair_up H cs = map (thash H xs (Suc l)) [q..<q + n]" and l: "l < root_level (length xs)"
  shows "cs = map (thash H xs l) [2 * q..<2 * q + 2 * n]"
  using cs P(1)
proof (induction cs arbitrary: q n rule: adjacent.induct)
  case (1 a b rest)
  then obtain m where n: "n = Suc m" by (cases n) auto
  have u: "[q..<q + n] = q # [Suc q..<Suc q + m]" using n by (simp add: upt_conv_Cons del: upt_Suc)
  from "1.prems"(2) have ab: "H a b = thash H xs (Suc l) q" and rest: "pair_up H rest = map (thash H xs (Suc l)) [Suc q..<Suc q + m]"
    unfolding u by simp_all
  have ap: "(a, b) \<in> P" using "1.prems"(3) by simp
  have nq: "q * 2 ^ Suc l < length xs"
  proof (rule ccontr)
    assume "\<not> q * 2 ^ Suc l < length xs"
    then have "thash H xs (Suc l) q = ACCUMULATOR_PLACEHOLDER_HASH" by (intro thash_placeholder) simp
    with ab collision_freeD(2) [OF cf ap, of ACCUMULATOR_PLACEHOLDER_HASH] V show False by simp
  qed
  have "(a, b) = (thash H xs l (2 * q), thash H xs l (2 * q + 1))"
    using collision_freeD(1) [OF cf ap subsetD [OF P(2) tree_pairsI [OF l nq]]] ab thash_node [OF nq, of H] by simp
  moreover have "rest = map (thash H xs l) [2 * Suc q..<2 * Suc q + 2 * m]"
    using "1.prems" rest by (intro "1.IH") simp_all
  moreover have "[2 * q..<2 * q + 2 * n] = 2 * q # (2 * q + 1) # [2 * Suc q..<2 * Suc q + 2 * m]"
    unfolding n by (simp add: upt_conv_Cons del: upt_Suc)
  ultimately show ?case by simp
next
  case "2_1"
  then show ?case by simp
next
  case "2_2"
  then show ?case by simp
qed

lemma range_loop_sound:
  fixes i :: u64
  assumes cf: "collision_free H P V" and V: "ACCUMULATOR_PLACEHOLDER_HASH \<in> V" "set xs \<subseteq> V"
    and P: "tree_pairs H xs \<subseteq> P"
  shows "range_loop H (ancestor_pos i k) hs l r = Inr [tree_root H xs] \<Longrightarrow>
    range_pairs H (ancestor_pos i k) hs l r \<subseteq> P \<Longrightarrow>
    \<exists>m \<le> root_level (length xs). hs = map (thash H xs (root_level (length xs) - m))
        [((unat i mod 2 ^ 63) div 2 ^ k) mod 2 ^ m ..< ((unat i mod 2 ^ 63) div 2 ^ k) mod 2 ^ m + length hs]"
proof (induction "length hs + length l + length r" arbitrary: k hs l r rule: less_induct)
  case less
  let ?L = "root_level (length xs)" and ?f = "\<lambda>k. (unat i mod 2 ^ 63) div 2 ^ k"
  have ne: "hs \<noteq> []" using less.prems(1) by (subst (asm) range_loop.simps) (auto split: if_splits)
  show ?case
  proof (cases "1 < length hs \<or> l \<noteq> [] \<or> r \<noteq> []")
    case False
    then have "hs = [tree_root H xs]" using less.prems(1) ne by (subst (asm) range_loop.simps) simp
    then show ?thesis by (intro exI [of _ 0]) (simp add: tree_root_def)
  next
    case True
    let ?pos = "ancestor_pos i k"
    from less.prems(1) True ne obtain hs' l' r' where lv: "range_level H ?pos hs l r = Inr (hs', l', r')"
      and rec: "range_loop H (ancestor_pos i (Suc k)) hs' l' r' = Inr [tree_root H xs]"
      by (subst (asm) range_loop.simps) (auto simp: result_simps ancestor_pos_parent)
    have pr: "range_pairs H ?pos hs l r = set (adjacent (level_children ?pos hs l r)) \<union> range_pairs H (ancestor_pos i (Suc k)) hs' l' r'"
      using True ne lv by (subst range_pairs.simps) (simp add: ancestor_pos_parent)
    have sub: "set (adjacent (level_children ?pos hs l r)) \<subseteq> P" "range_pairs H (ancestor_pos i (Suc k)) hs' l' r' \<subseteq> P"
      using less.prems(2) pr by simp_all
    from lv have tk: "left_taken ?pos \<le> length l" "right_taken ?pos (length hs) \<le> length r"
      and hs': "hs' = pair_up H (level_children ?pos hs l r)"
      by (simp_all add: range_level_eq [OF ne] split: if_splits)
    obtain m where m: "m \<le> ?L" "hs' = map (thash H xs (?L - m)) [?f (Suc k) mod 2 ^ m..<?f (Suc k) mod 2 ^ m + length hs']"
      using less.hyps [OF range_level_length(2) [OF lv ne] rec sub(2)] by blast
    define q where "q = ?f (Suc k) mod 2 ^ m"
    have ne': "hs' \<noteq> []" using range_level_length(1) [OF lv ne] .
    have mL: "m < ?L"
    proof (rule ccontr)
      assume "\<not> m < ?L"
      then have "hs' = map (thash H xs 0) [q..<q + length hs']" using m by (simp add: q_def)
      then have "hd hs' = hd (map (thash H xs 0) [q..<q + length hs'])" by metis
      then have "hd hs' \<in> V" using ne' V by (auto simp: hd_map upt_conv_Cons thash.simps)
      moreover obtain pr where "pr \<in> set (adjacent (level_children ?pos hs l r))" "hd hs' = case_prod H pr"
        using ne' hs' unfolding pair_up_adjacent by (cases "adjacent (level_children ?pos hs l r)") auto
      ultimately show False using collision_freeD(3) [OF cf, of pr] sub(1) by auto
    qed
    define lv where "lv = ?L - Suc m"
    have lvs: "?L - m = Suc lv" "lv < ?L" using mL by (simp_all add: lv_def)
    have cs: "level_children ?pos hs l r = map (thash H xs lv) [2 * q..<2 * q + 2 * length hs']"
      using m hs' lvs unfolding q_def
      by (intro children_of_tree [OF cf V(1) sub(1) P]) (auto simp: level_children_even [OF tk])
    have lc: "length (level_children ?pos hs l r) = 2 * length hs'" unfolding cs by simp
    define c where "c = left_taken ?pos"
    have c: "c = (if odd (?f k) then 1 else 0)" by (simp add: c_def left_taken_def ancestor_pos_right)
    have "hs = take (length hs) (drop c (level_children ?pos hs l r))"
      using tk by (simp add: level_children_def c_def)
    also have "\<dots> = map (thash H xs lv) (take (length hs) (drop c [2 * q..<2 * q + 2 * length hs']))"
      unfolding cs by (simp add: take_map drop_map)
    also have "take (length hs) (drop c [2 * q..<2 * q + 2 * length hs']) = [2 * q + c..<2 * q + c + length hs]"
    proof -
      have "c + length hs \<le> 2 * length hs'"
        unfolding lc [symmetric] using tk by (simp add: level_children_def c_def)
      then show ?thesis by (simp add: drop_upt take_upt)
    qed
    also have "2 * q + c = ?f k mod 2 ^ Suc m"
    proof -
      have "?f (Suc k) = ?f k div 2" by (rule div_pow_Suc)
      moreover have "x mod 2 ^ Suc m = 2 * (x div 2 mod 2 ^ m) + x mod 2" for x :: nat
        by (simp add: mod_mult2_eq)
      moreover have "?f k mod 2 = c" unfolding c by (simp add: odd_iff_mod_2_eq_one)
      ultimately show ?thesis by (simp only: q_def)
    qed
    finally have "hs = map (thash H xs (?L - Suc m)) [?f k mod 2 ^ Suc m..<?f k mod 2 ^ Suc m + length hs]"
      by (simp only: lv_def)
    with mL show ?thesis by (intro exI [of _ "Suc m"]) simp
  qed
qed

lemma range_loop_single:
  "range_loop H pos hs l r = Inr out \<Longrightarrow> length out = 1"
proof (induction H pos hs l r rule: range_loop.induct)
  case (1 H pos hs l r)
  show ?case
  proof (cases "hs \<noteq> [] \<and> (1 < length hs \<or> l \<noteq> [] \<or> r \<noteq> [])")
    case True
    with "1.prems" obtain hs' l' r' where lv: "range_level H pos hs l r = Inr (hs', l', r')"
      and rec: "range_loop H (parent pos) hs' l' r' = Inr out"
      by (subst (asm) range_loop.simps) (auto simp: result_simps)
    then show ?thesis using "1.IH" [of "(hs', l', r')" hs' "(l', r')" l' r'] True by auto
  next
    case False
    with "1.prems" show ?thesis by (subst (asm) range_loop.simps) (auto split: if_splits simp: Suc_le_eq not_less le_Suc_eq)
  qed
qed

lemma range_loop_no_panic:
  "hs \<noteq> [] \<Longrightarrow> range_loop H pos hs l r \<noteq> Inl (Panic msg)"
proof (induction H pos hs l r rule: range_loop.induct)
  case (1 H pos hs l r)
  show ?case
  proof
    assume p: "range_loop H pos hs l r = Inl (Panic msg)"
    then have "1 < length hs \<or> l \<noteq> [] \<or> r \<noteq> []"
      using "1.prems" by (subst (asm) range_loop.simps) (auto split: if_splits)
    moreover have "range_level H pos hs l r \<noteq> Inl (Panic msg)" by (simp add: range_level_eq [OF "1.prems"])
    ultimately obtain hs' l' r' where lv: "range_level H pos hs l r = Inr (hs', l', r')"
      and rec: "range_loop H (parent pos) hs' l' r' = Inl (Panic msg)"
      using p "1.prems" by (subst (asm) range_loop.simps) (auto simp: rbind_eq_Inl)
    then show False
      using "1.IH" [of "(hs', l', r')" hs' "(l', r')" l' r'] "1.prems" range_level_length(1) [OF lv "1.prems"]
        \<open>1 < length hs \<or> l \<noteq> [] \<or> r \<noteq> []\<close> by auto
  qed
qed

lemma verify_range_iff:
  "accumulator_range_proof_verify H pf root (Some i) hs = Inr () \<longleftrightarrow>
     length (left_siblings pf) \<le> 63 \<and> length (right_siblings pf) \<le> 63 \<and> hs \<noteq> [] \<and>
     range_loop H (ancestor_pos i 0) hs (left_siblings pf) (right_siblings pf) = Inr [root]"
proof (cases "range_loop H (ancestor_pos i 0) hs (left_siblings pf) (right_siblings pf)")
  case (Inl e)
  then show ?thesis
    by (simp add: accumulator_range_proof_verify_def ensure_def MAX_ACCUMULATOR_PROOF_DEPTH_def ancestor_pos_0)
next
  case (Inr out)
  then have "length out = 1" by (rule range_loop_single)
  then obtain h where "out = [h]" by (cases out) auto
  with Inr show ?thesis
    by (simp add: accumulator_range_proof_verify_def ensure_def MAX_ACCUMULATOR_PROOF_DEPTH_def ancestor_pos_0)
qed

section \<open>Properties\<close>

text \<open>
  C12: A range proof is complete: for any non-empty range of leaves of an accumulator, the siblings
  of the tree on the left and on the right of the range are accepted by the verifier with the
  root hash of the accumulator.
\<close>

theorem range_proof_verifies:
  "0 < m \<Longrightarrow> unat i + m \<le> length xs \<Longrightarrow> length xs \<le> 2 ^ 63 \<Longrightarrow>
   accumulator_range_proof_verify H
     \<lparr>left_siblings = tree_left_siblings H xs 0 (unat i), right_siblings = tree_right_siblings H xs 0 (unat i + m - 1)\<rparr>
     (tree_root H xs) (Some i) (take m (drop (unat i) xs)) = Inr ()"
  by (rule range_proof_complete)

theorem range_proof_verifies_witness:
  "accumulator_range_proof_verify (\<lambda>a b. 2 * a + 3 * b) \<lparr>left_siblings = [11], right_siblings = [44]\<rparr>
     (tree_root (\<lambda>a b. 2 * a + 3 * b) [11, 22, 33, 44]) (Some 1) [22, 33] = Inr ()"
proof -
  let ?H = "\<lambda>a b. 2 * a + 3 * b :: hash_value"
  have "root_level (length [11, 22, 33, 44 :: hash_value]) = 2" by (rule root_level_unique) simp_all
  then have "tree_left_siblings ?H [11, 22, 33, 44] 0 1 = [11]" "tree_right_siblings ?H [11, 22, 33, 44] 0 (Suc (Suc 0)) = [44]"
    by (simp_all add: tree_left_siblings_def tree_right_siblings_def thash.simps upt_rec_numeral numeral_2_eq_2)
  then show ?thesis using range_proof_verifies [of 2 1 "[11, 22, 33, 44]" ?H] by simp
qed

lemma range_sound:
  "accumulator_range_proof_verify H pf root (Some i) hs \<noteq> Inl (Panic msg) \<and>
   (accumulator_range_proof_verify H pf (tree_root H xs) (Some i) hs = Inr () \<longrightarrow>
    length xs \<le> 2 ^ 63 \<longrightarrow>
    collision_free H (tree_pairs H xs \<union> range_pairs H (from_leaf_index i) hs (left_siblings pf) (right_siblings pf))
      (insert ACCUMULATOR_PLACEHOLDER_HASH (set hs \<union> set xs)) \<longrightarrow>
    ACCUMULATOR_PLACEHOLDER_HASH \<notin> set hs \<longrightarrow>
    unat i mod 2 ^ root_level (length xs) + length hs \<le> length xs \<and>
    take (length hs) (drop (unat i mod 2 ^ root_level (length xs)) xs) = hs)"
proof (intro conjI impI)
  show "accumulator_range_proof_verify H pf root (Some i) hs \<noteq> Inl (Panic msg)"
  proof (cases "range_loop H (ancestor_pos i 0) hs (left_siblings pf) (right_siblings pf)")
    case (Inl e)
    moreover have "e \<noteq> Panic msg" if "hs \<noteq> []" using Inl range_loop_no_panic [OF that] by metis
    ultimately show ?thesis
      by (auto simp: accumulator_range_proof_verify_def ensure_def ancestor_pos_0)
  next
    case (Inr out)
    then have "length out = 1" by (rule range_loop_single)
    then obtain h where "out = [h]" by (cases out) auto
    with Inr show ?thesis
      by (simp add: accumulator_range_proof_verify_def ensure_def ancestor_pos_0)
  qed
next
  let ?L = "root_level (length xs)" and ?V = "insert ACCUMULATOR_PLACEHOLDER_HASH (set hs \<union> set xs)"
  let ?P = "tree_pairs H xs \<union> range_pairs H (from_leaf_index i) hs (left_siblings pf) (right_siblings pf)"
  let ?j = "unat i mod 2 ^ ?L"
  assume v: "accumulator_range_proof_verify H pf (tree_root H xs) (Some i) hs = Inr ()"
    and n: "length xs \<le> 2 ^ 63" and cf: "collision_free H ?P ?V" and ph: "ACCUMULATOR_PLACEHOLDER_HASH \<notin> set hs"
  have L: "?L \<le> 63" using n by (rule root_level_le)
  from v have ne: "hs \<noteq> []" and loop: "range_loop H (ancestor_pos i 0) hs (left_siblings pf) (right_siblings pf) = Inr [tree_root H xs]"
    by (simp_all add: verify_range_iff)
  obtain m where m: "m \<le> ?L" "hs = map (thash H xs (?L - m)) [unat i mod 2 ^ 63 mod 2 ^ m..<unat i mod 2 ^ 63 mod 2 ^ m + length hs]"
    using range_loop_sound [OF cf _ _ _ loop] by (auto simp: ancestor_pos_0)
  have "m = ?L"
  proof (rule ccontr)
    assume "m \<noteq> ?L"
    then obtain l where l: "?L - m = Suc l" "l < ?L" using m(1) by (cases "?L - m") auto
    define q where "q = unat i mod 2 ^ 63 mod 2 ^ m"
    have "hs ! 0 = map (thash H xs (Suc l)) [q..<q + length hs] ! 0" using m(2) l by (simp add: q_def)
    then have h: "hs ! 0 = thash H xs (Suc l) q" using ne by simp
    have h0: "hs ! 0 \<in> set hs" using ne by (intro nth_mem) simp
    with h have q: "q * 2 ^ Suc l < length xs" using ph thash_placeholder [of xs q "Suc l" H] by (metis not_le)
    from collision_freeD(3) [OF cf, of "(thash H xs l (2 * q), thash H xs l (2 * q + 1))"] tree_pairsI [OF l(2) q, of H]
    show False using h h0 thash_node [OF q, of H] by simp
  qed
  moreover have "unat i mod 2 ^ 63 mod 2 ^ ?L = ?j" 
    using le_imp_power_dvd [OF L, of "2::nat"] by (rule mod_mod_cancel)
  ultimately have hs: "hs = map (thash H xs 0) [?j..<?j + length hs]" using m(2) by simp
  have lt: "?j + k < length xs" if "k < length hs" for k
  proof (rule ccontr)
    assume "\<not> ?j + k < length xs"
    moreover have "hs ! k = map (thash H xs 0) [?j..<?j + length hs] ! k" using hs by simp
    ultimately have "hs ! k = ACCUMULATOR_PLACEHOLDER_HASH" using that by (simp add: thash.simps)
    then show False using ph nth_mem [OF that] by simp
  qed
  then show le: "?j + length hs \<le> length xs" using ne by (cases "length hs") force+
  show "take (length hs) (drop ?j xs) = hs"
  proof (rule nth_equalityI)
    show "length (take (length hs) (drop ?j xs)) = length hs" using le by simp
    fix k assume "k < length (take (length hs) (drop ?j xs))"
    then have k: "k < length hs" by simp
    have "hs ! k = map (thash H xs 0) [?j..<?j + length hs] ! k" using hs by simp
    then show "take (length hs) (drop ?j xs) ! k = hs ! k" using k lt [OF k] le by (simp add: thash.simps)
  qed
qed

text \<open>
  C7: A range proof is sound: if the verifier accepts the hashes \<open>hs\<close> as the leaves from index
  \<open>i\<close> on, for the root hash of the accumulator over \<open>xs\<close>, and the pairs hashed on either side
  neither collide nor hash to a leaf or to the placeholder, then the hashes are consecutive leaves
  of \<open>xs\<close>, from the index \<open>i\<close> modulo the width of the tree. The verifier never panics.
\<close>

theorem range_proof_sound:
  "accumulator_range_proof_verify H pf root (Some i) hs \<noteq> Inl (Panic msg) \<and>
   (accumulator_range_proof_verify H pf (tree_root H xs) (Some i) hs = Inr () \<longrightarrow>
    length xs \<le> 2 ^ 63 \<longrightarrow>
    collision_free H (tree_pairs H xs \<union> range_pairs H (from_leaf_index i) hs (left_siblings pf) (right_siblings pf))
      (insert ACCUMULATOR_PLACEHOLDER_HASH (set hs \<union> set xs)) \<longrightarrow>
    ACCUMULATOR_PLACEHOLDER_HASH \<notin> set hs \<longrightarrow>
    unat i mod 2 ^ root_level (length xs) + length hs \<le> length xs \<and>
    take (length hs) (drop (unat i mod 2 ^ root_level (length xs)) xs) = hs)"
  by (rule range_sound)

theorem range_proof_sound_witness:
  "accumulator_range_proof_verify (\<lambda>a b. 2 * a + 3 * b) \<lparr>left_siblings = [11], right_siblings = []\<rparr>
     (tree_root (\<lambda>a b. 2 * a + 3 * b) [11, 22]) (Some 1) [22] = Inr () \<and>
   take 1 (drop 1 [11, 22 :: hash_value]) = [22]"
proof -
  let ?H = "\<lambda>a b. 2 * a + 3 * b :: hash_value" and ?pf = "\<lparr>left_siblings = [11], right_siblings = []\<rparr>"
  have L: "root_level (length [11, 22 :: hash_value]) = 1" by (rule root_level_unique) simp_all
  then have root: "tree_root ?H [11, 22] = 88" by (simp add: tree_root_def thash.simps)
  have v: "accumulator_range_proof_verify ?H ?pf 88 (Some 1) [22] = Inr ()" by code_simp
  have rp: "range_pairs ?H (from_leaf_index 1) [22] [11] [] = {(11, 22)}" by code_simp
  have tp: "tree_pairs ?H [11, 22] = {(11, 22)}"
    using L by (auto simp: tree_pairs_def thash.simps intro: exI [of _ 0])
  have cf: "collision_free ?H (tree_pairs ?H [11, 22] \<union> range_pairs ?H (from_leaf_index 1) [22] [11] [])
     (insert ACCUMULATOR_PLACEHOLDER_HASH (set [22] \<union> set [11, 22]))"
    unfolding rp tp by (simp add: collision_free_def ACCUMULATOR_PLACEHOLDER_HASH_value)
  from range_proof_sound [of ?H ?pf 88 1 "[22]" "[]" "[11, 22]"] v cf L
  show ?thesis by (simp add: root ACCUMULATOR_PLACEHOLDER_HASH_value)
qed

end
