(* ===== verification/Storage_Accumulator.thy ===== *)
theory Storage_Accumulator
  imports Accumulator_Range
begin

text \<open>
  The accumulator over a store of frozen nodes (\<open>storage/accumulator/src/lib.rs\<close>). The trait
  \<open>HashReader\<close> is the parameter \<open>reader\<close>, which may fail on any position.
\<close>

section \<open>Operations\<close>

type_synonym hash_reader = "position \<Rightarrow> hash_value anyhow"
type_synonym node = "position \<times> hash_value"

record merkle_accumulator_view =
  mav_reader :: hash_reader
  mav_num_leaves :: leaf_count

definition hash_internal_node :: "node_hasher \<Rightarrow> hash_value \<Rightarrow> hash_value \<Rightarrow> hash_value" where
  "hash_internal_node H left right = H left right"

definition rightmost_leaf_index :: "merkle_accumulator_view \<Rightarrow> u64" where
  "rightmost_leaf_index self = mav_num_leaves self - 1"

text \<open>
  \<open>get_hash\<close> recurses into the children. A position has at most 64 levels below it, except the all
  ones one, which is its own child: there the recursion of the source exhausts the stack. The
  depth 65 is therefore enough for every call that returns.
\<close>

primrec get_hash_depth :: "nat \<Rightarrow> node_hasher \<Rightarrow> merkle_accumulator_view \<Rightarrow> position \<Rightarrow> hash_value anyhow" where
  "get_hash_depth 0 H self position = Inl (Panic ''stack overflow'')"
| "get_hash_depth (Suc depth) H self position =
     (let idx = rightmost_leaf_index self
      in if is_placeholder position idx then Inr ACCUMULATOR_PLACEHOLDER_HASH
         else if is_freezable position idx then mav_reader self position
         else rbind (left_child position) (\<lambda>lc.
              rbind (get_hash_depth depth H self lc) (\<lambda>left.
              rbind (right_child position) (\<lambda>rc.
              rbind (get_hash_depth depth H self rc) (\<lambda>right.
              Inr (hash_internal_node H left right))))))"

definition get_hash :: "node_hasher \<Rightarrow> merkle_accumulator_view \<Rightarrow> position \<Rightarrow> hash_value anyhow" where
  "get_hash H self position = get_hash_depth 65 H self position"

definition get_hashes :: "node_hasher \<Rightarrow> merkle_accumulator_view \<Rightarrow> position list \<Rightarrow> hash_value list anyhow" where
  "get_hashes H self positions = rmap (get_hash H self) positions"

text \<open>
  The hash of a right child is combined with its left sibling, taken from the siblings created by
  this call (the end of the vector) or else from the store.
\<close>

definition combine_left ::
    "node_hasher \<Rightarrow> hash_reader \<Rightarrow> position \<Rightarrow> hash_value \<Rightarrow> node list \<Rightarrow> (hash_value \<times> node list) anyhow" where
  "combine_left H reader pos hash left_sibs =
     (let sib = sibling pos
      in case vec_pop left_sibs of
           Some ((x, left_hash), left_sibs) \<Rightarrow>
             rbind (assert_that (x = sib) ''assertion failed: left == right'') (\<lambda>_.
             Inr (hash_internal_node H left_hash hash, left_sibs))
         | None \<Rightarrow>
             rbind (reader sib) (\<lambda>left_hash. Inr (hash_internal_node H left_hash hash, left_sibs)))"

lemma right_child_parent_level:
  assumes "is_right_child pos"
  shows "level pos < level (parent pos) \<and> level pos < 63"
proof -
  obtain v where v: "pos = Position v" by (cases pos)
  have "v \<noteq> - 1"
  proof
    assume "v = - 1"
    moreover have "is_left_child (Position (- 1))" by code_simp
    ultimately show False using assms v by (simp add: is_right_child_def)
  qed
  then obtain l p where l: "l < 64" "v = node_val l p" by (rule node_ex)
  have "l \<noteq> 63"
  proof
    assume "l = 63"
    moreover have "is_left_child (Position (mask 63))" by code_simp
    ultimately show False using assms v l by (simp add: is_right_child_def node_val_63)
  qed
  with l have l63: "l < 63" by simp
  have "level (Position (mask 63)) = 63" by code_simp
  then have "level (Position (node_val (Suc l) (p div 2))) = Suc l"
    using l63 by (cases "l = 62") (simp_all add: level_node node_val_63)
  with l63 v l show ?thesis by (simp add: parent_node level_node)
qed

text \<open>The \<open>while pos.is_right_child()\<close> loop of \<open>append\<close>.\<close>

function freeze_loop ::
    "node_hasher \<Rightarrow> hash_reader \<Rightarrow> position \<Rightarrow> hash_value \<Rightarrow> node list \<Rightarrow> node list
       \<Rightarrow> (position \<times> hash_value \<times> node list \<times> node list) anyhow" where
  "freeze_loop H reader pos hash left_sibs to_freeze =
     (if is_right_child pos then
        rbind (combine_left H reader pos hash left_sibs) (\<lambda>(hash, left_sibs).
        let pos = parent pos
        in freeze_loop H reader pos hash left_sibs (to_freeze @ [(pos, hash)]))
      else Inr (pos, hash, left_sibs, to_freeze))"
  by pat_completeness auto
termination
  by (relation "measure (\<lambda>(H, reader, pos, _). 64 - level pos)")
    (auto dest!: right_child_parent_level intro!: diff_less_mono2)

declare freeze_loop.simps [simp del]

primrec append_nodes ::
    "node_hasher \<Rightarrow> hash_reader \<Rightarrow> hash_value list \<Rightarrow> u64 \<Rightarrow> node list \<Rightarrow> node list \<Rightarrow> (node list \<times> node list) anyhow" where
  "append_nodes H reader [] index left_sibs to_freeze = Inr (left_sibs, to_freeze)"
| "append_nodes H reader (leaf # new_leaves) index left_sibs to_freeze =
     (let leaf_pos = from_leaf_index index
      in rbind (freeze_loop H reader leaf_pos leaf left_sibs (to_freeze @ [(leaf_pos, leaf)]))
           (\<lambda>(pos, hash, left_sibs, to_freeze).
         append_nodes H reader new_leaves (index + 1) (left_sibs @ [(pos, hash)]) to_freeze))"

text \<open>The walk to the root level, \<open>n\<close> iterations.\<close>

primrec root_walk ::
    "nat \<Rightarrow> node_hasher \<Rightarrow> hash_reader \<Rightarrow> position \<Rightarrow> hash_value \<Rightarrow> node list \<Rightarrow> (hash_value \<times> node list) anyhow" where
  "root_walk 0 H reader pos hash left_sibs = Inr (hash, left_sibs)"
| "root_walk (Suc n) H reader pos hash left_sibs =
     rbind (if is_left_child pos
            then Inr (hash_internal_node H hash ACCUMULATOR_PLACEHOLDER_HASH, left_sibs)
            else combine_left H reader pos hash left_sibs) (\<lambda>(hash, left_sibs).
     root_walk n H reader (parent pos) hash left_sibs)"

definition view_append ::
    "node_hasher \<Rightarrow> merkle_accumulator_view \<Rightarrow> hash_value list \<Rightarrow> (hash_value \<times> node list) anyhow" where
  "view_append H self new_leaves =
     (if new_leaves = [] then
        (if mav_num_leaves self = 0 then Inr (ACCUMULATOR_PLACEHOLDER_HASH, [])
         else rbind (root_from_leaf_count (mav_num_leaves self)) (\<lambda>root_pos.
              rbind (get_hash H self root_pos) (\<lambda>root_hash.
              Inr (root_hash, []))))
      else
        let num_new_leaves = length new_leaves;
            last_new_leaf_count = mav_num_leaves self + of_nat num_new_leaves
        in rbind (root_level_from_leaf_count last_new_leaf_count) (\<lambda>root_lvl.
           rbind (append_nodes H (mav_reader self) new_leaves (mav_num_leaves self) [] []) (\<lambda>(left_sibs, to_freeze).
           rbind (expect (vec_pop left_sibs) ''Must have at least one node'') (\<lambda>((pos, hash), left_sibs).
           rbind (root_walk (root_lvl - level pos) H (mav_reader self) pos hash left_sibs) (\<lambda>(hash, left_sibs).
           rbind (assert_that (left_sibs = []) ''left_siblings.is_empty()'') (\<lambda>_.
           Inr (hash, to_freeze)))))))"

definition get_sibling_positions ::
    "merkle_accumulator_view \<Rightarrow> u64 \<Rightarrow> (position \<Rightarrow> bool) \<Rightarrow> position list anyhow" where
  "get_sibling_positions self leaf_index filt =
     rbind (root_from_leaf_count (mav_num_leaves self)) (\<lambda>root_pos.
     Inr (filter filt (take_ancestor_siblings (level root_pos) (from_leaf_index leaf_index))))"

definition get_siblings ::
    "node_hasher \<Rightarrow> merkle_accumulator_view \<Rightarrow> u64 \<Rightarrow> (position \<Rightarrow> bool) \<Rightarrow> hash_value list anyhow" where
  "get_siblings H self leaf_index filt =
     rbind (get_sibling_positions self leaf_index filt) (get_hashes H self)"

definition get_proof :: "node_hasher \<Rightarrow> merkle_accumulator_view \<Rightarrow> u64 \<Rightarrow> accumulator_proof anyhow" where
  "get_proof H self leaf_index =
     rbind (ensure (leaf_index < mav_num_leaves self) ''invalid leaf_index'') (\<lambda>_.
     rbind (get_siblings H self leaf_index (\<lambda>_. True)) (\<lambda>siblings.
     Inr \<lparr>ap_siblings = siblings\<rparr>))"

definition get_consistency_proof ::
    "merkle_accumulator_view \<Rightarrow> leaf_count \<Rightarrow> accumulator_consistency_proof anyhow" where
  "get_consistency_proof self sub_acc_leaves =
     rbind (ensure (sub_acc_leaves \<le> mav_num_leaves self) ''The other accumulator is bigger than this one.'') (\<lambda>_.
     rbind (frozen_subtree_sibling_iterator_new sub_acc_leaves (mav_num_leaves self)) (\<lambda>it.
     rbind (rmap (mav_reader self) (frozen_subtree_sibling_collect it)) (\<lambda>subtrees.
     Inr \<lparr>acp_subtrees = subtrees\<rparr>)))"

text \<open>\<open>u64::checked_add\<close>.\<close>

definition checked_add :: "u64 \<Rightarrow> u64 \<Rightarrow> u64 option" where
  "checked_add a b = (if unat a + unat b < 2 ^ 64 then Some (a + b) else None)"

definition get_range_proof_positions ::
    "merkle_accumulator_view \<Rightarrow> u64 option \<Rightarrow> leaf_count \<Rightarrow> (position list \<times> position list) anyhow" where
  "get_range_proof_positions self first_leaf_index num =
     (case first_leaf_index of
        None \<Rightarrow>
          rbind (ensure (num = 0) ''num_leaves is not zero while first_leaf_index is None.'') (\<lambda>_.
          Inr ([], []))
      | Some first_leaf_index \<Rightarrow>
          rbind (ensure (num > 0) ''num_leaves is zero while first_leaf_index is not None.'') (\<lambda>_.
          rbind (ok_or (checked_add first_leaf_index (num - 1)) ''Requesting too many leaves.'') (\<lambda>last_leaf_index.
          rbind (ensure (last_leaf_index < mav_num_leaves self) ''Invalid last_leaf_index'') (\<lambda>_.
          rbind (get_sibling_positions self first_leaf_index is_left_child) (\<lambda>left.
          rbind (get_sibling_positions self last_leaf_index is_right_child) (\<lambda>right.
          Inr (left, right)))))))"

definition get_range_proof ::
    "node_hasher \<Rightarrow> merkle_accumulator_view \<Rightarrow> u64 option \<Rightarrow> leaf_count \<Rightarrow> accumulator_range_proof anyhow" where
  "get_range_proof H self first_leaf_index num =
     rbind (get_range_proof_positions self first_leaf_index num) (\<lambda>(left, right).
     rbind (get_hashes H self left) (\<lambda>left_hashes.
     rbind (get_hashes H self right) (\<lambda>right_hashes.
     Inr \<lparr>left_siblings = left_hashes, right_siblings = right_hashes\<rparr>)))"

definition get_frozen_subtree_hashes :: "merkle_accumulator_view \<Rightarrow> hash_value list anyhow" where
  "get_frozen_subtree_hashes self =
     rmap (mav_reader self) (frozen_subtree_collect (frozen_subtree_iterator_new (mav_num_leaves self)))"


section \<open>Reading the tree back\<close>

definition tree_pos :: "nat \<Rightarrow> nat \<Rightarrow> position" where
  "tree_pos l p = Position (node_val l p)"

text \<open>What the callers of the store promise: the hash of every frozen node can be read.\<close>

definition reads_frozen :: "node_hasher \<Rightarrow> hash_value list \<Rightarrow> hash_reader \<Rightarrow> bool" where
  "reads_frozen H xs reader \<longleftrightarrow>
     (\<forall>l p. valid_node l p \<longrightarrow> (p + 1) * 2 ^ l \<le> length xs \<longrightarrow> reader (tree_pos l p) = Inr (thash H xs l p))"

lemma reads_frozenD:
  "reads_frozen H xs reader \<Longrightarrow> valid_node l p \<Longrightarrow> (p + 1) * 2 ^ l \<le> length xs \<Longrightarrow>
   reader (Position (node_val l p)) = Inr (thash H xs l p)"
  unfolding reads_frozen_def tree_pos_def by blast

lemma valid_node_children: "valid_node (Suc l) p \<Longrightarrow> valid_node l (2 * p) \<and> valid_node l (2 * p + 1)"
proof -
  assume v: "valid_node (Suc l) p"
  then have "63 - l = Suc (63 - Suc l)" by (auto simp: valid_node_def)
  then have "(2::nat) ^ (63 - l) = 2 * 2 ^ (63 - Suc l)" by (simp only: power_Suc)
  with v show ?thesis unfolding valid_node_def by simp
qed

lemma get_hash_depth_tree:
  assumes r: "reads_frozen H xs reader" and n: "0 < length xs" "length xs \<le> 2 ^ 63"
  shows "valid_node l p \<Longrightarrow> l < depth \<Longrightarrow>
    get_hash_depth depth H \<lparr>mav_reader = reader, mav_num_leaves = of_nat (length xs)\<rparr> (Position (node_val l p))
      = Inr (thash H xs l p)"
proof (induction depth arbitrary: l p)
  case (Suc depth)
  let ?idx = "of_nat (length xs) - 1 :: u64" and ?n = "length xs"
  have "?idx = of_nat (?n - 1)" using n(1) by (cases "length xs") simp_all
  moreover have "?n - 1 < 2 ^ 64" using n by simp
  ultimately have idx: "unat ?idx = ?n - 1" by (simp only: unat_of_nat_u64)
  then have i63: "unat ?idx < 2 ^ 63" using n by simp
  have ph: "is_placeholder (Position (node_val l p)) ?idx \<longleftrightarrow> ?n \<le> p * 2 ^ l"
    unfolding is_placeholder_node [OF Suc.prems(1) i63] idx using n(1) by linarith
  have fz: "is_freezable (Position (node_val l p)) ?idx \<longleftrightarrow> (p + 1) * 2 ^ l \<le> ?n"
    using is_freezable_node [OF Suc.prems(1) i63] idx n(1) by simp
  consider "?n \<le> p * 2 ^ l" | "p * 2 ^ l < ?n" "(p + 1) * 2 ^ l \<le> ?n" | "p * 2 ^ l < ?n" "?n < (p + 1) * 2 ^ l" by linarith
  then show ?case
  proof cases
    case 1
    then show ?thesis using ph thash_placeholder [OF 1, of H] by (simp add: rightmost_leaf_index_def Let_def)
  next
    case 2
    then show ?thesis using ph fz reads_frozenD [OF r Suc.prems(1)] by (simp add: rightmost_leaf_index_def Let_def)
  next
    case 3
    then obtain k where l: "l = Suc k" by (cases l) auto
    have v: "valid_node k (2 * p)" "valid_node k (2 * p + 1)" using valid_node_children Suc.prems(1) l by simp_all
    have k: "k < 63" "k < depth" using Suc.prems l by (simp_all add: valid_node_def)
    have "thash H xs l p = H (thash H xs k (2 * p)) (thash H xs k (2 * p + 1))"
      using thash_node [of p k xs H] 3(1) l by simp
    then show ?thesis using ph fz 3 Suc.IH [OF v(1) k(2)] Suc.IH [OF v(2) k(2)] l
      by (simp add: rightmost_leaf_index_def hash_internal_node_def left_child_node [OF k(1)] right_child_node [OF k(1)] Let_def)
  qed
qed simp

definition tree_view :: "hash_reader \<Rightarrow> hash_value list \<Rightarrow> merkle_accumulator_view" where
  "tree_view reader xs = \<lparr>mav_reader = reader, mav_num_leaves = of_nat (length xs)\<rparr>"

lemma get_hash_tree:
  assumes "reads_frozen H xs reader" "0 < length xs" "length xs \<le> 2 ^ 63" "valid_node l p"
  shows "get_hash H (tree_view reader xs) (Position (node_val l p)) = Inr (thash H xs l p)"
  using get_hash_depth_tree [OF assms(1-3), of l p 65] assms(4) by (simp add: get_hash_def tree_view_def valid_node_def)

lemma get_hashes_tree:
  assumes "reads_frozen H xs reader" "0 < length xs" "length xs \<le> 2 ^ 63" "\<And>l p. (l, p) \<in> set ns \<Longrightarrow> valid_node l p"
  shows "get_hashes H (tree_view reader xs) (map (\<lambda>(l, p). Position (node_val l p)) ns) = Inr (map (\<lambda>(l, p). thash H xs l p) ns)"
  unfolding get_hashes_def using assms(4)
  by (induction ns) (auto simp: get_hash_tree [OF assms(1-3)])

lemma tree_view_simps [simp]:
  "mav_reader (tree_view reader xs) = reader" "mav_num_leaves (tree_view reader xs) = of_nat (length xs)"
  by (simp_all add: tree_view_def)

lemma ancestor_siblings_nodes:
  "l + n \<le> 63 \<Longrightarrow> take_ancestor_siblings n (Position (node_val l (p div 2 ^ l))) =
     map (\<lambda>k. Position (node_val k (sibling_index (p div 2 ^ k)))) [l..<l + n]"
proof (induction n arbitrary: l)
  case (Suc n)
  then have l: "l < 63" by simp
  have "take_ancestor_siblings n (Position (node_val (Suc l) (p div 2 ^ Suc l))) =
     map (\<lambda>k. Position (node_val k (sibling_index (p div 2 ^ k)))) [Suc l..<Suc l + n]"
    using Suc.prems by (intro Suc.IH) simp
  then show ?case using l
    by (simp add: ancestor_sibling_next_def sibling_node parent_node sibling_index_def div_pow_Suc
        upt_conv_Cons Let_def del: power_Suc upt_Suc)
qed simp


lemma root_pos_level:
  assumes "0 < length xs" "length xs \<le> 2 ^ 62"
  shows "root_from_leaf_count (of_nat (length xs)) = Inr (Position (node_val (root_level (length xs)) 0))"
    and "level (Position (node_val (root_level (length xs)) 0)) = root_level (length xs)"
    and "root_level (length xs) \<le> 62"
proof -
  have u: "unat (of_nat (length xs) :: u64) = length xs" using assms(2) by (intro unat_of_nat_u64) simp
  have "length xs \<le> 2 ^ 63" using assms(2) by simp
  with root_from_leaf_count_node [of "of_nat (length xs)"] u assms(1)
  show "root_from_leaf_count (of_nat (length xs)) = Inr (Position (node_val (root_level (length xs)) 0))" by simp
  show L: "root_level (length xs) \<le> 62" using assms(2) by (rule root_level_le)
  then show "level (Position (node_val (root_level (length xs)) 0)) = root_level (length xs)" by (intro level_node) simp
qed

definition sibling_nodes_of :: "nat \<Rightarrow> nat \<Rightarrow> (nat \<times> nat) list" where
  "sibling_nodes_of n i = map (\<lambda>k. (k, sibling_index (i div 2 ^ k))) [0..<root_level n]"

lemma sibling_nodes_of_mem: "k < root_level n \<Longrightarrow> (k, sibling_index (i div 2 ^ k)) \<in> set (sibling_nodes_of n i)"
  by (auto simp: sibling_nodes_of_def)

lemma sibling_nodes_of_valid:
  assumes "i < n" "n \<le> 2 ^ 62" "(l, p) \<in> set (sibling_nodes_of n i)"
  shows "valid_node l p" "l < 62"
proof -
  from assms(3) have l: "l < root_level n" "p = sibling_index (i div 2 ^ l)" by (auto simp: sibling_nodes_of_def)
  have "root_level n \<le> 62" using assms(2) by (rule root_level_le)
  with l show l62: "l < 62" by simp
  have "i < 2 ^ l * 2 ^ (62 - l)" using assms(1,2) l62 by (simp flip: power_add)
  then have "i div 2 ^ l < 2 ^ (62 - l)" by (simp add: less_mult_imp_div_less mult.commute)
  moreover have "p \<le> i div 2 ^ l + 1" using l(2) by (auto simp: sibling_index_def)
  moreover have "(2::nat) ^ (63 - l) = 2 * 2 ^ (62 - l)"
  proof -
    have "63 - l = Suc (62 - l)" using l62 by simp
    then show ?thesis by (simp only: power_Suc)
  qed
  moreover have "(1::nat) \<le> 2 ^ (62 - l)" by simp
  ultimately have "p < 2 ^ (63 - l)" by linarith
  with l62 show "valid_node l p" by (simp add: valid_node_def)
qed

lemma get_sibling_positions_tree:
  assumes i: "unat i < length xs" and n: "length xs \<le> 2 ^ 62"
  shows "get_sibling_positions (tree_view reader xs) i filt =
    Inr (filter filt (map (\<lambda>(l, p). Position (node_val l p)) (sibling_nodes_of (length xs) (unat i))))"
proof -
  have n0: "0 < length xs" using i by linarith
  have "from_leaf_index i = Position (node_val 0 (unat i div 2 ^ 0))"
    using ancestor_pos_0 [of i] i n by (simp add: ancestor_pos_def)
  then show ?thesis
    using root_pos_level(3) [OF n0 n] ancestor_siblings_nodes [of 0 "root_level (length xs)" "unat i"]
    by (simp add: get_sibling_positions_def sibling_nodes_of_def comp_def root_pos_level(1,2) [OF n0 n])
qed

lemma sibling_left_child: "l < 63 \<Longrightarrow> is_left_child (Position (node_val l (sibling_index p))) \<longleftrightarrow> odd p"
  by (simp add: is_left_child_node sibling_index_def)

lemma get_proof_tree:
  assumes r: "reads_frozen H xs reader" and i: "unat i < length xs" and n: "length xs \<le> 2 ^ 62"
  shows "get_proof H (tree_view reader xs) i = Inr \<lparr>ap_siblings = tree_siblings H xs (unat i)\<rparr>"
proof -
  have "0 < length xs" using i by linarith
  moreover have "length xs \<le> 2 ^ 63" using n by simp
  ultimately have n0: "0 < length xs" "length xs \<le> 2 ^ 63" by blast+
  have lt: "i < of_nat (length xs)"
    using i n unat_of_nat_u64 [of "length xs"] by (simp add: word_less_nat_alt)
  have "get_hashes H (tree_view reader xs) (map (\<lambda>(l, p). Position (node_val l p)) (sibling_nodes_of (length xs) (unat i)))
      = Inr (tree_siblings H xs (unat i))"
    using get_hashes_tree [OF r n0, of "sibling_nodes_of (length xs) (unat i)"] sibling_nodes_of_valid(1) [OF i n]
    by (simp add: sibling_nodes_of_def tree_siblings_def comp_def)
  then show ?thesis using lt
    by (simp add: get_proof_def get_siblings_def get_sibling_positions_tree [OF i n])
qed

lemma filter_sibling_nodes:
  assumes n: "n \<le> 2 ^ 62"
  shows "filter is_left_child (map (\<lambda>(l, p). Position (node_val l p)) (sibling_nodes_of n i)) =
      map (\<lambda>k. Position (node_val k (i div 2 ^ k - 1))) (filter (\<lambda>k. odd (i div 2 ^ k)) [0..<root_level n])"
    and "filter is_right_child (map (\<lambda>(l, p). Position (node_val l p)) (sibling_nodes_of n i)) =
      map (\<lambda>k. Position (node_val k (i div 2 ^ k + 1))) (filter (\<lambda>k. even (i div 2 ^ k)) [0..<root_level n])"
proof -
  have L: "root_level n \<le> 62" using n by (rule root_level_le)
  have l: "is_left_child (Position (node_val k (sibling_index (i div 2 ^ k)))) \<longleftrightarrow> odd (i div 2 ^ k)" if "k \<in> set [0..<root_level n]" for k
    using that L by (intro sibling_left_child) simp
  show "filter is_left_child (map (\<lambda>(l, p). Position (node_val l p)) (sibling_nodes_of n i)) =
      map (\<lambda>k. Position (node_val k (i div 2 ^ k - 1))) (filter (\<lambda>k. odd (i div 2 ^ k)) [0..<root_level n])"
    unfolding sibling_nodes_of_def map_map filter_map comp_def prod.case
    using l by (intro map_cong filter_cong) (auto simp: sibling_index_def)
  show "filter is_right_child (map (\<lambda>(l, p). Position (node_val l p)) (sibling_nodes_of n i)) =
      map (\<lambda>k. Position (node_val k (i div 2 ^ k + 1))) (filter (\<lambda>k. even (i div 2 ^ k)) [0..<root_level n])"
    unfolding sibling_nodes_of_def map_map filter_map comp_def prod.case is_right_child_def
    using l by (intro map_cong filter_cong) (auto simp: sibling_index_def)
qed


lemma get_range_proof_tree:
  assumes r: "reads_frozen H xs reader" and m: "0 < unat m" "unat i + unat m \<le> length xs" and n: "length xs \<le> 2 ^ 62"
  shows "get_range_proof H (tree_view reader xs) (Some i) m =
    Inr \<lparr>left_siblings = tree_left_siblings H xs 0 (unat i), right_siblings = tree_right_siblings H xs 0 (unat i + unat m - 1)\<rparr>"
proof -
  let ?v = "tree_view reader xs"
  define j where "j = i + (m - 1)"
  have m1: "unat (m - 1) = unat m - 1" using m(1) by (intro unat_minus_one) auto
  have lt: "unat i + unat (m - 1) < 2 ^ 64" using m n m1 by simp
  then have j: "unat j = unat i + unat m - 1" unfolding j_def using m m1 by (simp add: unat_add_u64)
  have ji: "unat j < length xs" "unat i < length xs" using j m by simp_all
  have "0 < length xs" using m by linarith
  moreover have "length xs \<le> 2 ^ 63" using n by simp
  ultimately have n0: "0 < length xs" "length xs \<le> 2 ^ 63" by blast+
  have un: "unat (of_nat (length xs) :: u64) = length xs" using n by (intro unat_of_nat_u64) simp
  have pos: "get_range_proof_positions ?v (Some i) m = Inr
      (map (\<lambda>(l, p). Position (node_val l p)) (map (\<lambda>k. (k, unat i div 2 ^ k - 1)) (filter (\<lambda>k. odd (unat i div 2 ^ k)) [0..<root_level (length xs)])),
       map (\<lambda>(l, p). Position (node_val l p)) (map (\<lambda>k. (k, unat j div 2 ^ k + 1)) (filter (\<lambda>k. even (unat j div 2 ^ k)) [0..<root_level (length xs)])))"
    using m ji un lt
    by (simp add: get_range_proof_positions_def checked_add_def word_less_nat_alt unat_eq_zero get_sibling_positions_tree [OF _ n]
        filter_sibling_nodes [OF n] comp_def flip: j_def)
  have valid: "valid_node k (unat i div 2 ^ k - Suc 0)" if "k < root_level (length xs)" "odd (unat i div 2 ^ k)" for k
    using sibling_nodes_of_valid(1) [OF ji(2) n sibling_nodes_of_mem [OF that(1)]] that(2) by (simp add: sibling_index_def)
  have valid': "valid_node k (Suc (unat j div 2 ^ k))" if "k < root_level (length xs)" "even (unat j div 2 ^ k)" for k
    using sibling_nodes_of_valid(1) [OF ji(1) n sibling_nodes_of_mem [OF that(1)]] that(2) by (simp add: sibling_index_def)
  have "get_hashes H ?v (map (\<lambda>(l, p). Position (node_val l p)) (map (\<lambda>k. (k, unat i div 2 ^ k - 1)) (filter (\<lambda>k. odd (unat i div 2 ^ k)) [0..<root_level (length xs)])))
      = Inr (tree_left_siblings H xs 0 (unat i))"
    by (subst get_hashes_tree [OF r n0]) (auto simp: valid tree_left_siblings_def comp_def)
  moreover have "get_hashes H ?v (map (\<lambda>(l, p). Position (node_val l p)) (map (\<lambda>k. (k, unat j div 2 ^ k + 1)) (filter (\<lambda>k. even (unat j div 2 ^ k)) [0..<root_level (length xs)])))
      = Inr (tree_right_siblings H xs 0 (unat j))"
    by (subst get_hashes_tree [OF r n0]) (auto simp: valid' tree_right_siblings_def comp_def)
  ultimately show ?thesis using pos j by (simp add: get_range_proof_def)
qed


section \<open>Appending\<close>

text \<open>
  The vector of left siblings after \<open>n\<close> leaves, \<open>n0\<close> of which were in the store: the frozen
  subtrees of level at least \<open>i\<close> that end after \<open>n0\<close>.
\<close>

definition new_frozen :: "node_hasher \<Rightarrow> hash_value list \<Rightarrow> nat \<Rightarrow> nat \<Rightarrow> nat \<Rightarrow> node list" where
  "new_frozen H zs n0 n i =
     map (\<lambda>l. (Position (node_val l (n div 2 ^ l - 1)), thash H zs l (n div 2 ^ l - 1)))
       (filter (\<lambda>l. bit n l \<and> n0 < n div 2 ^ l * 2 ^ l) (rev [i..<64]))"

lemma new_frozen_Suc:
  assumes "i < 64"
  shows "new_frozen H zs n0 n i = new_frozen H zs n0 n (Suc i) @
    (if bit n i \<and> n0 < n div 2 ^ i * 2 ^ i
     then [(Position (node_val i (n div 2 ^ i - 1)), thash H zs i (n div 2 ^ i - 1))] else [])"
  using assms by (simp add: new_frozen_def upt_conv_Cons)

lemma div_times_antimono: "i \<le> l \<Longrightarrow> (n::nat) div 2 ^ l * 2 ^ l \<le> n div 2 ^ i * 2 ^ i"
proof -
  assume il: "i \<le> l"
  have p: "(2::nat) ^ l = 2 ^ i * 2 ^ (l - i)" using il by (simp flip: power_add)
  have "n div 2 ^ i div 2 ^ (l - i) * 2 ^ (l - i) \<le> n div 2 ^ i" by (rule div_times_less_eq_dividend)
  then have "n div 2 ^ i div 2 ^ (l - i) * 2 ^ (l - i) * 2 ^ i \<le> n div 2 ^ i * 2 ^ i" by (rule mult_le_mono1)
  then show ?thesis unfolding p div_mult2_eq by (simp add: mult.assoc mult.commute)
qed

lemma new_frozen_old:
  assumes "n div 2 ^ i * 2 ^ i \<le> n0"
  shows "new_frozen H zs n0 n i = []"
proof -
  have "\<not> n0 < n div 2 ^ l * 2 ^ l" if "i \<le> l" for l using div_times_antimono [OF that, of n] assms by linarith
  then show ?thesis by (auto simp: new_frozen_def filter_empty_conv)
qed

text \<open>Combining with the frozen left sibling, wherever it comes from.\<close>

lemma combine_left_frozen:
  assumes r: "reads_frozen H (take n0 zs) reader" and n0: "n0 \<le> length zs" and b: "bit n i" and i: "i < 63"
    and n: "n < 2 ^ 63" "n < length zs \<or> n div 2 ^ Suc i * 2 ^ Suc i < length zs"
  shows "combine_left H reader (Position (node_val i (n div 2 ^ i))) (thash H zs i (n div 2 ^ i)) (new_frozen H zs n0 n i) =
    Inr (thash H zs (Suc i) (n div 2 ^ Suc i), new_frozen H zs n0 n (Suc i))"
proof -
  let ?p = "n div 2 ^ i"
  have odd: "odd ?p" using b by (simp add: bit_iff_odd)
  then have e: "?p = 2 * (n div 2 ^ Suc i) + 1" "?p - 1 = 2 * (n div 2 ^ Suc i)"
    unfolding div_pow_Suc by (simp_all add: odd_two_times_div_two_succ)
  have "n div 2 ^ Suc i * 2 ^ Suc i \<le> n" by (rule div_times_less_eq_dividend)
  then have q: "n div 2 ^ Suc i * 2 ^ Suc i < length zs" using n by linarith
  have h: "H (thash H zs i (?p - 1)) (thash H zs i ?p) = thash H zs (Suc i) (n div 2 ^ Suc i)"
    unfolding e(2) using thash_node [OF q, of H] by (simp only: e(1))
  have sib: "sibling (Position (node_val i ?p)) = Position (node_val i (?p - 1))"
    using odd i by (simp add: sibling_node)
  show ?thesis
  proof (cases "n0 < ?p * 2 ^ i")
    case True
    then show ?thesis using i b h sib
      by (simp add: combine_left_def new_frozen_Suc [of i] assert_that_def hash_internal_node_def Let_def)
  next
    case False
    then have old: "new_frozen H zs n0 n i = []" "new_frozen H zs n0 n (Suc i) = []"
      using new_frozen_old [of n i n0] new_frozen_Suc [of i H zs n0 n] i by simp_all
    have pp: "?p - 1 + 1 = ?p" using odd by (cases ?p) auto
    have "valid_node i (?p - 1)"
    proof -
      have "n < 2 ^ i * 2 ^ (63 - i)" using n(1) i by (simp flip: power_add)
      then have "?p < 2 ^ (63 - i)" by (simp add: less_mult_imp_div_less mult.commute)
      then show ?thesis using i by (simp add: valid_node_def)
    qed
    moreover have "(?p - 1 + 1) * 2 ^ i \<le> length (take n0 zs)" unfolding pp using False n0 by simp
    ultimately have "reader (Position (node_val i (?p - 1))) = Inr (thash H (take n0 zs) i (?p - 1))"
      by (rule reads_frozenD [OF r])
    moreover have "thash H (take n0 zs @ drop n0 zs) i (?p - 1) = thash H (take n0 zs) i (?p - 1)"
      using False n0 pp by (intro thash_append) simp
    ultimately show ?thesis using old h sib
      by (simp add: combine_left_def hash_internal_node_def Let_def)
  qed
qed


definition nto :: "nat \<Rightarrow> nat" where
  "nto n = trailing_zeros (NOT (of_nat n))"

lemma nto_props:
  assumes "n < 2 ^ 62"
  shows "nto n \<le> 62" "\<not> bit n (nto n)" "k < nto n \<Longrightarrow> bit n k"
proof -
  have "n < 2 ^ 64 - 1" using assms by simp
  note t = trailing_ones [OF this]
  show "\<not> bit n (nto n)" "k < nto n \<Longrightarrow> bit n k" using t(2,3) by (simp_all add: nto_def)
  show "nto n \<le> 62"
  proof (rule ccontr)
    assume "\<not> nto n \<le> 62"
    then have "bit n 62" using t(3) [of 62] by (simp add: nto_def)
    with bit_lt_pow [OF assms, of 62] show False by simp
  qed
qed

definition tree_node :: "node_hasher \<Rightarrow> hash_value list \<Rightarrow> nat \<times> nat \<Rightarrow> node" where
  "tree_node H zs = (\<lambda>(l, p). (Position (node_val l p), thash H zs l p))"

text \<open>The nodes that become frozen with the leaf \<open>n\<close>.\<close>

definition leaf_freezes :: "nat \<Rightarrow> (nat \<times> nat) list" where
  "leaf_freezes n = map (\<lambda>k. (k, n div 2 ^ k)) [0..<Suc (nto n)]"

lemma freeze_loop_tree:
  assumes r: "reads_frozen H (take n0 zs) reader" and n0: "n0 \<le> length zs"
    and n: "n < 2 ^ 62" "n < length zs" and i: "i \<le> nto n"
  shows "freeze_loop H reader (Position (node_val i (n div 2 ^ i))) (thash H zs i (n div 2 ^ i)) (new_frozen H zs n0 n i) tf =
    Inr (Position (node_val (nto n) (n div 2 ^ nto n)), thash H zs (nto n) (n div 2 ^ nto n), new_frozen H zs n0 n (nto n),
         tf @ map (\<lambda>k. tree_node H zs (k, n div 2 ^ k)) [Suc i..<Suc (nto n)])"
  using i
proof (induction i arbitrary: tf rule: inc_induct)
  case base
  have "is_left_child (Position (node_val (nto n) (n div 2 ^ nto n)))"
    using nto_props(1,2) [OF n(1)] by (simp add: is_left_child_node bit_iff_odd)
  then show ?case by (subst freeze_loop.simps) (simp add: is_right_child_def)
next
  case (step i)
  have i: "i < nto n" "i < 63" using step nto_props(1) [OF n(1)] by simp_all
  have b: "bit n i" using nto_props(3) [OF n(1) i(1)] .
  then have "is_right_child (Position (node_val i (n div 2 ^ i)))" using i by (simp add: is_right_child_def is_left_child_node bit_iff_odd)
  moreover have "n < 2 ^ 63" using n(1) by simp
  note c = combine_left_frozen [OF r n0 b i(2) this disjI1 [OF n(2)]]
  moreover have "parent (Position (node_val i (n div 2 ^ i))) = Position (node_val (Suc i) (n div 2 ^ Suc i))"
    using i by (simp add: parent_node div_pow_Suc del: power_Suc)
  ultimately show ?case using i
    by (subst freeze_loop.simps)
      (simp add: step.IH c tree_node_def upt_conv_Cons Let_def del: power_Suc upt_Suc)
qed

lemma new_frozen_next:
  assumes n: "n < 2 ^ 62" "n0 \<le> n"
  shows "new_frozen H zs n0 (Suc n) 0 = new_frozen H zs n0 n (nto n) @ [tree_node H zs (nto n, n div 2 ^ nto n)]"
proof -
  let ?j = "nto n"
  note j = nto_props [OF n(1)]
  note hi = add_carry(1) [of 0 ?j n, OF _ j(2) j(3)] and bits = add_carry(2) [of 0 ?j n, OF _ j(2) j(3)]
    and at = add_carry(3) [of 0 ?j n, OF _ j(2) j(3)]
  have bits': "bit (Suc n) l \<longleftrightarrow> (if l < ?j then False else if l = ?j then True else bit n l)" for l
    using bits [of l] by simp
  have hi': "Suc n div 2 ^ l = n div 2 ^ l" if "?j < l" for l using hi [of l] that by simp
  have at': "Suc n div 2 ^ ?j - 1 = n div 2 ^ ?j" using at by simp
  have dj: "Suc n div 2 ^ ?j * 2 ^ ?j = Suc n"
  proof -
    have "n mod 2 ^ ?j = 2 ^ ?j - 1" by (rule Suc_div_trailing) (rule j(3))
    then have "Suc n mod 2 ^ ?j = 0" by (simp add: mod_Suc)
    then show ?thesis by (simp add: mod_eq_0_iff_dvd)
  qed
  have u: "[0..<64] = [0..<?j] @ ?j # [Suc ?j..<64]"
    using j(1) upt_split [of ?j 64] upt_conv_Cons [of ?j 64] by simp
  have "filter (\<lambda>l. bit (Suc n) l \<and> n0 < Suc n div 2 ^ l * 2 ^ l) [0..<?j] = []" using bits' by simp
  moreover have "filter (\<lambda>l. bit (Suc n) l \<and> n0 < Suc n div 2 ^ l * 2 ^ l) [Suc ?j..<64] =
      filter (\<lambda>l. bit n l \<and> n0 < n div 2 ^ l * 2 ^ l) [Suc ?j..<64]"
    by (rule filter_cong) (auto simp: bits' hi')
  ultimately have f: "filter (\<lambda>l. bit (Suc n) l \<and> n0 < Suc n div 2 ^ l * 2 ^ l) (rev [0..<64]) =
      filter (\<lambda>l. bit n l \<and> n0 < n div 2 ^ l * 2 ^ l) (rev [Suc ?j..<64]) @ [?j]"
    unfolding u using bits' [of ?j] dj n(2) by (simp add: rev_filter [symmetric])
  have "map (\<lambda>l. (Position (node_val l (Suc n div 2 ^ l - 1)), thash H zs l (Suc n div 2 ^ l - 1)))
      (filter (\<lambda>l. bit n l \<and> n0 < n div 2 ^ l * 2 ^ l) (rev [Suc ?j..<64])) = new_frozen H zs n0 n (Suc ?j)"
    unfolding new_frozen_def by (rule map_cong) (auto simp: hi')
  then show ?thesis
    unfolding new_frozen_def [of H zs n0 "Suc n"] f using j at' new_frozen_Suc [of ?j H zs n0 n]
    by (simp add: tree_node_def)
qed

lemma append_nodes_tree:
  assumes r: "reads_frozen H (take n0 zs) reader" and n0: "n0 \<le> n"
    and n: "n + length ys \<le> 2 ^ 62" "drop n zs = ys" "n \<le> length zs"
  shows "append_nodes H reader ys (of_nat n) (new_frozen H zs n0 n 0) tf =
    Inr (new_frozen H zs n0 (n + length ys) 0, tf @ map (tree_node H zs) (concat (map leaf_freezes [n..<n + length ys])))"
  using n0 n
proof (induction ys arbitrary: n tf)
  case (Cons y ys)
  have nl: "n < length zs" using Cons.prems(3) by (metis drop_all list.distinct(1) not_le)
  have n62: "n < 2 ^ 62" using Cons.prems(2) by simp
  have y: "zs ! n = y" "drop (Suc n) zs = ys" using Cons.prems(3) nl by (simp_all add: Cons_nth_drop_Suc [symmetric])
  have "unat (of_nat n :: u64) = n" using n62 by (intro unat_of_nat_u64) simp
  then have leaf: "from_leaf_index (of_nat n) = Position (node_val 0 n)"
    using ancestor_pos_0 [of "of_nat n"] n62 by (simp add: ancestor_pos_def)
  have h: "thash H zs 0 (n div 2 ^ 0) = y" using y nl by (simp add: thash.simps)
  have n0: "n0 \<le> length zs" using Cons.prems(1) nl by simp
  have fl: "freeze_loop H reader (Position (node_val 0 n)) y (new_frozen H zs n0 n 0) (tf @ [(Position (node_val 0 n), y)]) =
    Inr (Position (node_val (nto n) (n div 2 ^ nto n)), thash H zs (nto n) (n div 2 ^ nto n), new_frozen H zs n0 n (nto n),
         tf @ map (tree_node H zs) (leaf_freezes n))"
    using freeze_loop_tree [OF r n0 n62 nl, of 0 "tf @ [(Position (node_val 0 n), y)]"] h
    by (simp add: leaf_freezes_def upt_conv_Cons tree_node_def comp_def del: upt_Suc)
  have nx: "new_frozen H zs n0 (Suc n) 0 = new_frozen H zs n0 n (nto n) @ [(Position (node_val (nto n) (n div 2 ^ nto n)), thash H zs (nto n) (n div 2 ^ nto n))]"
    using new_frozen_next [OF n62 Cons.prems(1), of H zs] by (simp add: tree_node_def)
  have "append_nodes H reader ys (of_nat (Suc n)) (new_frozen H zs n0 (Suc n) 0) (tf @ map (tree_node H zs) (leaf_freezes n)) =
    Inr (new_frozen H zs n0 (Suc n + length ys) 0,
      (tf @ map (tree_node H zs) (leaf_freezes n)) @ map (tree_node H zs) (concat (map leaf_freezes [Suc n..<Suc n + length ys])))"
    using Cons.prems nl y by (intro Cons.IH) simp_all
  then show ?case using leaf fl nx
    by (simp add: Let_def upt_conv_Cons add.commute del: upt_Suc)
qed simp


lemma root_walk_tree:
  assumes r: "reads_frozen H (take n0 zs) reader" and n0: "n0 \<le> length zs" and n: "length zs \<le> 2 ^ 62" "0 < length zs"
    and i: "ntz (length zs) < i" "i \<le> root_level (length zs)"
  shows "root_walk (root_level (length zs) - i) H reader (Position (node_val i (length zs div 2 ^ i)))
      (thash H zs i (length zs div 2 ^ i)) (new_frozen H zs n0 (length zs) i) =
    Inr (tree_root H zs, new_frozen H zs n0 (length zs) (root_level (length zs)))"
  using i(2,1)
proof (induction i rule: inc_induct)
  case base
  let ?L = "root_level (length zs)"
  have "length zs \<noteq> 2 ^ ?L"
  proof
    assume e: "length zs = 2 ^ ?L"
    have "?L \<le> 62" using n(1) by (rule root_level_le)
    then have "(2::nat) ^ ?L < 2 ^ 64" by (intro power_strict_increasing) simp_all
    then have "ntz (2 ^ ?L) = ?L" by (rule ntz_eq) (auto simp: bit_exp_iff)
    with base e show False by simp
  qed
  then have "length zs < 2 ^ ?L" using root_level_bounds(1) [OF n(2)] by simp
  then show ?case by (simp add: tree_root_def)
next
  case (step i)
  let ?n = "length zs" and ?L = "root_level (length zs)"
  have L: "?L \<le> 62" using n(1) by (rule root_level_le)
  then have i63: "i < 63" using step.hyps by simp
  have n64: "?n < 2 ^ 64" "?n < 2 ^ 63" using n(1) by simp_all
  have "?n mod 2 ^ i \<noteq> 0"
  proof
    assume z: "?n mod 2 ^ i = 0"
    have "bit ?n (ntz ?n)" using ntz_props(1) [OF n(2) n64(1)] .
    moreover have "take_bit i ?n = 0" using z by (simp add: take_bit_eq_mod)
    moreover have "bit (take_bit i ?n) (ntz ?n) \<longleftrightarrow> ntz ?n < i \<and> bit ?n (ntz ?n)" by (rule bit_take_bit_iff)
    ultimately show False using step.prems by simp
  qed
  then have pos: "?n div 2 ^ i * 2 ^ i < ?n" using div_mult_mod_eq [of ?n "2 ^ i"] by linarith
  have q: "?n div 2 ^ Suc i * 2 ^ Suc i < ?n" by (rule le_less_trans [OF div_times_antimono pos]) simp
  have ji: "?L - i = Suc (?L - Suc i)" using step.hyps by simp
  have par: "parent (Position (node_val i (?n div 2 ^ i))) = Position (node_val (Suc i) (?n div 2 ^ Suc i))"
    using i63 by (simp add: parent_node div_pow_Suc del: power_Suc)
  have lft: "is_left_child (Position (node_val i (?n div 2 ^ i))) \<longleftrightarrow> \<not> bit ?n i"
    using i63 by (simp add: is_left_child_node bit_iff_odd)
  show ?case
  proof (cases "bit ?n i")
    case True
    from combine_left_frozen [OF r n0 True i63 n64(2) disjI2 [OF q]]
    show ?thesis unfolding ji using True lft par step.IH step.prems by simp
  next
    case False
    then have e: "?n div 2 ^ i = 2 * (?n div 2 ^ Suc i)" unfolding div_pow_Suc by (simp add: bit_iff_odd)
    have "?n < (?n div 2 ^ i + 1) * 2 ^ i" by (simp add: dividend_less_div_times)
    then have "thash H zs i (2 * (?n div 2 ^ Suc i) + 1) = ACCUMULATOR_PLACEHOLDER_HASH"
      using e by (intro thash_placeholder) simp
    then have h: "H (thash H zs i (?n div 2 ^ i)) ACCUMULATOR_PLACEHOLDER_HASH = thash H zs (Suc i) (?n div 2 ^ Suc i)"
      using thash_node [OF q, of H] e by (simp only:)
    have "new_frozen H zs n0 ?n i = new_frozen H zs n0 ?n (Suc i)" using new_frozen_Suc [of i H zs n0 ?n] False i63 by simp
    then show ?thesis unfolding ji using False lft par step.IH step.prems h by (simp add: hash_internal_node_def)
  qed
qed


lemma new_frozen_high: "n < 2 ^ i \<Longrightarrow> new_frozen H zs n0 n i = []"
  using bit_lt_pow [of n i] by (auto simp: new_frozen_def filter_empty_conv)

lemma root_walk_from_last:
  assumes r: "reads_frozen H (take n0 zs) reader" and n0: "n0 \<le> length zs" and n: "length zs \<le> 2 ^ 62" "0 < length zs"
  defines "t \<equiv> ntz (length zs)" and "L \<equiv> root_level (length zs)"
  shows "t \<le> L" and "t \<le> 62" and "root_walk (L - t) H reader (Position (node_val t (length zs div 2 ^ t - 1)))
      (thash H zs t (length zs div 2 ^ t - 1)) (new_frozen H zs n0 (length zs) (Suc t)) = Inr (tree_root H zs, [])"
proof -
  let ?n = "length zs"
  have n64: "?n < 2 ^ 64" using n(1) by simp
  have L: "L \<le> 62" unfolding L_def using n(1) by (rule root_level_le)
  have nL: "?n \<le> 2 ^ L" unfolding L_def using n(2) by (rule root_level_bounds(1))
  have bt: "bit ?n t" unfolding t_def using n(2) n64 by (rule ntz_props(1))
  have dvd: "2 ^ t dvd ?n" unfolding t_def using n(2) n64 by (rule ntz_dvd(1))
  show tL: "t \<le> L"
  proof -
    have "2 ^ t \<le> ?n" using dvd n(2) by (rule dvd_imp_le)
    then have "(2::nat) ^ t \<le> 2 ^ L" using nL by linarith
    then show ?thesis by simp
  qed
  then show "t \<le> 62" using L by simp
  have odd: "odd (?n div 2 ^ t)" using bt by (simp add: bit_iff_odd)
  show "root_walk (L - t) H reader (Position (node_val t (?n div 2 ^ t - 1)))
      (thash H zs t (?n div 2 ^ t - 1)) (new_frozen H zs n0 ?n (Suc t)) = Inr (tree_root H zs, [])"
  proof (cases "t = L")
    case True
    have "?n = 2 ^ L"
    proof -
      obtain c where c: "?n = 2 ^ L * c" using dvd True by (auto elim: dvdE)
      with nL n(2) have "c = 1" by (cases c) auto
      with c show ?thesis by simp
    qed
    then have "new_frozen H zs n0 ?n (Suc t) = []" using True by (intro new_frozen_high) simp
    moreover have "?n div 2 ^ L - 1 = 0" using \<open>?n = 2 ^ L\<close> by simp
    ultimately show ?thesis unfolding tree_root_def L_def [symmetric] True by simp
  next
    case False
    then have lt: "t < L" "t < 63" using tL L by simp_all
    have e: "?n div 2 ^ t - 1 = 2 * (?n div 2 ^ Suc t)" "?n div 2 ^ t = 2 * (?n div 2 ^ Suc t) + 1"
      unfolding div_pow_Suc using odd by (simp_all add: odd_two_times_div_two_succ)
    have lft: "is_left_child (Position (node_val t (2 * (?n div 2 ^ Suc t))))" using lt by (simp add: is_left_child_node)
    have par: "parent (Position (node_val t (2 * (?n div 2 ^ Suc t)))) = Position (node_val (Suc t) (?n div 2 ^ Suc t))"
      using lt by (simp add: parent_node)
    have "(2 * (?n div 2 ^ Suc t) + 1) * 2 ^ t = ?n" using dvd e(2) by (metis dvd_div_mult_self)
    then have ph: "thash H zs t (2 * (?n div 2 ^ Suc t) + 1) = ACCUMULATOR_PLACEHOLDER_HASH"
      by (intro thash_placeholder) simp
    have q: "?n div 2 ^ Suc t * 2 ^ Suc t < ?n"
    proof -
      have "?n mod 2 ^ Suc t \<noteq> 0" using bt by (simp only: mod_Suc_bit) simp
      then show ?thesis using div_mult_mod_eq [of ?n "2 ^ Suc t"] by linarith
    qed
    have h: "H (thash H zs t (2 * (?n div 2 ^ Suc t))) ACCUMULATOR_PLACEHOLDER_HASH = thash H zs (Suc t) (?n div 2 ^ Suc t)"
      using thash_node [OF q, of H] ph by (simp only:)
    have ji: "L - t = Suc (L - Suc t)" using lt by simp
    have "?n < 2 ^ L"
    proof (rule ccontr)
      assume "\<not> ?n < 2 ^ L"
      then have e: "?n = 2 ^ L" using nL by simp
      then have "ntz ?n = L" using n64 by (intro ntz_eq) (auto simp: bit_exp_iff)
      with False show False by (simp add: t_def)
    qed
    then have "new_frozen H zs n0 ?n L = []" by (rule new_frozen_high)
    moreover have "root_walk (L - Suc t) H reader (Position (node_val (Suc t) (?n div 2 ^ Suc t)))
      (thash H zs (Suc t) (?n div 2 ^ Suc t)) (new_frozen H zs n0 ?n (Suc t)) = Inr (tree_root H zs, new_frozen H zs n0 ?n L)"
      unfolding L_def using lt unfolding t_def L_def by (intro root_walk_tree [OF r n0 n]) simp_all
    ultimately show ?thesis unfolding ji e(1) using lft par h by (simp add: hash_internal_node_def del: power_Suc)
  qed
qed

lemma view_append_tree:
  assumes r: "reads_frozen H xs reader" and n: "length xs + length ys \<le> 2 ^ 62"
  shows "view_append H (tree_view reader xs) ys =
    Inr (tree_root H (xs @ ys), map (tree_node H (xs @ ys)) (concat (map leaf_freezes [length xs..<length xs + length ys])))"
proof (cases "ys = []")
  case True
  show ?thesis
  proof (cases "xs = []")
    case True
    with \<open>ys = []\<close> show ?thesis
      by (simp add: view_append_def tree_root_def root_level_def thash.simps)
  next
    case False
    then have n0: "0 < length xs" "length xs \<le> 2 ^ 62" "length xs \<le> 2 ^ 63" using n by simp_all
    have "unat (of_nat (length xs) :: u64) = length xs" using n0 by (intro unat_of_nat_u64) simp
    then have nz: "(of_nat (length xs) :: u64) \<noteq> 0" using n0(1) by (metis less_not_refl unat_0)
    have "valid_node (root_level (length xs)) 0" using root_level_le [OF n0(2)] by (simp add: valid_node_def)
    from get_hash_tree [OF r n0(1,3) this] show ?thesis using True False nz
      by (simp add: view_append_def root_pos_level(1) [OF n0(1,2)] tree_root_def)
  qed
next
  case False
  let ?zs = "xs @ ys" and ?old = "length xs" and ?n = "length xs + length ys"
  let ?t = "ntz (length ?zs)" and ?L = "root_level (length ?zs)"
  have r': "reads_frozen H (take ?old ?zs) reader" using r by simp
  have zs: "length ?zs \<le> 2 ^ 62" "0 < length ?zs" "?old \<le> length ?zs" using n False by simp_all
  note walk = root_walk_from_last [OF r' zs(3,1,2)]
  have un: "unat (of_nat (length ?zs) :: u64) = length ?zs" using zs by (intro unat_of_nat_u64) simp
  have lvl: "root_level_from_leaf_count (of_nat (length ?zs)) = (Inr ?L :: nat anyhow)"
    by (simp only: root_level_from_leaf_count_eq un zs(2))
  have nodes: "append_nodes H reader ys (of_nat ?old) [] [] =
    Inr (new_frozen H ?zs ?old (length ?zs) 0, map (tree_node H ?zs) (concat (map leaf_freezes [?old..<?n])))"
    using append_nodes_tree [OF r', of ?old ys "[]"] n new_frozen_old [of ?old 0 ?old H ?zs] by simp
  have pop: "new_frozen H ?zs ?old (length ?zs) 0 = new_frozen H ?zs ?old (length ?zs) (Suc ?t) @
      [(Position (node_val ?t (length ?zs div 2 ^ ?t - 1)), thash H ?zs ?t (length ?zs div 2 ^ ?t - 1))]"
  proof -
    have n64: "length ?zs < 2 ^ 64" using zs by simp
    have "new_frozen H ?zs ?old (length ?zs) 0 = new_frozen H ?zs ?old (length ?zs) ?t"
    proof -
      have "[0..<64] = [0..<?t] @ [?t..<64]" using walk(2) by (intro upt_split) simp
      then show ?thesis using ntz_props(2) [OF zs(2) n64] by (simp add: new_frozen_def)
    qed
    moreover have "length ?zs div 2 ^ ?t * 2 ^ ?t = length ?zs" using ntz_dvd(1) [OF zs(2) n64] by (rule dvd_div_mult_self)
    ultimately show ?thesis using new_frozen_Suc [of ?t H ?zs ?old "length ?zs"] ntz_props(1) [OF zs(2) n64] walk(2) False
      by simp
  qed
  have lv: "level (Position (node_val ?t (length ?zs div 2 ^ ?t - 1))) = ?t" using walk(2) by (intro level_node) simp
  show ?thesis
    unfolding view_append_def using False lvl nodes pop lv walk(3)
    by (simp add: Let_def assert_that_def)
qed

end
