(* ===== verification/BTree_Map.thy ===== *)
theory BTree_Map
  imports Prelude
begin

text \<open>
  The ordered maps of the sources: Rust's \<open>BTreeMap\<close>, and the column families of the key value
  store behind \<open>storage/schemadb\<close>, which iterate in the order of their keys. A map is a list of
  entries with strictly increasing keys, so that two maps with the same entries are equal and an
  iterator is the list of what it still has to yield.
\<close>

section \<open>Lists with increasing keys\<close>

definition sorted_keys :: "('k::linorder \<times> 'v) list \<Rightarrow> bool" where
  "sorted_keys es \<longleftrightarrow> sorted_wrt (<) (map fst es)"

primrec ins_entry :: "'k::linorder \<Rightarrow> 'v \<Rightarrow> ('k \<times> 'v) list \<Rightarrow> ('k \<times> 'v) list" where
  "ins_entry k v [] = [(k, v)]"
| "ins_entry k v (e # es) =
     (if k < fst e then (k, v) # e # es else if k = fst e then (k, v) # es else e # ins_entry k v es)"

lemma set_ins_entry_keys: "fst ` set (ins_entry k v es) = insert k (fst ` set es)"
  by (induction es) auto

lemma sorted_ins_entry: "sorted_keys es \<Longrightarrow> sorted_keys (ins_entry k v es)"
proof (induction es)
  case (Cons e es)
  have "fst e < x" if "\<not> k < fst e" "k \<noteq> fst e" "x \<in> fst ` set (ins_entry k v es)" for x
    using that Cons.prems by (auto simp: set_ins_entry_keys sorted_keys_def)
  with Cons show ?case by (auto simp: sorted_keys_def)
qed (simp add: sorted_keys_def)

lemma map_of_ins_entry: "sorted_keys es \<Longrightarrow> map_of (ins_entry k v es) = (map_of es)(k \<mapsto> v)"
  by (induction es) (auto simp: sorted_keys_def fun_eq_iff)

lemma ins_entry_last: "(\<And>e. e \<in> set es \<Longrightarrow> fst e < k) \<Longrightarrow> ins_entry k v es = es @ [(k, v)]"
  by (induction es) (use order.asym in fastforce)+

lemma sorted_keys_distinct: "sorted_keys es \<Longrightarrow> distinct (map fst es)"
  by (simp add: sorted_keys_def strict_sorted_iff)

lemma sorted_keys_filter: "sorted_keys es \<Longrightarrow> sorted_keys (filter P es)"
  unfolding sorted_keys_def by (induction es) auto

lemma sorted_keys_ext:
  "sorted_keys xs \<Longrightarrow> sorted_keys ys \<Longrightarrow> map_of xs = map_of ys \<Longrightarrow> xs = ys"
proof -
  assume s: "sorted_keys xs" "sorted_keys ys" "map_of xs = map_of ys"
  have d: "distinct (map fst xs)" "distinct (map fst ys)" using s by (simp_all add: sorted_keys_distinct)
  have "set xs = set ys"
    using s(3) map_of_eq_Some_iff [OF d(1)] map_of_eq_Some_iff [OF d(2)] by (metis set_eqI surj_pair)
  then have keys: "map fst xs = map fst ys"
    using s(1,2) by (intro strict_sorted_equal) (simp_all add: sorted_keys_def)
  show "xs = ys"
  proof (rule nth_equalityI)
    show len: "length xs = length ys" using keys by (metis length_map)
    fix i assume i: "i < length xs"
    then have k: "fst (xs ! i) = fst (ys ! i)" using keys len by (metis nth_map)
    have "map_of xs (fst (xs ! i)) = Some (snd (xs ! i))" "map_of ys (fst (ys ! i)) = Some (snd (ys ! i))"
      using i len d by (simp_all add: map_of_eq_Some_iff)
    with s(3) k show "xs ! i = ys ! i" by (simp add: prod_eq_iff)
  qed
qed

section \<open>The type of maps\<close>

typedef (overloaded) ('k::linorder, 'v) btree_map = "{es :: ('k \<times> 'v) list. sorted_keys es}"
  morphisms bentries btree_map
  by (rule exI [of _ "[]"]) (simp add: sorted_keys_def)

setup_lifting type_definition_btree_map

lift_definition bempty :: "('k::linorder, 'v) btree_map" is "[]"
  by (simp add: sorted_keys_def)

lift_definition binsert :: "'k::linorder \<Rightarrow> 'v \<Rightarrow> ('k, 'v) btree_map \<Rightarrow> ('k, 'v) btree_map" is ins_entry
  by (rule sorted_ins_entry)

lift_definition bremove :: "'k::linorder \<Rightarrow> ('k, 'v) btree_map \<Rightarrow> ('k, 'v) btree_map" is
  "\<lambda>k es. filter (\<lambda>e. fst e \<noteq> k) es"
  by (rule sorted_keys_filter)

definition bget :: "('k::linorder, 'v) btree_map \<Rightarrow> 'k \<Rightarrow> 'v option" where
  "bget m k = map_of (bentries m) k"

definition bcontains :: "('k::linorder, 'v) btree_map \<Rightarrow> 'k \<Rightarrow> bool" where
  "bcontains m k \<longleftrightarrow> bget m k \<noteq> None"

definition bkeys :: "('k::linorder, 'v) btree_map \<Rightarrow> 'k list" where
  "bkeys m = map fst (bentries m)"

definition bvalues :: "('k::linorder, 'v) btree_map \<Rightarrow> 'v list" where
  "bvalues m = map snd (bentries m)"

definition blen :: "('k::linorder, 'v) btree_map \<Rightarrow> nat" where
  "blen m = length (bentries m)"

definition bmap_of :: "('k::linorder \<times> 'v) list \<Rightarrow> ('k, 'v) btree_map" where
  "bmap_of es = fold (\<lambda>(k, v). binsert k v) es bempty"

text \<open>Iterators: \<open>seek\<close>, \<open>seek_for_prev\<close> and \<open>seek_to_last\<close> give what is still to be yielded.\<close>

definition bseek :: "('k::linorder, 'v) btree_map \<Rightarrow> 'k \<Rightarrow> ('k \<times> 'v) list" where
  "bseek m k = filter (\<lambda>e. k \<le> fst e) (bentries m)"

definition bseek_for_prev :: "('k::linorder, 'v) btree_map \<Rightarrow> 'k \<Rightarrow> ('k \<times> 'v) list" where
  "bseek_for_prev m k =
     (case vec_pop (filter (\<lambda>e. fst e \<le> k) (bentries m)) of
        None \<Rightarrow> []
      | Some (e, _) \<Rightarrow> bseek m (fst e))"

definition bseek_to_last :: "('k::linorder, 'v) btree_map \<Rightarrow> ('k \<times> 'v) list" where
  "bseek_to_last m = (case vec_pop (bentries m) of None \<Rightarrow> [] | Some (e, _) \<Rightarrow> [e])"

section \<open>Their laws\<close>

lemma sorted_bentries [simp]: "sorted_keys (bentries m)"
  using bentries by blast

lemma distinct_bkeys [simp]: "distinct (bkeys m)"
  by (simp add: bkeys_def sorted_keys_distinct)

lemma bentries_simps [simp]:
  "bentries bempty = []" "bentries (binsert k v m) = ins_entry k v (bentries m)"
  "bentries (bremove k m) = filter (\<lambda>e. fst e \<noteq> k) (bentries m)"
  by (transfer; simp)+

lemma bget_bempty [simp]: "bget bempty k = None"
  by (simp add: bget_def)

lemma bget_binsert: "bget (binsert k v m) k' = (if k' = k then Some v else bget m k')"
  by (simp add: bget_def map_of_ins_entry)

lemma bget_binsert_same [simp]: "bget (binsert k v m) k = Some v"
  by (simp add: bget_binsert)

lemma bget_binsert_other [simp]: "k' \<noteq> k \<Longrightarrow> bget (binsert k v m) k' = bget m k'"
  by (simp add: bget_binsert)

lemma map_of_filter_key: "map_of (filter (\<lambda>e. fst e \<noteq> k) es) k' = (if k' = k then None else map_of es k')"
  by (induction es) auto

lemma bget_bremove [simp]: "bget (bremove k m) k' = (if k' = k then None else bget m k')"
  by (simp add: bget_def map_of_filter_key)

lemma bget_Some_iff: "bget m k = Some v \<longleftrightarrow> (k, v) \<in> set (bentries m)"
  by (simp add: bget_def map_of_eq_Some_iff sorted_keys_distinct)

lemma bget_bkeys: "k \<in> set (bkeys m) \<longleftrightarrow> bget m k \<noteq> None"
proof -
  have "k \<in> set (bkeys m) \<longleftrightarrow> (\<exists>v. (k, v) \<in> set (bentries m))" unfolding bkeys_def by force
  then show ?thesis by (simp add: bget_Some_iff [symmetric])
qed

lemma btree_map_eqI: "(\<And>k. bget m k = bget m' k) \<Longrightarrow> m = m'"
  by (metis bentries_inject bget_def sorted_bentries sorted_keys_ext ext)

lemma bget_fold_binsert: "bget (fold (\<lambda>(k, v). binsert k v) es m) = bget m ++ map_of (rev es)"
  by (induction es arbitrary: m) (auto simp: bget_binsert fun_eq_iff map_add_def split: option.splits)

lemma bget_bmap_of: "bget (bmap_of es) = map_of (rev es)"
  by (simp add: bmap_of_def bget_fold_binsert map_add_def fun_eq_iff split: option.splits)

lemma bget_fold_other: "k \<notin> fst ` set es \<Longrightarrow> bget (fold (\<lambda>(k, v). binsert k v) es m) k = bget m k"
proof -
  assume "k \<notin> fst ` set es"
  then have "map_of (rev es) k = None" by (simp add: map_of_eq_None_iff)
  then show ?thesis by (simp add: bget_fold_binsert map_add_def)
qed

lemma bget_fold_mem:
  assumes "(k, v) \<in> set es" "\<And>v'. (k, v') \<in> set es \<Longrightarrow> v' = v"
  shows "bget (fold (\<lambda>(k, v). binsert k v) es m) k = Some v"
proof -
  obtain v' where v': "map_of (rev es) k = Some v'" using assms(1) weak_map_of_SomeI [of k v "rev es"] by auto
  from map_of_SomeD [OF this] assms(2) have "v' = v" by auto
  with v' show ?thesis by (simp add: bget_fold_binsert map_add_def)
qed

instantiation btree_map :: (linorder, equal) equal
begin

definition equal_btree_map :: "('a, 'b) btree_map \<Rightarrow> ('a, 'b) btree_map \<Rightarrow> bool" where
  "equal_btree_map m m' \<longleftrightarrow> bentries m = bentries m'"

instance
  by standard (simp add: equal_btree_map_def bentries_inject)

end

end
