(* ===== verification/Accumulator_Store.thy ===== *)
theory Accumulator_Store
  imports Storage_Accumulator BTree_Map
begin

text \<open>
  What the accumulator of \<open>storage/accumulator\<close> writes, and the store of nodes it reads back. The
  interface \<open>merkle_log\<close> is what an append-only log of leaves promises.
\<close>

section \<open>The interface of the storage accumulator\<close>

definition accumulator_view_new :: "hash_reader \<Rightarrow> leaf_count \<Rightarrow> merkle_accumulator_view" where
  "accumulator_view_new reader n = \<lparr>mav_reader = reader, mav_num_leaves = n\<rparr>"

definition merkle_accumulator_append ::
    "node_hasher \<Rightarrow> hash_reader \<Rightarrow> leaf_count \<Rightarrow> hash_value list \<Rightarrow> (hash_value \<times> node list) anyhow" where
  "merkle_accumulator_append H reader num_existing_leaves new_leaves =
     view_append H (accumulator_view_new reader num_existing_leaves) new_leaves"

definition merkle_accumulator_get_proof ::
    "node_hasher \<Rightarrow> hash_reader \<Rightarrow> leaf_count \<Rightarrow> u64 \<Rightarrow> accumulator_proof anyhow" where
  "merkle_accumulator_get_proof H reader n leaf_index = get_proof H (accumulator_view_new reader n) leaf_index"

definition merkle_accumulator_get_consistency_proof ::
    "hash_reader \<Rightarrow> leaf_count \<Rightarrow> leaf_count \<Rightarrow> accumulator_consistency_proof anyhow" where
  "merkle_accumulator_get_consistency_proof reader full_acc_leaves sub_acc_leaves =
     get_consistency_proof (accumulator_view_new reader full_acc_leaves) sub_acc_leaves"

definition merkle_accumulator_get_range_proof ::
    "node_hasher \<Rightarrow> hash_reader \<Rightarrow> leaf_count \<Rightarrow> u64 option \<Rightarrow> leaf_count \<Rightarrow> accumulator_range_proof anyhow" where
  "merkle_accumulator_get_range_proof H reader full_acc_leaves first_leaf_index n =
     get_range_proof H (accumulator_view_new reader full_acc_leaves) first_leaf_index n"

definition merkle_accumulator_get_frozen_subtree_hashes :: "hash_reader \<Rightarrow> leaf_count \<Rightarrow> hash_value list anyhow" where
  "merkle_accumulator_get_frozen_subtree_hashes reader n = get_frozen_subtree_hashes (accumulator_view_new reader n)"

definition max_to_freeze :: "nat \<Rightarrow> nat \<Rightarrow> nat" where
  "max_to_freeze num_new_leaves root_lvl = num_new_leaves * 2 + root_lvl"

lemma accumulator_view_tree: "accumulator_view_new reader (of_nat (length xs)) = tree_view reader xs"
  by (simp add: accumulator_view_new_def tree_view_def)

section \<open>The nodes a leaf freezes\<close>

lemma leaf_freezes_iff:
  assumes "n < 2 ^ 62"
  shows "(l, p) \<in> set (leaf_freezes n) \<longleftrightarrow> (p + 1) * 2 ^ l = n + 1"
proof
  assume "(l, p) \<in> set (leaf_freezes n)"
  then have lp: "l \<le> nto n" "p = n div 2 ^ l" by (auto simp: leaf_freezes_def)
  have "n mod 2 ^ l = 2 ^ l - 1" using lp nto_props(3) [OF assms] by (intro Suc_div_trailing) simp
  then have "p * 2 ^ l + (2 ^ l - 1) = n" using lp(2) div_mult_mod_eq [of n "2 ^ l"] by simp
  moreover have "0 < (2::nat) ^ l" by simp
  ultimately show "(p + 1) * 2 ^ l = n + 1" unfolding add_mult_distrib by linarith
next
  assume e: "(p + 1) * 2 ^ l = n + 1"
  have pos: "2 ^ l - 1 < (2::nat) ^ l" by simp
  have n: "n = (2 ^ l - 1) + p * 2 ^ l" using e pos unfolding add_mult_distrib by linarith
  have "((2 ^ l - 1) + p * 2 ^ l) div 2 ^ l = p" using pos by (metis add.commute add_0 div_less div_mult_self3 nat_neq_iff pos less_nat_zero_code)
  then have p: "p = n div 2 ^ l" using n by simp
  have "l \<le> nto n"
  proof (rule ccontr)
    assume "\<not> l \<le> nto n"
    moreover have "((2 ^ l - 1) + p * 2 ^ l) mod 2 ^ l = 2 ^ l - 1" using pos by (simp only: mod_mult_self1 mod_less)
    then have "take_bit l n = mask l" using n by (simp only: take_bit_eq_mod mask_eq_exp_minus_1)
    ultimately have "bit n (nto n)" by (metis bit_mask_iff bit_take_bit_iff not_le possible_bit_nat)
    then show False using nto_props(2) [OF assms] by simp
  qed
  with p show "(l, p) \<in> set (leaf_freezes n)" by (auto simp: leaf_freezes_def simp del: upt_Suc)
qed

lemma batch_freezes_iff:
  assumes "b \<le> 2 ^ 62"
  shows "(l, p) \<in> set (concat (map leaf_freezes [a..<b])) \<longleftrightarrow> a < (p + 1) * 2 ^ l \<and> (p + 1) * 2 ^ l \<le> b"
proof -
  have "(l, p) \<in> set (concat (map leaf_freezes [a..<b])) \<longleftrightarrow> (\<exists>n \<in> {a..<b}. (p + 1) * 2 ^ l = n + 1)"
    using assms by (simp add: leaf_freezes_iff)
  also have "\<dots> \<longleftrightarrow> a < (p + 1) * 2 ^ l \<and> (p + 1) * 2 ^ l \<le> b"
    by (auto intro!: bexI [of _ "(p + 1) * 2 ^ l - 1"])
  finally show ?thesis .
qed

lemma node_in_tree_valid: "(p + 1) * 2 ^ l \<le> 2 ^ 62 \<Longrightarrow> valid_node l p"
proof -
  assume b: "(p + 1) * 2 ^ l \<le> 2 ^ 62"
  have "1 * 2 ^ l \<le> (p + 1) * (2::nat) ^ l" by (rule mult_le_mono1) simp
  with b have "(2::nat) ^ l \<le> 2 ^ 62" by linarith
  then have l: "l \<le> 62" by (rule power_le_imp_le_exp [rotated]) simp
  then have "(2::nat) ^ 62 = 2 ^ (62 - l) * 2 ^ l" by (simp flip: power_add)
  with b have "(p + 1) * 2 ^ l \<le> 2 ^ (62 - l) * 2 ^ l" by (simp only:)
  then have "p + 1 \<le> 2 ^ (62 - l)" by (simp only: mult_le_cancel2) simp
  moreover have "(2::nat) ^ (62 - l) \<le> 2 ^ (63 - l)" by (rule power_increasing) simp_all
  ultimately have "p + 1 \<le> 2 ^ (63 - l)" by (rule order.trans)
  with l show "valid_node l p" by (simp add: valid_node_def)
qed

lemma node_val_inject:
  assumes "valid_node l p" "valid_node l' p'" "node_val l p = node_val l' p'"
  shows "l = l' \<and> p = p'"
proof -
  have "l < 63" "l' < 63" using assms by (simp_all add: valid_node_def)
  then have l: "l = l'" using level_node [of l p] level_node [of l' p'] assms(3) by simp
  have "p * 2 ^ Suc l + (2 ^ l - 1) = p' * 2 ^ Suc l + (2 ^ l - 1)"
    using unat_node_val [OF assms(1)] unat_node_val [OF assms(2)] assms(3) l by simp
  then have "p * 2 ^ Suc l = p' * 2 ^ Suc l" by (rule add_right_imp_eq)
  with l show ?thesis by simp
qed

subsection \<open>Post-order\<close>

definition frozen_count :: "nat \<Rightarrow> nat" where
  "frozen_count n = 2 * n - popcount n"

lemma popcount_ones: "popcount (2 ^ k - 1) = k"
proof (induction k)
  case (Suc k)
  have "0 < (2::nat) ^ k" by simp
  then have "(2::nat) ^ Suc k - 1 = Suc (2 * (2 ^ k - 1))" unfolding power_Suc by linarith
  then show ?case using Suc by (simp only: popcount_Suc_double)
qed simp

lemma freeze_post_num:
  assumes "n < 2 ^ 62" "k \<le> nto n"
  shows "post_num k (n div 2 ^ k) = frozen_count n + k"
proof -
  define p where "p = n div 2 ^ k"
  have m: "n mod 2 ^ k = 2 ^ k - 1" using assms nto_props(3) [OF assms(1)] by (intro Suc_div_trailing) simp
  then have n: "n = (2 ^ k - 1) + p * 2 ^ k" using div_mult_mod_eq [of n "2 ^ k"] by (simp add: p_def)
  have "popcount ((2 ^ k - 1) + p * 2 ^ k) = popcount (2 ^ k - 1) + popcount p"
    by (rule popcount_add_shift) simp
  then have pc: "popcount n = k + popcount p" using n popcount_ones [of k] by simp
  have "popcount p \<le> p * 2 ^ k" by (rule popcount_le_shift)
  moreover have "k < 2 ^ k" by (rule less_exp)
  moreover define w where "w = (2::nat) ^ k"
  moreover define q where "q = p * w"
  ultimately have w: "popcount p \<le> q" "k < w" "n = (w - 1) + q" using n by simp_all
  have "post_num k p = (2 * w - 2) + (2 * q - popcount p)" by (simp add: post_num_def w_def q_def)
  with w show ?thesis unfolding frozen_count_def pc p_def [symmetric] by linarith
qed

lemma nto_Suc_popcount:
  assumes "n < 2 ^ 62"
  shows "frozen_count (Suc n) = frozen_count n + Suc (nto n)"
proof -
  define k p where "k = nto n" and "p = n div 2 ^ Suc k"
  have m: "n mod 2 ^ k = 2 ^ k - 1" using nto_props(3) [OF assms] by (intro Suc_div_trailing) (simp add: k_def)
  have "even (n div 2 ^ k)" using nto_props(2) [OF assms] by (simp add: k_def bit_iff_odd)
  then have d: "n div 2 ^ k = p * 2" by (simp add: p_def div_pow_Suc del: power_Suc)
  have n: "n = (2 ^ k - 1) + (p * 2) * 2 ^ k" using div_mult_mod_eq [of n "2 ^ k"] m d by simp
  have "popcount ((2 ^ k - 1) + (p * 2) * 2 ^ k) = popcount (2 ^ k - 1) + popcount (p * 2)"
    by (rule popcount_add_shift) simp
  then have pc: "popcount n = k + popcount p" using n popcount_ones [of k] popcount_double [of p] by (simp add: mult.commute)
  have "Suc n = (p * 2 + 1) * 2 ^ k" using n by simp
  then have "popcount (Suc n) = popcount (p * 2 + 1)" by (simp only: popcount_shift)
  then have pS: "popcount (Suc n) = Suc (popcount p)" using popcount_Suc_double [of p] by (simp add: mult.commute)
  have "k + popcount p \<le> n" using popcount_le [of n] pc by simp
  then show ?thesis unfolding frozen_count_def pc pS k_def [symmetric] by simp
qed

lemma leaf_freezes_post_order:
  assumes "n < 2 ^ 62"
  shows "map (\<lambda>(l, p). post_num l p) (leaf_freezes n) = [frozen_count n..<frozen_count (Suc n)]"
proof -
  have "map (\<lambda>(l, p). post_num l p) (leaf_freezes n) = map (\<lambda>k. frozen_count n + k) [0..<Suc (nto n)]"
    using freeze_post_num [OF assms] by (simp add: leaf_freezes_def comp_def del: upt_Suc)
  also have "\<dots> = [frozen_count n..<frozen_count (Suc n)]"
    unfolding nto_Suc_popcount [OF assms] using map_add_upt [of "frozen_count n" "Suc (nto n)"]
    by (simp add: add.commute del: upt_Suc)
  finally show ?thesis .
qed

lemma batch_freezes_post_order:
  "b \<le> 2 ^ 62 \<Longrightarrow> a \<le> b \<Longrightarrow> frozen_count a \<le> frozen_count b \<and>
   map (\<lambda>(l, p). post_num l p) (concat (map leaf_freezes [a..<b])) = [frozen_count a..<frozen_count b]"
proof (induction "b - a" arbitrary: b)
  case (Suc d)
  then obtain c where b: "b = Suc c" "a \<le> c" by (cases b) auto
  have c: "c < 2 ^ 62" using Suc.prems b by simp
  have IH: "frozen_count a \<le> frozen_count c"
    "map (\<lambda>(l, p). post_num l p) (concat (map leaf_freezes [a..<c])) = [frozen_count a..<frozen_count c]"
    using Suc b by simp_all
  have step: "frozen_count c \<le> frozen_count b" using nto_Suc_popcount [OF c] b by simp
  have "map (\<lambda>(l, p). post_num l p) (concat (map leaf_freezes [a..<b])) =
      [frozen_count a..<frozen_count c] @ [frozen_count c..<frozen_count b]"
    using IH(2) leaf_freezes_post_order [OF c] b by simp
  with upt_append_split [OF IH(1) step] IH(1) step show ?case by simp
qed simp

lemma popcount_less_pow: "n < 2 ^ k \<Longrightarrow> popcount n \<le> k"
proof -
  assume "n < 2 ^ k"
  then have "popcount n = length (filter (bit n) [0..<k])" by (simp add: filter_bit_upt)
  also have "\<dots> \<le> k" using length_filter_le [of "bit n" "[0..<k]"] by simp
  finally show ?thesis .
qed

lemma freezes_at_most:
  assumes "a + m \<le> 2 ^ 62"
  shows "length (concat (map leaf_freezes [a..<a + m])) \<le> max_to_freeze m (root_level (a + m))"
proof (cases "m = 0")
  case False
  have "length (concat (map leaf_freezes [a..<a + m])) = frozen_count (a + m) - frozen_count a"
    using batch_freezes_post_order [OF assms, of a] by (metis le_add1 length_map length_upt)
  also have "\<dots> \<le> 2 * m + popcount a"
    using popcount_le [of "a + m"] popcount_le [of a] by (simp add: frozen_count_def)
  also have "popcount a \<le> root_level (a + m)"
    using False root_level_bounds(1) [of "a + m"] by (intro popcount_less_pow) simp
  finally show ?thesis by (simp add: max_to_freeze_def)
qed simp

section \<open>The store of nodes\<close>

instantiation position :: linorder
begin

definition less_eq_position :: "position \<Rightarrow> position \<Rightarrow> bool" where
  "less_eq_position a b \<longleftrightarrow> to_inorder_index a \<le> to_inorder_index b"

definition less_position :: "position \<Rightarrow> position \<Rightarrow> bool" where
  "less_position a b \<longleftrightarrow> to_inorder_index a < to_inorder_index b"

instance
  by standard (auto simp: less_eq_position_def less_position_def position.expand)

end

type_synonym node_column = "(position, hash_value) btree_map"

definition put_nodes :: "node list \<Rightarrow> node_column \<Rightarrow> node_column" where
  "put_nodes writes col = fold (\<lambda>(pos, hash). binsert pos hash) writes col"

definition column_reader :: "string \<Rightarrow> node_column \<Rightarrow> hash_reader" where
  "column_reader msg col pos = ok_or (bget col pos) msg"

lemma tree_node_fst_inj:
  assumes "(l, p) \<in> set (concat (map leaf_freezes [a..<b]))" "b \<le> 2 ^ 62" "valid_node l' p'"
    and "fst (tree_node H zs (l, p)) = Position (node_val l' p')"
  shows "l = l' \<and> p = p'"
proof (rule node_val_inject [OF _ assms(3)])
  show "valid_node l p" using assms(1,2) batch_freezes_iff [OF assms(2)] by (intro node_in_tree_valid) simp
  show "node_val l p = node_val l' p'" using assms(4) by (simp add: tree_node_def)
qed

text \<open>Writing what \<open>append\<close> returns makes every node frozen by then readable.\<close>

lemma reads_frozen_put_nodes:
  assumes r: "reads_frozen H xs (column_reader msg col)" and n: "length xs + length ys \<le> 2 ^ 62"
  shows "reads_frozen H (xs @ ys)
    (column_reader msg (put_nodes (map (tree_node H (xs @ ys)) (concat (map leaf_freezes [length xs..<length xs + length ys]))) col))"
  unfolding reads_frozen_def
proof (intro allI impI)
  fix l p
  assume v: "valid_node l p" and b: "(p + 1) * 2 ^ l \<le> length (xs @ ys)"
  let ?new = "concat (map leaf_freezes [length xs..<length xs + length ys])"
  let ?es = "map (tree_node H (xs @ ys)) ?new"
  have inj: "(l', p') = (l, p)" if "(l', p') \<in> set ?new" "fst (tree_node H (xs @ ys) (l', p')) = tree_pos l p" for l' p'
    using tree_node_fst_inj [OF that(1) n v, of H "xs @ ys"] that(2) by (simp add: tree_pos_def)
  have "bget (put_nodes ?es col) (tree_pos l p) = Some (thash H (xs @ ys) l p)"
  proof (cases "length xs < (p + 1) * 2 ^ l")
    case True
    then have mem: "(l, p) \<in> set ?new" using b batch_freezes_iff [OF n] by simp
    show ?thesis unfolding put_nodes_def
    proof (rule bget_fold_mem)
      show "(tree_pos l p, thash H (xs @ ys) l p) \<in> set ?es"
        using mem by (force simp: tree_node_def tree_pos_def)
      fix h assume "(tree_pos l p, h) \<in> set ?es"
      then obtain e where "e \<in> set ?new" "(tree_pos l p, h) = tree_node H (xs @ ys) e" unfolding set_map by (rule imageE)
      moreover obtain l' p' where "e = (l', p')" by (cases e)
      ultimately have "(l', p') \<in> set ?new" "tree_node H (xs @ ys) (l', p') = (tree_pos l p, h)" by simp_all
      with inj [of l' p'] show "h = thash H (xs @ ys) l p" by (simp add: tree_node_def)
    qed
  next
    case False
    have "tree_pos l p \<notin> fst ` set ?es"
    proof
      assume "tree_pos l p \<in> fst ` set ?es"
      then obtain e where "e \<in> set ?new" "tree_pos l p = fst (tree_node H (xs @ ys) e)"
        unfolding set_map image_image by (rule imageE)
      moreover obtain l' p' where "e = (l', p')" by (cases e)
      ultimately have m: "(l', p') \<in> set ?new" "fst (tree_node H (xs @ ys) (l', p')) = tree_pos l p" by simp_all
      from inj [OF m] m(1) have "(l, p) \<in> set ?new" by simp
      with False batch_freezes_iff [OF n] show False by simp
    qed
    then have "bget (put_nodes ?es col) (tree_pos l p) = bget col (tree_pos l p)"
      unfolding put_nodes_def by (rule bget_fold_other)
    moreover have "column_reader msg col (tree_pos l p) = Inr (thash H xs l p)"
      using r v False by (simp add: reads_frozen_def)
    ultimately show ?thesis
      using thash_append [of p l xs H ys] False by (simp add: column_reader_def ok_or_eq_Inr)
  qed
  then show "column_reader msg (put_nodes ?es col) (tree_pos l p) = Inr (thash H (xs @ ys) l p)"
    by (simp add: column_reader_def)
qed

lemma reads_frozen_Nil: "reads_frozen H [] reader"
  by (simp add: reads_frozen_def)

text \<open>The store for all leaves answers for every prefix of them.\<close>

lemma reads_frozen_take:
  assumes "reads_frozen H xs reader"
  shows "reads_frozen H (take k xs) reader"
  unfolding reads_frozen_def
proof (intro allI impI)
  fix l p assume v: "valid_node l p" and b: "(p + 1) * 2 ^ l \<le> length (take k xs)"
  then have "reader (tree_pos l p) = Inr (thash H xs l p)" using assms by (simp add: reads_frozen_def)
  with thash_append [OF b, of H "drop k xs"] show "reader (tree_pos l p) = Inr (thash H (take k xs) l p)" by simp
qed

section \<open>Consistency proofs\<close>

lemma rmap_map: "rmap f (map g xs) = rmap (f \<circ> g) xs"
  by (induction xs) simp_all

lemma sibling_nodes_bound:
  "cur + rem \<le> 2 ^ 63 \<Longrightarrow> (l, p) \<in> set (sibling_nodes cur rem) \<Longrightarrow> (p + 1) * 2 ^ l \<le> cur + rem"
proof -
  assume b: "cur + rem \<le> 2 ^ 63" and m: "(l, p) \<in> set (sibling_nodes cur rem)"
  have "set (node_leaves (l, p)) \<subseteq> set (concat (map node_leaves (sibling_nodes cur rem)))" using m by auto
  moreover have "0 < (2::nat) ^ l" by simp
  then have "p * 2 ^ l \<le> (p + 1) * 2 ^ l - 1" "(p + 1) * 2 ^ l - 1 < (p + 1) * 2 ^ l"
    unfolding add_mult_distrib by linarith+
  then have "(p + 1) * 2 ^ l - 1 \<in> set (node_leaves (l, p))" by (simp add: node_leaves_def)
  moreover have "concat (map node_leaves (sibling_nodes cur rem)) = [cur..<cur + rem]"
    using b by (rule sibling_nodes_leaves)
  ultimately have "(p + 1) * 2 ^ l - 1 \<in> set [cur..<cur + rem]" by (metis subsetD)
  then show ?thesis by auto
qed

lemma get_consistency_proof_tree:
  assumes r: "reads_frozen H xs reader" and k: "k \<le> length xs" and n: "length xs \<le> 2 ^ 62"
  shows "get_consistency_proof (tree_view reader xs) (of_nat k) =
    Inr \<lparr>acp_subtrees = map (\<lambda>(l, p). thash H xs l p) (sibling_nodes k (length xs - k))\<rparr>"
proof -
  have u: "unat (of_nat k :: u64) = k" "unat (of_nat (length xs) :: u64) = length xs"
    using k n by (auto intro!: unat_of_nat_u64)
  have le: "(of_nat k :: u64) \<le> of_nat (length xs)" using u k by (simp add: word_le_nat_alt)
  have "length xs \<le> 2 ^ 63" using n by simp
  then have mx: "(of_nat (length xs) :: u64) \<le> MAX_ACCUMULATOR_LEAVES"
  proof -
    have "MAX_ACCUMULATOR_LEAVES = onebit 63"
      by (simp add: MAX_ACCUMULATOR_LEAVES_def MAX_ACCUMULATOR_PROOF_DEPTH_def shl_def onebit_def)
    then have "unat MAX_ACCUMULATOR_LEAVES = 2 ^ 63" using unat_onebit [of 63] by simp
    with u(2) \<open>length xs \<le> 2 ^ 63\<close> show ?thesis unfolding word_le_nat_alt by (simp only:)
  qed
  have it: "frozen_subtree_sibling_iterator_new (of_nat k) (of_nat (length xs)) =
      (Inr \<lparr>fss_current_num_leaves = of_nat k, fss_remaining_new_leaves = of_nat (length xs - k)\<rparr> :: _ anyhow)"
    using le mx k by (simp add: frozen_subtree_sibling_iterator_new_def assert_that_def of_nat_diff)
  have b: "k + (length xs - k) \<le> 2 ^ 63" using k n by simp
  have "rmap reader (map (\<lambda>(l, p). Position (node_val l p)) (sibling_nodes k (length xs - k))) =
      rmap (\<lambda>(l, p). reader (Position (node_val l p))) (sibling_nodes k (length xs - k))"
    by (simp add: rmap_map comp_def case_prod_unfold)
  also have "\<dots> = Inr (map (\<lambda>(l, p). thash H xs l p) (sibling_nodes k (length xs - k)))"
  proof (rule rmap_total)
    fix e assume "e \<in> set (sibling_nodes k (length xs - k))"
    moreover obtain l p where e: "e = (l, p)" by (cases e)
    ultimately have p: "(p + 1) * 2 ^ l \<le> length xs" using sibling_nodes_bound [OF b, of l p] k by simp
    then have "valid_node l p" using n by (intro node_in_tree_valid) simp
    from reads_frozenD [OF r this p] e
    show "(case e of (l, p) \<Rightarrow> reader (Position (node_val l p))) = Inr (case e of (l, p) \<Rightarrow> thash H xs l p)" by simp
  qed
  finally show ?thesis
    using le by (simp add: get_consistency_proof_def it frozen_subtree_sibling_collect_eq [OF b])
qed

lemma get_frozen_subtree_hashes_tree:
  assumes r: "reads_frozen H xs reader" and n: "length xs \<le> 2 ^ 62"
  shows "get_frozen_subtree_hashes (tree_view reader xs) = Inr (tree_frozen H xs)"
proof -
  have u: "unat (of_nat (length xs) :: u64) = length xs" using n by (intro unat_of_nat_u64) simp
  have l: "length xs < 2 ^ 63" "length xs < 2 ^ 64" using n by simp_all
  have "rmap reader (map (\<lambda>(l, p). Position (node_val l p)) (frozen_nodes (length xs))) =
      rmap (\<lambda>(l, p). reader (Position (node_val l p))) (frozen_nodes (length xs))"
    by (simp add: rmap_map comp_def case_prod_unfold)
  also have "\<dots> = Inr (map (\<lambda>(l, p). thash H xs l p) (frozen_nodes (length xs)))"
  proof (rule rmap_total)
    fix e assume "e \<in> set (frozen_nodes (length xs))"
    then obtain l where e: "e = (l, length xs div 2 ^ l - 1)" and "bit (length xs) l" by (auto simp: frozen_nodes_def)
    then have p: "(length xs div 2 ^ l - 1 + 1) * 2 ^ l \<le> length xs" by (intro frozen_node_bound)
    then have "valid_node l (length xs div 2 ^ l - 1)" using n by (intro node_in_tree_valid) simp
    from reads_frozenD [OF r this p] e
    show "(case e of (l, p) \<Rightarrow> reader (Position (node_val l p))) = Inr (case e of (l, p) \<Rightarrow> thash H xs l p)" by simp
  qed
  finally show ?thesis
    using frozen_subtree_collect_eq [of "of_nat (length xs)"] u l
    by (simp add: get_frozen_subtree_hashes_def tree_frozen_def)
qed

section \<open>Logs of leaves\<close>

text \<open>
  The contract of an append-only log: in any state that represents the leaves \<open>xs\<close>, appending
  items succeeds, returns the root hash over all leaves and represents all of them.
\<close>

primrec run_batches :: "('s \<Rightarrow> 'b \<Rightarrow> 'e + 'r \<times> 's) \<Rightarrow> 's \<Rightarrow> 'b list \<Rightarrow> 'e + 'r list \<times> 's" where
  "run_batches f s [] = Inr ([], s)"
| "run_batches f s (b # bs) = rbind (f s b) (\<lambda>(r, s'). rbind (run_batches f s' bs) (\<lambda>(rs, s''). Inr (r # rs, s'')))"

locale merkle_log =
  fixes H :: node_hasher
    and leaf :: "'i \<Rightarrow> hash_value"
    and rep :: "'s \<Rightarrow> 'i list \<Rightarrow> bool"
    and new :: "'s anyhow"
    and append_items :: "'s \<Rightarrow> 'i list \<Rightarrow> (hash_value \<times> 's) anyhow"
    and capacity :: nat
  assumes rep_new: "\<exists>s. new = Inr s \<and> rep s []"
    and rep_append: "rep s xs \<Longrightarrow> length xs + length ys \<le> capacity \<Longrightarrow>
      \<exists>s'. append_items s ys = Inr (tree_root H (map leaf (xs @ ys)), s') \<and> rep s' (xs @ ys)"
begin

lemma batches_from:
  "rep s xs \<Longrightarrow> length xs + length (concat yss) \<le> capacity \<Longrightarrow>
   \<exists>s'. run_batches append_items s yss =
     Inr (map (\<lambda>k. tree_root H (map leaf (xs @ concat (take k yss)))) [1..<Suc (length yss)], s') \<and> rep s' (xs @ concat yss)"
proof (induction yss arbitrary: s xs)
  case (Cons ys yss)
  have "length xs + length ys \<le> capacity" using Cons.prems by simp
  from rep_append [OF Cons.prems(1) this] obtain s' where
    s': "append_items s ys = Inr (tree_root H (map leaf (xs @ ys)), s')" "rep s' (xs @ ys)" by blast
  have "length (xs @ ys) + length (concat yss) \<le> capacity" using Cons.prems by simp
  from Cons.IH [OF s'(2) this] obtain s'' where
    s'': "run_batches append_items s' yss =
      Inr (map (\<lambda>k. tree_root H (map leaf ((xs @ ys) @ concat (take k yss)))) [1..<Suc (length yss)], s'')"
    "rep s'' ((xs @ ys) @ concat yss)" by blast
  have "[1..<Suc (length (ys # yss))] = 1 # map Suc [1..<Suc (length yss)]"
    by (simp add: map_Suc_upt upt_conv_Cons del: upt_Suc)
  with s' s'' show ?case by (simp add: comp_def del: upt_Suc)
qed simp

lemma batches_from_new:
  assumes "length (concat yss) \<le> capacity"
  shows "\<exists>s'. rbind new (\<lambda>s. run_batches append_items s yss) =
    Inr (map (\<lambda>k. tree_root H (map leaf (concat (take k yss)))) [1..<Suc (length yss)], s') \<and> rep s' (concat yss)"
proof -
  from rep_new obtain s where "new = Inr s" "rep s []" by blast
  with batches_from [of s "[]" yss] assms show ?thesis by simp
qed

end

text \<open>Two logs that hash their items to the same leaves report the same root hashes.\<close>

locale merkle_log_pair =
  a: merkle_log H leaf rep new append_items capacity +
  b: merkle_log H leaf' rep' new' append_items' capacity'
  for H :: node_hasher
    and leaf :: "'i \<Rightarrow> hash_value" and rep :: "'s \<Rightarrow> 'i list \<Rightarrow> bool" and new :: "'s anyhow"
    and append_items :: "'s \<Rightarrow> 'i list \<Rightarrow> (hash_value \<times> 's) anyhow" and capacity :: nat
    and leaf' :: "'j \<Rightarrow> hash_value" and rep' :: "'t \<Rightarrow> 'j list \<Rightarrow> bool" and new' :: "'t anyhow"
    and append_items' :: "'t \<Rightarrow> 'j list \<Rightarrow> (hash_value \<times> 't) anyhow" and capacity' :: nat
begin

lemma same_roots:
  assumes "map (map leaf) yss = map (map leaf') zss"
    and "length (concat yss) \<le> capacity" "length (concat zss) \<le> capacity'"
  shows "\<exists>roots s t. rbind new (\<lambda>s. run_batches append_items s yss) = Inr (roots, s) \<and>
    rbind new' (\<lambda>t. run_batches append_items' t zss) = Inr (roots, t) \<and> rep s (concat yss) \<and> rep' t (concat zss)"
proof -
  have "length yss = length zss" using assms(1) by (metis length_map)
  moreover have "map leaf (concat (take k yss)) = map leaf' (concat (take k zss))" for k
    using assms(1) by (metis map_concat take_map)
  ultimately show ?thesis
    using a.batches_from_new [OF assms(2)] b.batches_from_new [OF assms(3)] by fastforce
qed

end

text \<open>The in-memory accumulator is a log.\<close>

definition mem_log_append ::
    "node_hasher \<Rightarrow> in_memory_accumulator \<Rightarrow> hash_value list \<Rightarrow> (hash_value \<times> in_memory_accumulator) anyhow" where
  "mem_log_append H acc leaves = rbind (append_leaves H acc leaves) (\<lambda>acc'. Inr (root_hash acc', acc'))"

interpretation mem_log: merkle_log H "\<lambda>h. h" "\<lambda>acc xs. acc = acc_of H xs" "accumulator_default H" "mem_log_append H" "2 ^ 64 - 1"
  for H :: node_hasher
proof (unfold_locales, goal_cases)
  case 1
  show ?case by (simp add: accumulator_default_tree)
next
  case (2 s xs ys)
  then have "length xs + length ys < 2 ^ 64" by simp
  from append_leaves_tree [OF this, of H, where 'e = string] 2 show ?case
    by (simp add: mem_log_append_def) (simp add: acc_of_def)
qed

end
