(* ===== verification/Ed25519.thy ===== *)
theory Ed25519
  imports Hash_Value
begin

text \<open>
  Signatures (\<open>crypto/crypto/src/ed25519.rs\<close>, \<open>crypto/crypto/src/traits.rs\<close>). The curve arithmetic
  of the \<open>ed25519_dalek\<close> crate and the bytes that \<open>serde\<close> derives for a message are the fields of
  \<open>sig_scheme\<close>; the canonicity check of a signature and the two ways to verify many signatures on
  one message are the code's.
\<close>

section \<open>Operations\<close>

type_synonym ed25519_public_key = "u8 list"
type_synonym ed25519_signature = "u8 list"

datatype crypto_material_error =
    SerializationError
  | DeserializationError
  | ValidationError
  | WrongLengthError
  | CanonicalRepresentationError
  | SmallSubgroupError
  | PointNotOnCurveError
  | BitVecError string

record 'm sig_scheme =
  encode_msg :: "'m \<Rightarrow> u8 list option"
  dalek_verify :: "ed25519_public_key \<Rightarrow> u8 list \<Rightarrow> ed25519_signature \<Rightarrow> bool"
  dalek_verify_batch :: "u8 list list \<Rightarrow> ed25519_signature list \<Rightarrow> ed25519_public_key list \<Rightarrow> bool"
  batch_feature :: bool

definition ED25519_SIGNATURE_LENGTH :: nat where "ED25519_SIGNATURE_LENGTH = 64"

definition ed25519_L :: "u8 list" where
  "ed25519_L =
     [0xed, 0xd3, 0xf5, 0x5c, 0x1a, 0x63, 0x12, 0x58, 0xd6, 0x9c, 0xf7, 0xa2, 0xde, 0xf9, 0xde, 0x14,
      0x00, 0x00, 0x00, 0x00, 0x00, 0x00, 0x00, 0x00, 0x00, 0x00, 0x00, 0x00, 0x00, 0x00, 0x00, 0x10]"

primrec s_lt_l_loop :: "nat list \<Rightarrow> u8 list \<Rightarrow> bool" where
  "s_lt_l_loop [] s = False"
| "s_lt_l_loop (i # is) s =
     (if s ! i < ed25519_L ! i then True else if ed25519_L ! i < s ! i then False else s_lt_l_loop is s)"

definition check_s_lt_l :: "u8 list \<Rightarrow> bool" where
  "check_s_lt_l s = s_lt_l_loop (rev [0..<32]) s"

definition check_malleability :: "u8 list \<Rightarrow> (crypto_material_error, unit) result" where
  "check_malleability bytes =
     (if length bytes \<noteq> ED25519_SIGNATURE_LENGTH then Inl (Err WrongLengthError)
      else if \<not> check_s_lt_l (drop 32 bytes) then Inl (Err CanonicalRepresentationError)
      else Inr ())"

definition signature_try_from ::
    "(u8 list \<Rightarrow> ed25519_signature option) \<Rightarrow> u8 list \<Rightarrow> (crypto_material_error, ed25519_signature) result" where
  "signature_try_from dalek_from_bytes bytes =
     rbind (check_malleability bytes) (\<lambda>_. ok_or (dalek_from_bytes bytes) DeserializationError)"

definition verify_arbitrary_msg ::
    "'m sig_scheme \<Rightarrow> ed25519_signature \<Rightarrow> u8 list \<Rightarrow> ed25519_public_key \<Rightarrow> (crypto_material_error, unit) result" where
  "verify_arbitrary_msg S self message public_key =
     rbind (check_malleability self) (\<lambda>_. ensure (dalek_verify S public_key message self) ValidationError)"

definition signature_verify ::
    "'m sig_scheme \<Rightarrow> ed25519_signature \<Rightarrow> 'm \<Rightarrow> ed25519_public_key \<Rightarrow> (crypto_material_error, unit) result" where
  "signature_verify S self message public_key =
     rbind (ok_or (encode_msg S message) SerializationError) (\<lambda>bytes. verify_arbitrary_msg S self bytes public_key)"

definition verify_struct_signature ::
    "'m sig_scheme \<Rightarrow> ed25519_public_key \<Rightarrow> 'm \<Rightarrow> ed25519_signature \<Rightarrow> (crypto_material_error, unit) result" where
  "verify_struct_signature S self message signature = signature_verify S signature message self"

text \<open>The trait's implementation, and the one compiled with the feature \<open>batch\<close>.\<close>

definition batch_verify_default ::
    "'m sig_scheme \<Rightarrow> 'm \<Rightarrow> (ed25519_public_key \<times> ed25519_signature) list \<Rightarrow> (crypto_material_error, unit) result" where
  "batch_verify_default S message keys_and_signatures =
     rfor_each (\<lambda>(key, signature). signature_verify S signature message key) keys_and_signatures"

definition batch_verify_dalek ::
    "'m sig_scheme \<Rightarrow> 'm \<Rightarrow> (ed25519_public_key \<times> ed25519_signature) list \<Rightarrow> (crypto_material_error, unit) result" where
  "batch_verify_dalek S message keys_and_signatures =
     rbind (rfor_each (\<lambda>(_, sig). check_malleability sig) keys_and_signatures) (\<lambda>_.
     rbind (ok_or (encode_msg S message) SerializationError) (\<lambda>message_bytes.
     let dalek_signatures = map snd keys_and_signatures;
         dalek_public_keys = map fst keys_and_signatures;
         messages = replicate (length dalek_signatures) message_bytes
     in ensure (dalek_verify_batch S messages dalek_signatures dalek_public_keys) ValidationError))"

definition batch_verify ::
    "'m sig_scheme \<Rightarrow> 'm \<Rightarrow> (ed25519_public_key \<times> ed25519_signature) list \<Rightarrow> (crypto_material_error, unit) result" where
  "batch_verify S message keys_and_signatures =
     (if batch_feature S then batch_verify_dalek S message keys_and_signatures
      else batch_verify_default S message keys_and_signatures)"

section \<open>Properties\<close>

text \<open>What the documentation of \<open>verify_batch\<close> promises: it accepts only if every signature verifies.\<close>

definition batch_sound :: "'m sig_scheme \<Rightarrow> bool" where
  "batch_sound S \<longleftrightarrow> (\<forall>msgs sigs keys. length msgs = length sigs \<longrightarrow> length keys = length sigs \<longrightarrow>
     dalek_verify_batch S msgs sigs keys \<longrightarrow> (\<forall>i < length sigs. dalek_verify S (keys ! i) (msgs ! i) (sigs ! i)))"

lemma batch_verify_sound:
  assumes "batch_sound S" "batch_verify S m kss = Inr ()" "(k, s) \<in> set kss"
  shows "verify_struct_signature S k m s = Inr ()"
proof (cases "batch_feature S")
  case True
  with assms(2) obtain b where b: "encode_msg S m = Some b" "dalek_verify_batch S (replicate (length kss) b) (map snd kss) (map fst kss)"
    and mal: "\<And>k s. (k, s) \<in> set kss \<Longrightarrow> check_malleability s = Inr ()"
    by (fastforce simp: batch_verify_def batch_verify_dalek_def result_simps Let_def)
  from assms(3) obtain i where i: "i < length kss" "kss ! i = (k, s)" by (auto simp: in_set_conv_nth)
  have "dalek_verify S (map fst kss ! i) (replicate (length kss) b ! i) (map snd kss ! i)"
    using assms(1) b(2) i(1) unfolding batch_sound_def by (metis length_map length_replicate)
  with i b mal assms(3) show ?thesis
    by (auto simp: verify_struct_signature_def signature_verify_def verify_arbitrary_msg_def result_simps)
next
  case False
  with assms(2,3) show ?thesis
    by (auto simp: batch_verify_def batch_verify_default_def result_simps verify_struct_signature_def)
qed

text \<open>A little-endian byte list as a number.\<close>

primrec le_nat :: "u8 list \<Rightarrow> nat" where
  "le_nat [] = 0"
| "le_nat (b # bs) = unat b + 256 * le_nat bs"

lemma le_nat_less: "le_nat bs < 256 ^ length bs"
proof (induction bs)
  case (Cons b bs)
  have "unat b < 256" using unsigned_less [of b] by simp
  with Cons show ?case by simp
qed simp

lemma le_nat_snoc: "le_nat (bs @ [b]) = le_nat bs + 256 ^ length bs * unat b"
  by (induction bs) (simp_all add: algebra_simps)

lemma le_nat_take_Suc: "n < length bs \<Longrightarrow> le_nat (take (Suc n) bs) = le_nat (take n bs) + 256 ^ n * unat (bs ! n)"
  by (simp add: take_Suc_conv_app_nth le_nat_snoc)

lemma digit_less:
  fixes x y w :: nat
  assumes "x < w" "a < b"
  shows "x + w * a < y + w * b"
proof -
  have "x + w * a < w * Suc a" using assms(1) by simp
  also have "\<dots> \<le> w * b" using assms(2) by (intro mult_le_mono2) simp
  finally show ?thesis by simp
qed

lemma s_lt_l_loop_less:
  assumes "length s = 32"
  shows "n \<le> 32 \<Longrightarrow> s_lt_l_loop (rev [0..<n]) s \<longleftrightarrow> le_nat (take n s) < le_nat (take n ed25519_L)"
proof (induction n)
  case (Suc n)
  have n: "n < length s" "n < length ed25519_L" using Suc.prems assms by (simp_all add: ed25519_L_def)
  have lt: "le_nat (take n s) < 256 ^ n" "le_nat (take n ed25519_L) < 256 ^ n"
    using le_nat_less [of "take n s"] le_nat_less [of "take n ed25519_L"] n by simp_all
  note d = le_nat_take_Suc [OF n(1)] le_nat_take_Suc [OF n(2)]
  consider "s ! n < ed25519_L ! n" | "ed25519_L ! n < s ! n" | "s ! n = ed25519_L ! n" by (metis linorder_less_linear)
  then show ?case
  proof cases
    case 1
    with digit_less [OF lt(1), of "unat (s ! n)" "unat (ed25519_L ! n)"] d show ?thesis by (simp add: word_less_nat_alt)
  next
    case 2
    with digit_less [OF lt(2), of "unat (ed25519_L ! n)" "unat (s ! n)" "le_nat (take n s)"] d
    show ?thesis by (simp add: word_less_nat_alt)
  next
    case 3
    with d Suc show ?thesis by simp
  qed
qed simp

lemma check_malleability_iff:
  "check_malleability bytes = Inr () \<longleftrightarrow>
     length bytes = 64 \<and> le_nat (drop 32 bytes) < 2 ^ 252 + 27742317777372353535851937790883648493"
proof -
  have "le_nat ed25519_L = 2 ^ 252 + 27742317777372353535851937790883648493"
    by (simp add: ed25519_L_def)
  moreover have "take 32 ed25519_L = ed25519_L" by (simp add: ed25519_L_def)
  ultimately show ?thesis
    using s_lt_l_loop_less [of "drop 32 bytes" 32]
    by (simp add: check_malleability_def check_s_lt_l_def ED25519_SIGNATURE_LENGTH_def)
qed

text \<open>
  C29: The canonicity check of a signature compares numbers: \<open>check_malleability\<close> accepts exactly the
  64 byte signatures whose second half, read as a little-endian number, is smaller than the order
  of the curve group, \<open>2^252 + 27742317777372353535851937790883648493\<close>; it never panics.
\<close>

theorem check_malleability_canonical:
  "check_malleability bytes = Inr () \<longleftrightarrow>
     length bytes = 64 \<and> le_nat (drop 32 bytes) < 2 ^ 252 + 27742317777372353535851937790883648493"
  by (rule check_malleability_iff)

end
