(* ===== verification/Validator_Verifier.thy ===== *)
theory Validator_Verifier
  imports Ed25519 BTree_Map
begin

text \<open>
  Validator sets, the verifier that checks the signatures of a set of validators against its voting
  powers (\<open>types/src/validator_verifier.rs\<close>), and the interface \<open>quorum_system\<close> through which the
  rest of the development uses it.
\<close>

section \<open>Validator sets\<close>

record validator_config =
  consensus_public_key :: ed25519_public_key
  validator_network_identity_public_key :: "u8 list"
  validator_network_address :: "u8 list"
  full_node_network_identity_public_key :: "u8 list"
  full_node_network_address :: "u8 list"

record validator_info =
  vi_account_address :: account_address
  consensus_voting_power :: u64
  vi_config :: validator_config

datatype consensus_scheme = SchemeEd25519

record validator_set =
  vs_scheme :: consensus_scheme
  vs_payload :: "validator_info list"

definition validator_set_new :: "validator_info list \<Rightarrow> validator_set" where
  "validator_set_new payload = \<lparr>vs_scheme = SchemeEd25519, vs_payload = payload\<rparr>"

definition validator_set_empty :: validator_set where
  "validator_set_empty = validator_set_new []"

section \<open>The verifier\<close>

datatype verify_error =
    UnknownAuthor
  | TooLittleVotingPower (voting_power: u64) (quorum_power: u64)
  | TooManySignatures (num_of_signatures: nat) (num_of_authors: nat)
  | InvalidSignature

record validator_consensus_info =
  vci_public_key :: ed25519_public_key
  vci_voting_power :: u64

record validator_verifier =
  address_to_validator_info :: "(account_address, validator_consensus_info) btree_map"
  quorum_voting_power :: u64
  total_voting_power :: u64

type_synonym signatures = "(account_address, ed25519_signature) btree_map"

definition sum_voting_power :: "(account_address, validator_consensus_info) btree_map \<Rightarrow> u64" where
  "sum_voting_power infos = fold (\<lambda>x sum. sum + vci_voting_power x) (bvalues infos) 0"

definition verifier_new :: "(account_address, validator_consensus_info) btree_map \<Rightarrow> validator_verifier" where
  "verifier_new infos =
     (let total = sum_voting_power infos;
          quorum = (if blen infos = 0 then 0 else total * 2 div 3 + 1)
      in \<lparr>address_to_validator_info = infos, quorum_voting_power = quorum, total_voting_power = total\<rparr>)"

definition new_with_quorum_voting_power ::
    "(account_address, validator_consensus_info) btree_map \<Rightarrow> u64 \<Rightarrow> validator_verifier anyhow" where
  "new_with_quorum_voting_power infos quorum =
     (let total = sum_voting_power infos
      in rbind (ensure (quorum \<le> total) ''Quorum voting power is greater than the sum of all voting power of authors'') (\<lambda>_.
         Inr \<lparr>address_to_validator_info = infos, quorum_voting_power = quorum, total_voting_power = total\<rparr>))"

definition new_single :: "account_address \<Rightarrow> ed25519_public_key \<Rightarrow> validator_verifier" where
  "new_single author public_key =
     verifier_new (binsert author \<lparr>vci_public_key = public_key, vci_voting_power = 1\<rparr> bempty)"

definition get_public_key :: "validator_verifier \<Rightarrow> account_address \<Rightarrow> ed25519_public_key option" where
  "get_public_key self author = map_option vci_public_key (bget (address_to_validator_info self) author)"

definition get_voting_power :: "validator_verifier \<Rightarrow> account_address \<Rightarrow> u64 option" where
  "get_voting_power self author = map_option vci_voting_power (bget (address_to_validator_info self) author)"

definition get_ordered_account_addresses :: "validator_verifier \<Rightarrow> account_address list" where
  "get_ordered_account_addresses self = bkeys (address_to_validator_info self)"

definition verifier_len :: "validator_verifier \<Rightarrow> nat" where
  "verifier_len self = blen (address_to_validator_info self)"

definition verifier_is_empty :: "validator_verifier \<Rightarrow> bool" where
  "verifier_is_empty self = (verifier_len self = 0)"

definition verifier_verify ::
    "'m sig_scheme \<Rightarrow> validator_verifier \<Rightarrow> account_address \<Rightarrow> 'm \<Rightarrow> ed25519_signature \<Rightarrow> (verify_error, unit) result" where
  "verifier_verify S self author message signature =
     (case get_public_key self author of
        Some public_key \<Rightarrow>
          if \<not> is_ok (verify_struct_signature S public_key message signature) then Inl (Err InvalidSignature) else Inr ()
      | None \<Rightarrow> Inl (Err UnknownAuthor))"

definition check_num_of_signatures :: "validator_verifier \<Rightarrow> signatures \<Rightarrow> (verify_error, unit) result" where
  "check_num_of_signatures self aggregated_signature =
     (let num = blen aggregated_signature
      in if num > verifier_len self then Inl (Err (TooManySignatures num (verifier_len self))) else Inr ())"

primrec voting_power_loop :: "validator_verifier \<Rightarrow> account_address list \<Rightarrow> u64 \<Rightarrow> (verify_error, u64) result" where
  "voting_power_loop self [] aggregated = Inr aggregated"
| "voting_power_loop self (a # authors) aggregated =
     (case get_voting_power self a of
        Some vp \<Rightarrow> voting_power_loop self authors (aggregated + vp)
      | None \<Rightarrow> Inl (Err UnknownAuthor))"

definition check_voting_power :: "validator_verifier \<Rightarrow> account_address list \<Rightarrow> (verify_error, unit) result" where
  "check_voting_power self authors =
     rbind (voting_power_loop self authors 0) (\<lambda>aggregated.
     if aggregated < quorum_voting_power self
     then Inl (Err (TooLittleVotingPower aggregated (quorum_voting_power self)))
     else Inr ())"

definition verify_aggregated_struct_signature ::
    "'m sig_scheme \<Rightarrow> validator_verifier \<Rightarrow> 'm \<Rightarrow> signatures \<Rightarrow> (verify_error, unit) result" where
  "verify_aggregated_struct_signature S self message aggregated_signature =
     rbind (check_num_of_signatures self aggregated_signature) (\<lambda>_.
     rbind (check_voting_power self (bkeys aggregated_signature)) (\<lambda>_.
     rfor_each (\<lambda>(author, signature). verifier_verify S self author message signature) (bentries aggregated_signature)))"

definition keys_and_signatures ::
    "validator_verifier \<Rightarrow> signatures \<Rightarrow> (ed25519_public_key \<times> ed25519_signature) list" where
  "keys_and_signatures self aggregated_signature =
     List.map_filter (\<lambda>(address, signature). map_option (\<lambda>pub_key. (pub_key, signature)) (get_public_key self address))
       (bentries aggregated_signature)"

definition batch_verify_aggregated_signatures ::
    "'m sig_scheme \<Rightarrow> validator_verifier \<Rightarrow> 'm \<Rightarrow> signatures \<Rightarrow> (verify_error, unit) result" where
  "batch_verify_aggregated_signatures S self message aggregated_signature =
     rbind (check_num_of_signatures self aggregated_signature) (\<lambda>_.
     rbind (check_voting_power self (bkeys aggregated_signature)) (\<lambda>_.
     if \<not> is_ok (batch_verify S message (keys_and_signatures self aggregated_signature))
     then verify_aggregated_struct_signature S self message aggregated_signature
     else Inr ()))"

definition verifier_of_validator_set :: "validator_set \<Rightarrow> validator_verifier" where
  "verifier_of_validator_set vs =
     verifier_new (fold (\<lambda>validator. binsert (vi_account_address validator)
       \<lparr>vci_public_key = consensus_public_key (vi_config validator), vci_voting_power = consensus_voting_power validator\<rparr>)
       (vs_payload vs) bempty)"

section \<open>Voting power\<close>

definition power_of :: "validator_verifier \<Rightarrow> account_address \<Rightarrow> nat" where
  "power_of vv a = (case get_voting_power vv a of Some p \<Rightarrow> unat p | None \<Rightarrow> 0)"

definition members :: "validator_verifier \<Rightarrow> account_address set" where
  "members vv = set (bkeys (address_to_validator_info vv))"

definition total_power :: "validator_verifier \<Rightarrow> nat" where
  "total_power vv = (\<Sum>a \<in> members vv. power_of vv a)"

lemma finite_members [simp]: "finite (members vv)"
  by (simp add: members_def)

lemma members_iff: "a \<in> members vv \<longleftrightarrow> get_voting_power vv a \<noteq> None"
  by (simp add: members_def bget_bkeys get_voting_power_def)

lemma members_public_key: "a \<in> members vv \<longleftrightarrow> get_public_key vv a \<noteq> None"
  by (simp add: members_def bget_bkeys get_public_key_def)

lemma voting_power_loop_eq:
  "voting_power_loop vv as acc =
     (if set as \<subseteq> members vv then Inr (acc + of_nat (sum_list (map (power_of vv) as))) else Inl (Err UnknownAuthor))"
  by (induction as arbitrary: acc) (auto simp: members_iff power_of_def split: option.splits)

lemma check_voting_power_eq:
  "check_voting_power vv as =
     (if \<not> set as \<subseteq> members vv then Inl (Err UnknownAuthor)
      else let p = of_nat (sum_list (map (power_of vv) as))
           in if p < quorum_voting_power vv then Inl (Err (TooLittleVotingPower p (quorum_voting_power vv))) else Inr ())"
  by (simp add: check_voting_power_def voting_power_loop_eq Let_def)

lemma sum_power_le:
  assumes "distinct as" "set as \<subseteq> members vv"
  shows "sum_list (map (power_of vv) as) \<le> total_power vv"
  using assms sum_mono2 [OF finite_members, of "set as" vv "power_of vv"]
  by (simp add: sum_list_map_distinct total_power_def)

lemma sum_voting_power_eq: "sum_voting_power infos = of_nat (\<Sum>a \<in> set (bkeys infos). (case bget infos a of Some i \<Rightarrow> unat (vci_voting_power i) | None \<Rightarrow> 0))"
proof -
  have f: "fold (\<lambda>x sum. sum + vci_voting_power x) xs acc = acc + of_nat (\<Sum>x\<leftarrow>xs. unat (vci_voting_power x))" for xs acc
    by (induction xs arbitrary: acc) (simp_all add: algebra_simps)
  have v: "(\<Sum>x\<leftarrow>bvalues infos. unat (vci_voting_power x)) =
      (\<Sum>a\<leftarrow>bkeys infos. (case bget infos a of Some i \<Rightarrow> unat (vci_voting_power i) | None \<Rightarrow> 0))"
    unfolding bvalues_def bkeys_def map_map comp_def
    by (intro arg_cong [where f = sum_list] map_cong) (auto simp flip: bget_Some_iff)
  show ?thesis unfolding sum_voting_power_def by (simp only: f v sum_list_map_distinct [OF distinct_bkeys] add_0_left)
qed

lemma total_voting_power_new: "total_voting_power (verifier_new infos) = of_nat (total_power (verifier_new infos))"
proof -
  have "power_of (verifier_new infos) a = (case bget infos a of Some i \<Rightarrow> unat (vci_voting_power i) | None \<Rightarrow> 0)" for a
    by (simp add: power_of_def get_voting_power_def verifier_new_def Let_def split: option.splits)
  then show ?thesis
    by (simp add: total_power_def members_def sum_voting_power_eq) (simp add: verifier_new_def Let_def sum_voting_power_eq)
qed

text \<open>A verifier made by \<open>new\<close> whose quorum computation does not wrap around.\<close>

definition verifier_ok :: "validator_verifier \<Rightarrow> bool" where
  "verifier_ok vv \<longleftrightarrow> vv = verifier_new (address_to_validator_info vv) \<and> total_power vv < 2 ^ 63"

lemma verifier_okD:
  assumes "verifier_ok vv" "members vv \<noteq> {}"
  shows "unat (quorum_voting_power vv) = total_power vv * 2 div 3 + 1" "unat (total_voting_power vv) = total_power vv"
proof -
  let ?T = "total_power vv"
  have v: "vv = verifier_new (address_to_validator_info vv)" and T: "?T < 2 ^ 63" using assms(1) by (auto simp: verifier_ok_def)
  have t: "total_voting_power vv = of_nat ?T" using total_voting_power_new v by metis
  have T64: "?T < 2 ^ 64" using T by simp
  with t show ut: "unat (total_voting_power vv) = ?T" by (simp only: unat_of_nat_u64)
  have "blen (address_to_validator_info vv) \<noteq> 0" using assms(2) by (auto simp: members_def bkeys_def blen_def)
  then have q: "quorum_voting_power vv = total_voting_power vv * 2 div 3 + 1"
    by (subst v, subst (2) v) (simp add: verifier_new_def Let_def)
  have "unat (total_voting_power vv * 2) = ?T * 2"
    using ut T by (subst unat_mult_lem [THEN iffD1]) simp_all
  then have d: "unat (total_voting_power vv * 2 div 3) = ?T * 2 div 3" by (simp add: unat_div)
  show "unat (quorum_voting_power vv) = ?T * 2 div 3 + 1"
    unfolding q using d T by (subst unat_add_u64) simp_all
qed

section \<open>Quorums\<close>

text \<open>
  What a quorum promises to the code that relies on it: it is made of members, and it weighs more
  than two thirds of all of them.
\<close>

locale quorum_system =
  fixes weight :: "'a \<Rightarrow> nat" and universe :: "'a set" and quorum :: "'a set \<Rightarrow> bool"
  assumes finite_universe: "finite universe"
    and quorum_subset: "quorum A \<Longrightarrow> A \<subseteq> universe"
    and quorum_weight: "quorum A \<Longrightarrow> 2 * sum weight universe < 3 * sum weight A"
begin

lemma intersection_weight:
  assumes "quorum A" "quorum B"
  shows "sum weight universe < 3 * sum weight (A \<inter> B)"
proof -
  have f: "finite A" "finite B" using assms quorum_subset finite_universe by (auto intro: finite_subset)
  have "sum weight (A \<union> B) \<le> sum weight universe"
    using assms quorum_subset finite_universe by (intro sum_mono2) auto
  moreover have "sum weight (A \<union> B) + sum weight (A \<inter> B) = sum weight A + sum weight B"
    using f by (rule sum.union_inter)
  ultimately show ?thesis using quorum_weight [OF assms(1)] quorum_weight [OF assms(2)] by linarith
qed

text \<open>If at most a third of the weight is faulty, two quorums share a member that is not.\<close>

lemma correct_member:
  assumes "quorum A" "quorum B" "3 * sum weight (faulty \<inter> universe) \<le> sum weight universe"
  shows "\<exists>a \<in> A \<inter> B. a \<notin> faulty"
proof (rule ccontr)
  assume "\<not> ?thesis"
  then have "A \<inter> B \<subseteq> faulty \<inter> universe" using quorum_subset assms(1) by blast
  then have "sum weight (A \<inter> B) \<le> sum weight (faulty \<inter> universe)"
    using finite_universe by (intro sum_mono2) auto
  with intersection_weight [OF assms(1,2)] assms(3) show False by linarith
qed

lemma correct_in_quorum:
  assumes "quorum A" "3 * sum weight (faulty \<inter> universe) \<le> sum weight universe"
  shows "\<exists>a \<in> A. a \<notin> faulty"
  using correct_member [OF assms(1,1,2)] by blast

end

text \<open>The sets of authors that a verifier accepts.\<close>

definition is_quorum :: "validator_verifier \<Rightarrow> account_address set \<Rightarrow> bool" where
  "is_quorum vv A \<longleftrightarrow> verifier_ok vv \<and> members vv \<noteq> {} \<and>
     (\<exists>authors. distinct authors \<and> set authors = A \<and> check_voting_power vv authors = Inr ())"

lemma is_quorum_weight:
  assumes "is_quorum vv A"
  shows "2 * total_power vv < 3 * sum (power_of vv) A"
proof -
  from assms obtain as where as: "distinct as" "set as = A" "check_voting_power vv as = Inr ()"
    and ok: "verifier_ok vv" "members vv \<noteq> {}" by (auto simp: is_quorum_def)
  from as(3) have sub: "set as \<subseteq> members vv" and le: "quorum_voting_power vv \<le> of_nat (sum_list (map (power_of vv) as))"
    by (auto simp: check_voting_power_eq Let_def split: if_splits)
  have "sum_list (map (power_of vv) as) \<le> total_power vv" using sum_power_le [OF as(1) sub] .
  also have "\<dots> < 2 ^ 64" using ok(1) by (simp add: verifier_ok_def)
  finally have "unat (of_nat (sum_list (map (power_of vv) as)) :: u64) = sum_list (map (power_of vv) as)"
    by (rule unat_of_nat_u64)
  with le have "unat (quorum_voting_power vv) \<le> sum_list (map (power_of vv) as)" by (simp add: word_le_nat_alt)
  with verifier_okD(1) [OF ok] as show ?thesis by (simp add: sum_list_map_distinct)
qed

interpretation vq: quorum_system "power_of vv" "members vv" "is_quorum vv" for vv
proof
  show "finite (members vv)" by simp
  show "A \<subseteq> members vv" if "is_quorum vv A" for A
    using that by (auto simp: is_quorum_def check_voting_power_eq split: if_splits)
  show "2 * sum (power_of vv) (members vv) < 3 * sum (power_of vv) A" if "is_quorum vv A" for A
    using is_quorum_weight [OF that] by (simp add: total_power_def)
qed

section \<open>Aggregated signatures\<close>

definition valid_signatures :: "'m sig_scheme \<Rightarrow> validator_verifier \<Rightarrow> 'm \<Rightarrow> signatures \<Rightarrow> bool" where
  "valid_signatures S vv m sigs \<longleftrightarrow> (\<forall>(a, s) \<in> set (bentries sigs). verifier_verify S vv a m s = Inr ())"

lemma verify_aggregated_iff:
  "verify_aggregated_struct_signature S vv m sigs = Inr () \<longleftrightarrow>
     check_num_of_signatures vv sigs = Inr () \<and> check_voting_power vv (bkeys sigs) = Inr () \<and> valid_signatures S vv m sigs"
  by (auto simp: verify_aggregated_struct_signature_def result_simps valid_signatures_def)

lemma keys_and_signatures_mem:
  "(a, s) \<in> set (bentries sigs) \<Longrightarrow> get_public_key vv a = Some k \<Longrightarrow> (k, s) \<in> set (keys_and_signatures vv sigs)"
  unfolding keys_and_signatures_def List.map_filter_def by (force simp: image_iff)

lemma batch_verified_valid:
  assumes "batch_sound S" "batch_verify S m (keys_and_signatures vv sigs) = Inr ()"
    and "check_voting_power vv (bkeys sigs) = Inr ()"
  shows "valid_signatures S vv m sigs"
  unfolding valid_signatures_def
proof (intro ballI, clarify)
  fix a s assume as: "(a, s) \<in> set (bentries sigs)"
  then have "a \<in> set (bkeys sigs)" by (force simp: bkeys_def)
  then have "a \<in> members vv" using assms(3) by (auto simp: check_voting_power_eq split: if_splits)
  then obtain k where k: "get_public_key vv a = Some k" by (auto simp: members_public_key)
  from batch_verify_sound [OF assms(1,2) keys_and_signatures_mem [OF as k]] k
  show "verifier_verify S vv a m s = Inr ()" by (simp add: verifier_verify_def is_ok_def)
qed

lemma batch_verify_aggregated_eq:
  assumes "batch_sound S"
  shows "batch_verify_aggregated_signatures S vv m sigs = verify_aggregated_struct_signature S vv m sigs"
proof (cases "is_ok (batch_verify S m (keys_and_signatures vv sigs))")
  case True
  then have b: "batch_verify S m (keys_and_signatures vv sigs) = Inr ()" by (auto simp: is_ok_iff)
  show ?thesis
  proof (cases "check_num_of_signatures vv sigs = Inr () \<and> check_voting_power vv (bkeys sigs) = Inr ()")
    case ok: True
    with batch_verified_valid [OF assms b] have "verify_aggregated_struct_signature S vv m sigs = Inr ()"
      by (simp add: verify_aggregated_iff)
    with ok True show ?thesis by (simp add: batch_verify_aggregated_signatures_def)
  next
    case False
    then show ?thesis
      by (cases "check_num_of_signatures vv sigs"; cases "check_voting_power vv (bkeys sigs)")
        (auto simp: batch_verify_aggregated_signatures_def verify_aggregated_struct_signature_def)
  qed
next
  case False
  then show ?thesis
    by (cases "check_num_of_signatures vv sigs"; cases "check_voting_power vv (bkeys sigs)")
      (auto simp: batch_verify_aggregated_signatures_def verify_aggregated_struct_signature_def)
qed

lemma verified_quorum:
  assumes "batch_sound S" "batch_verify_aggregated_signatures S vv m sigs = Inr ()" "verifier_ok vv" "members vv \<noteq> {}"
  shows "is_quorum vv (set (bkeys sigs))" "valid_signatures S vv m sigs"
proof -
  have "verify_aggregated_struct_signature S vv m sigs = Inr ()" using assms by (simp add: batch_verify_aggregated_eq)
  then show "is_quorum vv (set (bkeys sigs))" "valid_signatures S vv m sigs"
    using assms(3,4) distinct_bkeys [of sigs] by (auto simp: verify_aggregated_iff is_quorum_def)
qed

section \<open>Properties\<close>

text \<open>
  C18: Batch verification is iterated verification. If the batch verifier of the signature library
  accepts only batches of valid signatures, \<open>batch_verify_aggregated_signatures\<close> returns what
  \<open>verify_aggregated_struct_signature\<close> returns, errors included, and both accept exactly when there
  are at most as many signatures as validators, all signers are validators, their voting power
  (with the wrap-around of the sum) reaches the quorum and every signature verifies.
\<close>

theorem batch_equals_iterated:
  "batch_sound S \<Longrightarrow>
   batch_verify_aggregated_signatures S vv m sigs = verify_aggregated_struct_signature S vv m sigs \<and>
   (batch_verify_aggregated_signatures S vv m sigs = Inr () \<longleftrightarrow>
      blen sigs \<le> verifier_len vv \<and> set (bkeys sigs) \<subseteq> members vv \<and>
      quorum_voting_power vv \<le> of_nat (\<Sum>a \<in> set (bkeys sigs). power_of vv a) \<and>
      (\<forall>(a, s) \<in> set (bentries sigs). verifier_verify S vv a m s = Inr ()))"
  by (auto simp: batch_verify_aggregated_eq verify_aggregated_iff check_num_of_signatures_def check_voting_power_eq
      Let_def sum_list_map_distinct valid_signatures_def split: if_splits)

theorem batch_equals_iterated_witness:
  "batch_verify_aggregated_signatures
     \<lparr>encode_msg = (\<lambda>m :: u8 list. Some m), dalek_verify = (\<lambda>pk m s. True), dalek_verify_batch = (\<lambda>_ _ _. False), batch_feature = True\<rparr>
     (new_single 7 [1]) [42] bempty = Inl (Err (TooLittleVotingPower 0 1))"
proof -
  let ?S = "\<lparr>encode_msg = (\<lambda>m :: u8 list. Some m), dalek_verify = (\<lambda>pk m s. True), dalek_verify_batch = (\<lambda>_ _ _. False), batch_feature = True\<rparr>"
  have "batch_sound ?S" by (simp add: batch_sound_def)
  from batch_equals_iterated [OF this, of "new_single 7 [1]" "[42]" bempty] show ?thesis
    by (simp add: verify_aggregated_struct_signature_def check_num_of_signatures_def check_voting_power_def blen_def bkeys_def
        new_single_def verifier_new_def sum_voting_power_def bvalues_def Let_def)
qed

text \<open>
  C8: Two quorums share a correct validator. For a verifier built by \<open>new\<close> whose validators have a
  total voting power below \<open>2^63\<close>, if the faulty ones have at most a third of it, any two
  collections of signatures that the verifier accepts, for whatever messages, have a common signer
  who is not faulty, and each of the two signatures of this signer is valid.
\<close>

theorem quorum_intersection:
  "batch_sound S \<Longrightarrow> verifier_ok vv \<Longrightarrow> \<not> verifier_is_empty vv \<Longrightarrow>
   3 * (\<Sum>a \<in> faulty \<inter> members vv. power_of vv a) \<le> total_power vv \<Longrightarrow>
   batch_verify_aggregated_signatures S vv m sigs = Inr () \<Longrightarrow>
   batch_verify_aggregated_signatures S vv m' sigs' = Inr () \<Longrightarrow>
   \<exists>a s s'. a \<notin> faulty \<and> bget sigs a = Some s \<and> bget sigs' a = Some s' \<and>
     verifier_verify S vv a m s = Inr () \<and> verifier_verify S vv a m' s' = Inr ()"
proof -
  assume S: "batch_sound S" and ok: "verifier_ok vv" and ne: "\<not> verifier_is_empty vv"
    and f: "3 * (\<Sum>a \<in> faulty \<inter> members vv. power_of vv a) \<le> total_power vv"
    and v: "batch_verify_aggregated_signatures S vv m sigs = Inr ()"
    and v': "batch_verify_aggregated_signatures S vv m' sigs' = Inr ()"
  have mem: "members vv \<noteq> {}" using ne by (auto simp: verifier_is_empty_def verifier_len_def members_def bkeys_def blen_def)
  note q = verified_quorum [OF S v ok mem] and q' = verified_quorum [OF S v' ok mem]
  from vq.correct_member [OF q(1) q'(1), of faulty] f obtain a
    where a: "a \<notin> faulty" "a \<in> set (bkeys sigs)" "a \<in> set (bkeys sigs')" by (auto simp: total_power_def)
  then obtain s s' where "bget sigs a = Some s" "bget sigs' a = Some s'" by (auto simp: bget_bkeys)
  with q(2) q'(2) a show ?thesis unfolding valid_signatures_def by (fastforce simp flip: bget_Some_iff)
qed

theorem quorum_intersection_witness:
  "\<exists>a s. bget (binsert 7 (replicate 64 0) bempty) a = Some s \<and>
     verifier_verify \<lparr>encode_msg = (\<lambda>m :: u8 list. Some m), dalek_verify = (\<lambda>pk m s. True), dalek_verify_batch = (\<lambda>_ _ _. False), batch_feature = False\<rparr>
       (new_single 7 [1]) a [42] s = Inr ()"
proof -
  let ?S = "\<lparr>encode_msg = (\<lambda>m :: u8 list. Some m), dalek_verify = (\<lambda>pk m s. True), dalek_verify_batch = (\<lambda>_ _ _. False), batch_feature = False\<rparr>"
  let ?vv = "new_single 7 [1]" and ?sigs = "binsert (7 :: account_address) (replicate 64 0 :: u8 list) bempty"
  have mem: "members ?vv = {7}" "power_of ?vv 7 = 1"
    by (simp_all add: members_def bkeys_def new_single_def verifier_new_def power_of_def get_voting_power_def Let_def)
  have "batch_sound ?S" by (simp add: batch_sound_def)
  moreover have "verifier_ok ?vv" using mem by (simp add: verifier_ok_def total_power_def) (simp add: new_single_def verifier_new_def Let_def)
  moreover have "\<not> verifier_is_empty ?vv"
    by (simp add: verifier_is_empty_def verifier_len_def blen_def new_single_def verifier_new_def Let_def)
  moreover have "3 * (\<Sum>a \<in> {} \<inter> members ?vv. power_of ?vv a) \<le> total_power ?vv" by simp
  moreover have "le_nat (drop 32 (replicate 64 0)) = 0" by (simp add: numeral_eq_Suc)
  then have mal: "check_malleability (replicate 64 0) = Inr ()" by (simp add: check_malleability_iff)
  then have "batch_verify ?S [42] [([1], replicate 64 0)] = Inr ()"
    by (simp add: batch_verify_def batch_verify_default_def signature_verify_def verify_arbitrary_msg_def)
  then have "batch_verify_aggregated_signatures ?S ?vv [42] ?sigs = Inr ()"
    by (simp add: batch_verify_aggregated_signatures_def check_num_of_signatures_def check_voting_power_def get_voting_power_def
        verifier_len_def blen_def bkeys_def keys_and_signatures_def List.map_filter_def get_public_key_def is_ok_def
        new_single_def verifier_new_def sum_voting_power_def bvalues_def Let_def)
  ultimately show ?thesis using quorum_intersection [of ?S ?vv "{}" "[42]" ?sigs "[42]" ?sigs] by blast
qed

text \<open>
  C31: The quorum is not two thirds of a large total. With two validators of voting power \<open>2^62\<close>
  each, the product in \<open>total * 2 / 3 + 1\<close> wraps around to zero, the quorum is one, and each of the
  two disjoint sets of one validator passes \<open>check_voting_power\<close>.
\<close>

theorem quorum_wraps_around:
  "a \<noteq> b \<Longrightarrow>
   (let vv = verifier_new (binsert a \<lparr>vci_public_key = ka, vci_voting_power = 2 ^ 62\<rparr>
               (binsert b \<lparr>vci_public_key = kb, vci_voting_power = 2 ^ 62\<rparr> bempty))
    in total_power vv = 2 ^ 63 \<and> quorum_voting_power vv = 1 \<and>
       check_voting_power vv [a] = Inr () \<and> check_voting_power vv [b] = Inr ())"
proof -
  assume ab: "a \<noteq> b"
  let ?m = "binsert a \<lparr>vci_public_key = ka, vci_voting_power = 2 ^ 62\<rparr>
               (binsert b \<lparr>vci_public_key = kb, vci_voting_power = 2 ^ 62\<rparr> bempty)"
  let ?vv = "verifier_new ?m"
  have g: "get_voting_power ?vv a = Some (2 ^ 62)" "get_voting_power ?vv b = Some (2 ^ 62)"
    using ab by (simp_all add: get_voting_power_def verifier_new_def Let_def)
  have "set (bkeys ?m) = {a, b}"
    by (auto simp: bget_bkeys bget_binsert set_eq_iff simp del: set_map)
  then have mem: "members ?vv = {a, b}" by (simp add: members_def verifier_new_def Let_def)
  have T: "total_power ?vv = 2 ^ 63"
    unfolding total_power_def mem power_of_def using ab g by simp
  have "bkeys ?m \<noteq> []" using \<open>set (bkeys ?m) = {a, b}\<close> by force
  then have "blen ?m \<noteq> 0" by (simp add: blen_def bkeys_def)
  moreover have "sum_voting_power ?m = 2 ^ 63"
    using total_voting_power_new [of ?m] T by (simp add: verifier_new_def Let_def)
  ultimately have q: "quorum_voting_power ?vv = 1" by (simp add: verifier_new_def Let_def)
  show ?thesis using T q g by (simp add: Let_def check_voting_power_def)
qed

theorem quorum_wraps_around_witness:
  "check_voting_power (verifier_new (binsert 1 \<lparr>vci_public_key = [], vci_voting_power = 2 ^ 62\<rparr>
     (binsert 2 \<lparr>vci_public_key = [], vci_voting_power = 2 ^ 62\<rparr> bempty))) [1] = Inr ()"
  using quorum_wraps_around [of 1 2 "[]" "[]"] by (simp add: Let_def)

end
