(* ===== verification/Ledger_Info.thy ===== *)
theory Ledger_Info
  imports Validator_Verifier
begin

text \<open>
  Block and ledger information (\<open>types/src/block_info.rs\<close>, \<open>types/src/ledger_info.rs\<close>,
  \<open>types/src/epoch_state.rs\<close>): what validators sign and clients verify.
\<close>

type_synonym round = u64
type_synonym version = u64

record epoch_state =
  es_epoch :: u64
  es_verifier :: validator_verifier

definition epoch_state_empty :: epoch_state where
  "epoch_state_empty = \<lparr>es_epoch = 0, es_verifier = verifier_new bempty\<rparr>"

record block_info =
  bi_epoch :: u64
  bi_round :: round
  bi_id :: hash_value
  bi_executed_state_id :: hash_value
  bi_version :: version
  bi_timestamp_usecs :: u64
  bi_next_epoch_state :: "epoch_state option"

definition GENESIS_EPOCH :: u64 where "GENESIS_EPOCH = 0"
definition GENESIS_ROUND :: round where "GENESIS_ROUND = 0"
definition GENESIS_VERSION :: version where "GENESIS_VERSION = 0"
definition GENESIS_TIMESTAMP_USECS :: u64 where "GENESIS_TIMESTAMP_USECS = 0"

definition block_info_empty :: block_info where
  "block_info_empty =
     \<lparr>bi_epoch = 0, bi_round = 0, bi_id = 0, bi_executed_state_id = 0, bi_version = 0, bi_timestamp_usecs = 0,
      bi_next_epoch_state = None\<rparr>"

definition block_info_genesis :: "hash_value \<Rightarrow> validator_set \<Rightarrow> block_info" where
  "block_info_genesis genesis_state_root_hash vs =
     \<lparr>bi_epoch = GENESIS_EPOCH, bi_round = GENESIS_ROUND, bi_id = 0,
      bi_executed_state_id = genesis_state_root_hash, bi_version = GENESIS_VERSION,
      bi_timestamp_usecs = GENESIS_TIMESTAMP_USECS,
      bi_next_epoch_state = Some \<lparr>es_epoch = 1, es_verifier = verifier_of_validator_set vs\<rparr>\<rparr>"

definition next_block_epoch :: "block_info \<Rightarrow> u64" where
  "next_block_epoch self = (case bi_next_epoch_state self of None \<Rightarrow> bi_epoch self | Some e \<Rightarrow> es_epoch e)"

definition has_reconfiguration :: "block_info \<Rightarrow> bool" where
  "has_reconfiguration self \<longleftrightarrow> bi_next_epoch_state self \<noteq> None"

record ledger_info =
  commit_info :: block_info
  consensus_data_hash :: hash_value

definition ledger_info_genesis :: "hash_value \<Rightarrow> validator_set \<Rightarrow> ledger_info" where
  "ledger_info_genesis genesis_state_root_hash vs =
     \<lparr>commit_info = block_info_genesis genesis_state_root_hash vs, consensus_data_hash = 0\<rparr>"

abbreviation li_epoch :: "ledger_info \<Rightarrow> u64" where
  "li_epoch li \<equiv> bi_epoch (commit_info li)"

abbreviation li_version :: "ledger_info \<Rightarrow> version" where
  "li_version li \<equiv> bi_version (commit_info li)"

abbreviation transaction_accumulator_hash :: "ledger_info \<Rightarrow> hash_value" where
  "transaction_accumulator_hash li \<equiv> bi_executed_state_id (commit_info li)"

abbreviation next_epoch_state :: "ledger_info \<Rightarrow> epoch_state option" where
  "next_epoch_state li \<equiv> bi_next_epoch_state (commit_info li)"

definition ends_epoch :: "ledger_info \<Rightarrow> bool" where
  "ends_epoch li \<longleftrightarrow> next_epoch_state li \<noteq> None"

record ledger_info_with_signatures =
  lis_ledger_info :: ledger_info
  lis_signatures :: signatures

definition lis_genesis :: "hash_value \<Rightarrow> validator_set \<Rightarrow> ledger_info_with_signatures" where
  "lis_genesis genesis_state_root_hash vs =
     \<lparr>lis_ledger_info = ledger_info_genesis genesis_state_root_hash vs, lis_signatures = bempty\<rparr>"

text \<open>\<open>entry(validator).or_insert(signature)\<close> keeps a signature that is there.\<close>

definition add_signature ::
    "account_address \<Rightarrow> ed25519_signature \<Rightarrow> ledger_info_with_signatures \<Rightarrow> ledger_info_with_signatures" where
  "add_signature validator signature self =
     (if bcontains (lis_signatures self) validator then self
      else self\<lparr>lis_signatures := binsert validator signature (lis_signatures self)\<rparr>)"

definition remove_signature ::
    "account_address \<Rightarrow> ledger_info_with_signatures \<Rightarrow> ledger_info_with_signatures" where
  "remove_signature validator self = self\<lparr>lis_signatures := bremove validator (lis_signatures self)\<rparr>"

definition lis_verify_signatures ::
    "ledger_info sig_scheme \<Rightarrow> ledger_info_with_signatures \<Rightarrow> validator_verifier \<Rightarrow> (verify_error, unit) result" where
  "lis_verify_signatures S self validator =
     batch_verify_aggregated_signatures S validator (lis_ledger_info self) (lis_signatures self)"

end
