(* ===== verification/Epoch_Change.thy ===== *)
theory Epoch_Change
  imports Ledger_Info
begin

text \<open>
  How a client follows the chain of validator sets: waypoints, epoch states, proofs of epoch
  changes and the trusted state they ratchet (\<open>types/src/waypoint.rs\<close>, \<open>types/src/epoch_state.rs\<close>,
  \<open>types/src/epoch_change.rs\<close>, \<open>types/src/trusted_state.rs\<close>). The hash of the fields of a ledger
  info that a waypoint binds is the parameter \<open>hw\<close>.
\<close>

section \<open>Waypoints\<close>

record ledger_2_waypoint_converter =
  lw_epoch :: u64
  lw_root_hash :: hash_value
  lw_version :: version
  lw_timestamp_usecs :: u64
  lw_next_epoch_state :: "epoch_state option"

type_synonym waypoint_hasher = "ledger_2_waypoint_converter \<Rightarrow> hash_value"

definition converter_new :: "ledger_info \<Rightarrow> ledger_2_waypoint_converter" where
  "converter_new li =
     \<lparr>lw_epoch = li_epoch li, lw_root_hash = transaction_accumulator_hash li, lw_version = li_version li,
      lw_timestamp_usecs = bi_timestamp_usecs (commit_info li), lw_next_epoch_state = next_epoch_state li\<rparr>"

record waypoint =
  wp_version :: version
  wp_value :: hash_value

definition waypoint_new_any :: "waypoint_hasher \<Rightarrow> ledger_info \<Rightarrow> waypoint" where
  "waypoint_new_any hw li = \<lparr>wp_version = li_version li, wp_value = hw (converter_new li)\<rparr>"

lemma wp_version_new_any [simp]: "wp_version (waypoint_new_any hw li) = li_version li"
  by (simp add: waypoint_new_any_def)

definition waypoint_new_epoch_boundary :: "waypoint_hasher \<Rightarrow> ledger_info \<Rightarrow> waypoint anyhow" where
  "waypoint_new_epoch_boundary hw li =
     rbind (ensure (ends_epoch li) ''No validator set'') (\<lambda>_. Inr (waypoint_new_any hw li))"

definition waypoint_verify :: "waypoint_hasher \<Rightarrow> waypoint \<Rightarrow> ledger_info \<Rightarrow> unit anyhow" where
  "waypoint_verify hw self li =
     rbind (ensure (li_version li = wp_version self) ''Waypoint version mismatch'') (\<lambda>_.
     ensure (hw (converter_new li) = wp_value self) ''Waypoint value mismatch'')"

section \<open>Epoch states\<close>

text \<open>\<open>?\<close> turns the \<open>VerifyError\<close> into an \<open>anyhow::Error\<close>.\<close>

definition verify_error_message :: "verify_error \<Rightarrow> string" where
  "verify_error_message e =
     (case e of
        UnknownAuthor \<Rightarrow> ''Author is unknown''
      | TooLittleVotingPower _ _ \<Rightarrow> ''The voting power is less than quorum voting power''
      | TooManySignatures _ _ \<Rightarrow> ''The number of signatures is greater than total number of authors''
      | InvalidSignature \<Rightarrow> ''Signature is invalid'')"

definition epoch_state_verify ::
    "ledger_info sig_scheme \<Rightarrow> epoch_state \<Rightarrow> ledger_info_with_signatures \<Rightarrow> unit anyhow" where
  "epoch_state_verify S self li =
     rbind (ensure (es_epoch self = li_epoch (lis_ledger_info li)) ''LedgerInfo has unexpected epoch'') (\<lambda>_.
     rmap_err verify_error_message (lis_verify_signatures S li (es_verifier self)))"

section \<open>The two implementations of Verifier\<close>

datatype verifier = WaypointVerifier waypoint | EpochStateVerifier epoch_state

fun verifier_check ::
    "ledger_info sig_scheme \<Rightarrow> waypoint_hasher \<Rightarrow> verifier \<Rightarrow> ledger_info_with_signatures \<Rightarrow> unit anyhow" where
  "verifier_check S hw (WaypointVerifier w) li = waypoint_verify hw w (lis_ledger_info li)"
| "verifier_check S hw (EpochStateVerifier e) li = epoch_state_verify S e li"

fun epoch_change_verification_required :: "verifier \<Rightarrow> u64 \<Rightarrow> bool" where
  "epoch_change_verification_required (WaypointVerifier w) epoch \<longleftrightarrow> True"
| "epoch_change_verification_required (EpochStateVerifier e) epoch \<longleftrightarrow> es_epoch e < epoch"

fun is_ledger_info_stale :: "verifier \<Rightarrow> ledger_info \<Rightarrow> bool" where
  "is_ledger_info_stale (WaypointVerifier w) li \<longleftrightarrow> li_version li < wp_version w"
| "is_ledger_info_stale (EpochStateVerifier e) li \<longleftrightarrow> li_epoch li < es_epoch e"

section \<open>Epoch change proofs\<close>

record epoch_change_proof =
  ecp_ledger_infos :: "ledger_info_with_signatures list"
  ecp_more :: bool

definition epoch_change_proof_epoch :: "epoch_change_proof \<Rightarrow> u64 anyhow" where
  "epoch_change_proof_epoch self =
     (case ecp_ledger_infos self of
        [] \<Rightarrow> Inl (Err ''Empty EpochChangeProof'')
      | li # _ \<Rightarrow> Inr (li_epoch (lis_ledger_info li)))"

primrec verify_jumps ::
    "ledger_info sig_scheme \<Rightarrow> waypoint_hasher \<Rightarrow> verifier \<Rightarrow> ledger_info_with_signatures list \<Rightarrow> unit anyhow" where
  "verify_jumps S hw verifier_ref [] = Inr ()"
| "verify_jumps S hw verifier_ref (li # lis) =
     rbind (verifier_check S hw verifier_ref li) (\<lambda>_.
     rbind (ok_or (next_epoch_state (lis_ledger_info li)) ''LedgerInfo doesn't carry a ValidatorSet'') (\<lambda>es.
     verify_jumps S hw (EpochStateVerifier es) lis))"

definition epoch_change_proof_verify ::
    "ledger_info sig_scheme \<Rightarrow> waypoint_hasher \<Rightarrow> epoch_change_proof \<Rightarrow> verifier \<Rightarrow> ledger_info_with_signatures anyhow" where
  "epoch_change_proof_verify S hw self verifier =
     rbind (ensure (ecp_ledger_infos self \<noteq> []) ''The EpochChangeProof is empty'') (\<lambda>_.
     rbind (ensure (\<not> is_ledger_info_stale verifier (lis_ledger_info (last (ecp_ledger_infos self))))
              ''The EpochChangeProof is stale as our verifier is already ahead of the entire EpochChangeProof'') (\<lambda>_.
     rbind (verify_jumps S hw verifier
              (dropWhile (\<lambda>li. is_ledger_info_stale verifier (lis_ledger_info li)) (ecp_ledger_infos self))) (\<lambda>_.
     Inr (last (ecp_ledger_infos self)))))"

section \<open>The trusted state\<close>

record trusted_state =
  verified_state :: waypoint
  ts_verifier :: verifier

datatype trusted_state_change =
    VersionChange trusted_state
  | EpochChange trusted_state ledger_info_with_signatures
  | NoChange

definition latest_version :: "trusted_state \<Rightarrow> version" where
  "latest_version self = wp_version (verified_state self)"

definition verify_and_ratchet ::
    "ledger_info sig_scheme \<Rightarrow> waypoint_hasher \<Rightarrow> trusted_state \<Rightarrow> ledger_info_with_signatures \<Rightarrow> epoch_change_proof
       \<Rightarrow> trusted_state_change anyhow" where
  "verify_and_ratchet S hw self latest_li epoch_change_proof =
     (let res_version = li_version (lis_ledger_info latest_li)
      in rbind (ensure (res_version \<ge> latest_version self)
           ''The target latest ledger info is stale and behind our current trusted version'') (\<lambda>_.
         if epoch_change_verification_required (ts_verifier self) (next_block_epoch (commit_info (lis_ledger_info latest_li)))
         then
           rbind (epoch_change_proof_verify S hw epoch_change_proof (ts_verifier self)) (\<lambda>epoch_change_li.
           rbind (ok_or (next_epoch_state (lis_ledger_info epoch_change_li))
             ''A valid EpochChangeProof will never return a non-epoch change ledger info'') (\<lambda>new_epoch_state.
           rbind (if epoch_change_li \<noteq> latest_li then epoch_state_verify S new_epoch_state latest_li else Inr ()) (\<lambda>_.
           Inr (EpochChange
             \<lparr>verified_state = waypoint_new_any hw (lis_ledger_info latest_li), ts_verifier = EpochStateVerifier new_epoch_state\<rparr>
             epoch_change_li))))
         else
           let new_waypoint = waypoint_new_any hw (lis_ledger_info latest_li)
           in if wp_version new_waypoint = wp_version (verified_state self) then
                rbind (ensure (new_waypoint = verified_state self) ''LedgerInfo doesn't match verified state'') (\<lambda>_.
                Inr NoChange)
              else
                rbind (verifier_check S hw (ts_verifier self) latest_li) (\<lambda>_.
                Inr (VersionChange \<lparr>verified_state = new_waypoint, ts_verifier = ts_verifier self\<rparr>))))"

definition trusted_state_from_waypoint :: "waypoint \<Rightarrow> trusted_state" where
  "trusted_state_from_waypoint w = \<lparr>verified_state = w, ts_verifier = WaypointVerifier w\<rparr>"

definition trusted_state_try_from :: "waypoint_hasher \<Rightarrow> ledger_info \<Rightarrow> trusted_state anyhow" where
  "trusted_state_try_from hw li =
     rbind (ok_or (next_epoch_state li) ''No EpochState in LedgerInfo; it must not be on an epoch boundary'') (\<lambda>es.
     rbind (waypoint_new_epoch_boundary hw li) (\<lambda>w.
     Inr \<lparr>verified_state = w, ts_verifier = EpochStateVerifier es\<rparr>))"

section \<open>What is certified\<close>

text \<open>
  From a waypoint \<open>w\<close> that the client trusts, a ledger info is certified if it is the one of the
  waypoint, or signed by a quorum of the epoch state that a certified ledger info carries.
\<close>

inductive certified ::
    "ledger_info sig_scheme \<Rightarrow> waypoint_hasher \<Rightarrow> waypoint \<Rightarrow> ledger_info_with_signatures \<Rightarrow> bool"
  for S hw w where
  certified_waypoint: "waypoint_verify hw w (lis_ledger_info li) = Inr () \<Longrightarrow> certified S hw w li"
| certified_epoch: "certified S hw w prev \<Longrightarrow> next_epoch_state (lis_ledger_info prev) = Some es \<Longrightarrow>
    epoch_state_verify S es li = Inr () \<Longrightarrow> certified S hw w li"

inductive_cases certifiedE: "certified S hw w li"

definition certified_verifier :: "ledger_info sig_scheme \<Rightarrow> waypoint_hasher \<Rightarrow> waypoint \<Rightarrow> verifier \<Rightarrow> bool" where
  "certified_verifier S hw w v \<longleftrightarrow>
     v = WaypointVerifier w \<or>
     (\<exists>prev es. v = EpochStateVerifier es \<and> certified S hw w prev \<and> next_epoch_state (lis_ledger_info prev) = Some es)"

lemma verifier_check_certified:
  "certified_verifier S hw w v \<Longrightarrow> verifier_check S hw v li = Inr () \<Longrightarrow> certified S hw w li"
  unfolding certified_verifier_def by (auto intro: certified.intros)

text \<open>The chain of jumps from one verifier to the next.\<close>

definition jump :: "ledger_info sig_scheme \<Rightarrow> ledger_info_with_signatures \<Rightarrow> ledger_info_with_signatures \<Rightarrow> bool" where
  "jump S prev li \<longleftrightarrow> (\<exists>es. next_epoch_state (lis_ledger_info prev) = Some es \<and> epoch_state_verify S es li = Inr ())"

lemma verify_jumps_Cons:
  "verify_jumps S hw v (li # lis) = Inr () \<longleftrightarrow>
     verifier_check S hw v li = Inr () \<and> ends_epoch (lis_ledger_info (last (li # lis))) \<and>
     (\<forall>i < length lis. jump S ((li # lis) ! i) (lis ! i))"
proof (induction lis arbitrary: v li)
  case Nil
  then show ?case by (auto simp: result_simps ends_epoch_def)
next
  case (Cons x lis)
  have "verify_jumps S hw v (li # x # lis) = Inr () \<longleftrightarrow>
      verifier_check S hw v li = Inr () \<and>
      (\<exists>es. next_epoch_state (lis_ledger_info li) = Some es \<and> verify_jumps S hw (EpochStateVerifier es) (x # lis) = Inr ())"
    by (auto simp: result_simps simp del: verify_jumps.simps(2)) (simp_all add: result_simps)
  also have "\<dots> \<longleftrightarrow> verifier_check S hw v li = Inr () \<and> jump S li x \<and> ends_epoch (lis_ledger_info (last (x # lis))) \<and>
      (\<forall>i < length lis. jump S ((x # lis) ! i) (lis ! i))"
    by (auto simp only: Cons.IH jump_def verifier_check.simps)
  finally show ?case by (auto simp: All_less_Suc2)
qed

lemma verify_jumps_certified:
  "certified_verifier S hw w v \<Longrightarrow> verify_jumps S hw v lis = Inr () \<Longrightarrow> li \<in> set lis \<Longrightarrow> certified S hw w li"
proof (induction lis arbitrary: v)
  case (Cons x lis)
  then obtain es where es: "verifier_check S hw v x = Inr ()" "next_epoch_state (lis_ledger_info x) = Some es"
    "verify_jumps S hw (EpochStateVerifier es) lis = Inr ()" by (auto simp: result_simps)
  have x: "certified S hw w x" using Cons.prems(1) es(1) by (rule verifier_check_certified)
  then have "certified_verifier S hw w (EpochStateVerifier es)" using es(2) by (auto simp: certified_verifier_def)
  with Cons.IH es(3) Cons.prems(3) x show ?case by auto
qed simp

definition fresh :: "verifier \<Rightarrow> epoch_change_proof \<Rightarrow> ledger_info_with_signatures list" where
  "fresh v pf = dropWhile (\<lambda>li. is_ledger_info_stale v (lis_ledger_info li)) (ecp_ledger_infos pf)"

lemma epoch_change_proof_verify_eq:
  "epoch_change_proof_verify S hw pf v = Inr li \<longleftrightarrow>
     fresh v pf \<noteq> [] \<and> li = last (fresh v pf) \<and> \<not> is_ledger_info_stale v (lis_ledger_info li) \<and>
     verify_jumps S hw v (fresh v pf) = Inr ()"
proof -
  let ?P = "\<lambda>li. is_ledger_info_stale v (lis_ledger_info li)"
  let ?xs = "ecp_ledger_infos pf"
  show ?thesis
  proof (cases "?xs \<noteq> [] \<and> \<not> ?P (last ?xs)")
    case True
    then have "dropWhile ?P ?xs \<noteq> []" "last (dropWhile ?P ?xs) = last ?xs"
      using dropWhile_last_notin [of ?xs ?P] by blast+
    with True show ?thesis
      unfolding epoch_change_proof_verify_def fresh_def by (auto simp: result_simps simp del: dropWhile_eq_Nil_conv)
  next
    case False
    have "last (dropWhile ?P ?xs) = last ?xs" if "dropWhile ?P ?xs \<noteq> []"
      using that by (metis last_appendR takeWhile_dropWhile_id)
    moreover have "?xs \<noteq> []" if "dropWhile ?P ?xs \<noteq> []" using that by auto
    ultimately show ?thesis using False
      unfolding epoch_change_proof_verify_def fresh_def by (auto simp: result_simps simp del: dropWhile_eq_Nil_conv)
  qed
qed

lemma epoch_change_proof_certified:
  assumes "certified_verifier S hw w v" "epoch_change_proof_verify S hw pf v = Inr li"
  shows "certified S hw w li"
  using assms verify_jumps_certified [OF assms(1), of "fresh v pf" li]
  by (auto simp: epoch_change_proof_verify_eq)

definition trusted_ok :: "ledger_info sig_scheme \<Rightarrow> waypoint_hasher \<Rightarrow> waypoint \<Rightarrow> trusted_state \<Rightarrow> bool" where
  "trusted_ok S hw w ts \<longleftrightarrow> certified_verifier S hw w (ts_verifier ts) \<and>
     (verified_state ts = w \<or>
      (\<exists>li. certified S hw w li \<and> verified_state ts = waypoint_new_any hw (lis_ledger_info li)))"

text \<open>One response of a server: the client keeps its state unless the response ratchets it.\<close>

definition ratchet_step ::
    "ledger_info sig_scheme \<Rightarrow> waypoint_hasher \<Rightarrow> ledger_info_with_signatures \<times> epoch_change_proof \<Rightarrow> trusted_state \<Rightarrow> trusted_state" where
  "ratchet_step S hw = (\<lambda>(li, pf) ts.
     case verify_and_ratchet S hw ts li pf of
       Inr (VersionChange ts') \<Rightarrow> ts'
     | Inr (EpochChange ts' _) \<Rightarrow> ts'
     | _ \<Rightarrow> ts)"

lemma verify_and_ratchet_trusted:
  assumes ok: "trusted_ok S hw w ts" and r: "verify_and_ratchet S hw ts li pf = Inr c"
  shows "case c of
      VersionChange ts' \<Rightarrow> trusted_ok S hw w ts' \<and> latest_version ts < latest_version ts' \<and> certified S hw w li
    | EpochChange ts' _ \<Rightarrow> trusted_ok S hw w ts' \<and> latest_version ts \<le> latest_version ts' \<and> certified S hw w li
    | NoChange \<Rightarrow> verified_state ts = waypoint_new_any hw (lis_ledger_info li)"
proof -
  have v: "certified_verifier S hw w (ts_verifier ts)" using ok by (simp add: trusted_ok_def)
  have le: "latest_version ts \<le> li_version (lis_ledger_info li)"
    using r by (auto simp: verify_and_ratchet_def Let_def result_simps)
  show ?thesis
  proof (cases "epoch_change_verification_required (ts_verifier ts) (next_block_epoch (commit_info (lis_ledger_info li)))")
    case True
    with r obtain eli es where e: "epoch_change_proof_verify S hw pf (ts_verifier ts) = Inr eli"
      "next_epoch_state (lis_ledger_info eli) = Some es" "eli = li \<or> epoch_state_verify S es li = Inr ()"
      and c: "c = EpochChange \<lparr>verified_state = waypoint_new_any hw (lis_ledger_info li), ts_verifier = EpochStateVerifier es\<rparr> eli"
      by (auto simp: verify_and_ratchet_def Let_def result_simps split: if_splits)
    have eli: "certified S hw w eli" using epoch_change_proof_certified [OF v e(1)] .
    with e have li: "certified S hw w li" by (auto intro: certified_epoch)
    with eli e(2) le c show ?thesis
      by (auto simp: trusted_ok_def certified_verifier_def latest_version_def waypoint_new_any_def)
  next
    case False
    with r have "c = NoChange \<and> verified_state ts = waypoint_new_any hw (lis_ledger_info li) \<or>
        li_version (lis_ledger_info li) \<noteq> latest_version ts \<and> verifier_check S hw (ts_verifier ts) li = Inr () \<and>
        c = VersionChange \<lparr>verified_state = waypoint_new_any hw (lis_ledger_info li), ts_verifier = ts_verifier ts\<rparr>"
      by (auto simp: verify_and_ratchet_def Let_def result_simps latest_version_def split: if_splits)
    then show ?thesis
    proof (elim disjE conjE)
      assume x: "li_version (lis_ledger_info li) \<noteq> latest_version ts" "verifier_check S hw (ts_verifier ts) li = Inr ()"
        "c = VersionChange \<lparr>verified_state = waypoint_new_any hw (lis_ledger_info li), ts_verifier = ts_verifier ts\<rparr>"
      have cl: "certified S hw w li" using v x(2) by (rule verifier_check_certified)
      have "latest_version ts < li_version (lis_ledger_info li)" using x(1) le by simp
      with cl v x(3) show ?thesis by (auto simp: trusted_ok_def latest_version_def)
    qed simp
  qed
qed

lemma ratchet_step_trusted:
  assumes "trusted_ok S hw w ts"
  shows "trusted_ok S hw w (ratchet_step S hw r ts) \<and> latest_version ts \<le> latest_version (ratchet_step S hw r ts)"
  using assms verify_and_ratchet_trusted [OF assms, of "fst r" "snd r"]
  by (auto simp: ratchet_step_def split: prod.splits sum.splits trusted_state_change.splits)

lemma trusted_from_waypoint: "trusted_ok S hw w (trusted_state_from_waypoint w)"
  by (simp add: trusted_ok_def trusted_state_from_waypoint_def certified_verifier_def)

lemma ratchet_steps_trusted:
  "trusted_ok S hw w ts \<Longrightarrow>
   trusted_ok S hw w (fold (ratchet_step S hw) rs ts) \<and> latest_version ts \<le> latest_version (fold (ratchet_step S hw) rs ts)"
proof (induction rs arbitrary: ts)
  case (Cons r rs)
  from ratchet_step_trusted [OF Cons.prems, of r] Cons.IH [of "ratchet_step S hw r ts"]
  show ?case by (auto intro: order.trans)
qed simp

section \<open>Agreement of clients\<close>

text \<open>
  The assumptions on the validators of the epochs reached from \<open>w\<close>: epochs are numbered
  consecutively, the quorums of each do not wrap around, the faulty validators of each have at most
  a third of the voting power, and the key of a correct validator verifies at most one ledger info
  that ends a given epoch.
\<close>

definition honest_epochs ::
    "ledger_info sig_scheme \<Rightarrow> waypoint_hasher \<Rightarrow> waypoint \<Rightarrow> (u64 \<Rightarrow> account_address set) \<Rightarrow> bool" where
  "honest_epochs S hw w faulty \<longleftrightarrow>
     (\<forall>prev es. certified S hw w prev \<longrightarrow> next_epoch_state (lis_ledger_info prev) = Some es \<longrightarrow>
        unat (es_epoch es) = unat (li_epoch (lis_ledger_info prev)) + 1 \<and>
        verifier_ok (es_verifier es) \<and> \<not> verifier_is_empty (es_verifier es) \<and>
        3 * (\<Sum>a \<in> faulty (es_epoch es) \<inter> members (es_verifier es). power_of (es_verifier es) a) \<le> total_power (es_verifier es) \<and>
        (\<forall>a li li' s s'. a \<notin> faulty (es_epoch es) \<longrightarrow> ends_epoch li \<longrightarrow> ends_epoch li' \<longrightarrow>
           li_epoch li = es_epoch es \<longrightarrow> li_epoch li' = es_epoch es \<longrightarrow>
           verifier_verify S (es_verifier es) a li s = Inr () \<longrightarrow> verifier_verify S (es_verifier es) a li' s' = Inr () \<longrightarrow> li = li'))"

lemma quorum_common_signer:
  assumes "batch_sound S" "verifier_ok vv" "\<not> verifier_is_empty vv"
    and "3 * (\<Sum>a \<in> faulty \<inter> members vv. power_of vv a) \<le> total_power vv"
    and "batch_verify_aggregated_signatures S vv m sigs = Inr ()" "batch_verify_aggregated_signatures S vv m' sigs' = Inr ()"
  obtains a s s' where "a \<notin> faulty" "verifier_verify S vv a m s = Inr ()" "verifier_verify S vv a m' s' = Inr ()"
proof -
  have mem: "members vv \<noteq> {}" using assms(3) by (auto simp: verifier_is_empty_def verifier_len_def members_def bkeys_def blen_def)
  note q = verified_quorum [OF assms(1,5,2) mem] and q' = verified_quorum [OF assms(1,6,2) mem]
  from vq.correct_member [OF q(1) q'(1), of faulty] assms(4) obtain a
    where a: "a \<notin> faulty" "a \<in> set (bkeys sigs)" "a \<in> set (bkeys sigs')" by (auto simp: total_power_def)
  then obtain s s' where "bget sigs a = Some s" "bget sigs' a = Some s'" by (auto simp: bget_bkeys)
  with q(2) q'(2) a that show ?thesis unfolding valid_signatures_def by (fastforce simp flip: bget_Some_iff)
qed

lemma certified_epoch_ge:
  assumes h: "honest_epochs S hw w faulty" and w: "\<And>li. waypoint_verify hw w li = Inr () \<Longrightarrow> li_epoch li = e"
  shows "certified S hw w li \<Longrightarrow>
    waypoint_verify hw w (lis_ledger_info li) = Inr () \<or>
    unat e < unat (li_epoch (lis_ledger_info li)) \<and>
    (\<exists>prev es. certified S hw w prev \<and> next_epoch_state (lis_ledger_info prev) = Some es \<and> epoch_state_verify S es li = Inr () \<and>
       unat (li_epoch (lis_ledger_info li)) = unat (li_epoch (lis_ledger_info prev)) + 1)"
proof (induction rule: certified.induct)
  case (certified_epoch prev es li)
  have "es_epoch es = li_epoch (lis_ledger_info li)" using certified_epoch(3) by (auto simp: epoch_state_verify_def result_simps)
  moreover have "unat (es_epoch es) = unat (li_epoch (lis_ledger_info prev)) + 1"
    using h certified_epoch(1,2) unfolding honest_epochs_def by blast
  moreover have "unat e \<le> unat (li_epoch (lis_ledger_info prev))" using certified_epoch.IH w by auto
  ultimately show ?case using certified_epoch(1-3) by auto
qed simp

lemma epoch_end_unique:
  assumes S: "batch_sound S" and h: "honest_epochs S hw w faulty"
    and w: "\<And>li. waypoint_verify hw w li = Inr () \<Longrightarrow> converter_new li = c"
  shows "certified S hw w li \<Longrightarrow> certified S hw w li' \<Longrightarrow>
    ends_epoch (lis_ledger_info li) \<Longrightarrow> ends_epoch (lis_ledger_info li') \<Longrightarrow>
    li_epoch (lis_ledger_info li) = li_epoch (lis_ledger_info li') \<Longrightarrow>
    converter_new (lis_ledger_info li) = converter_new (lis_ledger_info li')"
proof (induction "unat (li_epoch (lis_ledger_info li))" arbitrary: li li' rule: less_induct)
  case less
  have we: "\<And>li. waypoint_verify hw w li = Inr () \<Longrightarrow> li_epoch li = lw_epoch c"
    using w by (metis converter_new_def ledger_2_waypoint_converter.select_convs(1))
  let ?wp = "\<lambda>li. waypoint_verify hw w (lis_ledger_info li) = Inr ()"
  note c = certified_epoch_ge [OF h we less.prems(1)] and c' = certified_epoch_ge [OF h we less.prems(2)]
  show ?case
  proof (cases "?wp li \<or> ?wp li'")
    case True
    then have "?wp li \<and> ?wp li'" using c c' we less.prems(5) by auto
    then show ?thesis using w by metis
  next
    case False
    with c obtain prev es where p: "certified S hw w prev" "next_epoch_state (lis_ledger_info prev) = Some es"
      "epoch_state_verify S es li = Inr ()" "unat (li_epoch (lis_ledger_info li)) = unat (li_epoch (lis_ledger_info prev)) + 1" by auto
    from False c' obtain prev' es' where p': "certified S hw w prev'" "next_epoch_state (lis_ledger_info prev') = Some es'"
      "epoch_state_verify S es' li' = Inr ()" "unat (li_epoch (lis_ledger_info li')) = unat (li_epoch (lis_ledger_info prev')) + 1" by auto
    have "li_epoch (lis_ledger_info prev) = li_epoch (lis_ledger_info prev')"
      using p(4) p'(4) less.prems(5) by (simp add: word_unat_eq_iff)
    then have "converter_new (lis_ledger_info prev) = converter_new (lis_ledger_info prev')"
      using p p' by (intro less.hyps) (auto simp: ends_epoch_def)
    then have es: "es' = es" using p(2) p'(2) by (simp add: converter_new_def)
    have v: "batch_verify_aggregated_signatures S (es_verifier es) (lis_ledger_info li) (lis_signatures li) = Inr ()"
      "batch_verify_aggregated_signatures S (es_verifier es) (lis_ledger_info li') (lis_signatures li') = Inr ()"
      and e: "li_epoch (lis_ledger_info li) = es_epoch es" "li_epoch (lis_ledger_info li') = es_epoch es"
      using p(3) p'(3) unfolding es by (auto simp: epoch_state_verify_def result_simps lis_verify_signatures_def)
    have hes: "verifier_ok (es_verifier es)" "\<not> verifier_is_empty (es_verifier es)"
        "3 * (\<Sum>a \<in> faulty (es_epoch es) \<inter> members (es_verifier es). power_of (es_verifier es) a) \<le> total_power (es_verifier es)"
      and uniq: "\<And>a x x' s s'. a \<notin> faulty (es_epoch es) \<Longrightarrow> ends_epoch x \<Longrightarrow> ends_epoch x' \<Longrightarrow>
        li_epoch x = es_epoch es \<Longrightarrow> li_epoch x' = es_epoch es \<Longrightarrow>
        verifier_verify S (es_verifier es) a x s = Inr () \<Longrightarrow> verifier_verify S (es_verifier es) a x' s' = Inr () \<Longrightarrow> x = x'"
      using h p(1,2) unfolding honest_epochs_def by blast+
    from quorum_common_signer [OF S hes v] obtain a s s' where "a \<notin> faulty (es_epoch es)"
      "verifier_verify S (es_verifier es) a (lis_ledger_info li) s = Inr ()"
      "verifier_verify S (es_verifier es) a (lis_ledger_info li') s' = Inr ()" .
    from uniq [OF this(1) less.prems(3,4) e this(2,3)] show ?thesis by simp
  qed
qed

text \<open>A genesis ledger info of one validator, and a signature scheme that accepts nothing.\<close>

definition example_li :: ledger_info_with_signatures where
  "example_li = lis_genesis 5 (validator_set_new
     [\<lparr>vi_account_address = 7, consensus_voting_power = 1,
       vi_config = \<lparr>consensus_public_key = [1], validator_network_identity_public_key = [], validator_network_address = [],
         full_node_network_identity_public_key = [], full_node_network_address = []\<rparr>\<rparr>])"

definition example_scheme :: "ledger_info sig_scheme" where
  "example_scheme = \<lparr>encode_msg = (\<lambda>m. None), dalek_verify = (\<lambda>pk m s. False), dalek_verify_batch = (\<lambda>_ _ _. False),
     batch_feature = True\<rparr>"

definition example_hasher :: waypoint_hasher where
  "example_hasher c = (if c = converter_new (lis_ledger_info example_li) then 1 else 0)"

definition example_waypoint :: waypoint where
  "example_waypoint = waypoint_new_any example_hasher (lis_ledger_info example_li)"

lemma example_simps:
  "next_epoch_state (lis_ledger_info example_li) = Some \<lparr>es_epoch = 1, es_verifier = new_single 7 [1]\<rparr>"
  "li_epoch (lis_ledger_info example_li) = 0"
  "ends_epoch (lis_ledger_info example_li)"
  by (simp_all add: example_li_def lis_genesis_def ledger_info_genesis_def block_info_genesis_def validator_set_new_def
      verifier_of_validator_set_def new_single_def ends_epoch_def GENESIS_EPOCH_def)

lemma example_waypoint_verify:
  "waypoint_verify example_hasher example_waypoint x = Inr () \<longleftrightarrow> converter_new x = converter_new (lis_ledger_info example_li)"
proof -
  have "li_version x = li_version (lis_ledger_info example_li)" if "converter_new x = converter_new (lis_ledger_info example_li)"
    using that by (simp add: converter_new_def)
  then show ?thesis
    by (auto simp: waypoint_verify_def example_waypoint_def waypoint_new_any_def example_hasher_def result_simps)
qed

lemma example_waypoint_ok: "waypoint_verify example_hasher example_waypoint (lis_ledger_info example_li) = Inr ()"
  by (simp add: example_waypoint_verify)

lemma single_verifier:
  "members (new_single a k) = {a}" "power_of (new_single a k) a = 1" "verifier_ok (new_single a k)"
  "\<not> verifier_is_empty (new_single a k)" "total_power (new_single a k) = 1"
proof -
  show m: "members (new_single a k) = {a}" and p: "power_of (new_single a k) a = 1"
    by (simp_all add: members_def bkeys_def new_single_def verifier_new_def power_of_def get_voting_power_def Let_def)
  then show t: "total_power (new_single a k) = 1" by (simp add: total_power_def)
  show "verifier_ok (new_single a k)" using t by (simp add: verifier_ok_def) (simp add: new_single_def verifier_new_def Let_def)
  show "\<not> verifier_is_empty (new_single a k)"
    by (simp add: verifier_is_empty_def verifier_len_def blen_def new_single_def verifier_new_def Let_def)
qed

lemma example_batch_sound: "batch_sound example_scheme"
  by (simp add: batch_sound_def example_scheme_def)

lemma example_verify: "verifier_verify example_scheme vv a m s \<noteq> Inr ()"
  by (simp add: verifier_verify_def verify_struct_signature_def signature_verify_def example_scheme_def is_ok_def split: option.splits)

lemma example_certified:
  "certified example_scheme example_hasher example_waypoint li \<longleftrightarrow>
     converter_new (lis_ledger_info li) = converter_new (lis_ledger_info example_li)"
proof
  assume "certified example_scheme example_hasher example_waypoint li"
  then show "converter_new (lis_ledger_info li) = converter_new (lis_ledger_info example_li)"
  proof (induction rule: certified.induct)
    case (certified_epoch prev es li)
    then have "es = \<lparr>es_epoch = 1, es_verifier = new_single 7 [1]\<rparr>" using example_simps(1) by (simp add: converter_new_def)
    then have "batch_verify_aggregated_signatures example_scheme (new_single 7 [1]) (lis_ledger_info li) (lis_signatures li) = Inr ()"
      using certified_epoch(3) by (simp add: epoch_state_verify_def result_simps lis_verify_signatures_def)
    note q = verified_quorum [OF example_batch_sound this single_verifier(3)]
    have "set (bkeys (lis_signatures li)) \<noteq> {}"
      using is_quorum_weight [OF q(1)] single_verifier(1,5) by force
    then obtain a where "a \<in> set (bkeys (lis_signatures li))" unfolding ex_in_conv [symmetric] ..

    then obtain s where "(a, s) \<in> set (bentries (lis_signatures li))" by (auto simp: bget_bkeys simp flip: bget_Some_iff)
    with q(2) example_verify show ?case using single_verifier(1) by (fastforce simp: valid_signatures_def)
  qed (simp add: example_waypoint_verify)
qed (simp add: certified_waypoint example_waypoint_verify)

lemma example_honest: "honest_epochs example_scheme example_hasher example_waypoint (\<lambda>_. {})"
  unfolding honest_epochs_def example_certified
proof (intro allI impI)
  fix prev es
  assume c: "converter_new (lis_ledger_info prev) = converter_new (lis_ledger_info example_li)"
    and n: "next_epoch_state (lis_ledger_info prev) = Some es"
  have es: "es = \<lparr>es_epoch = 1, es_verifier = new_single 7 [1]\<rparr>" "li_epoch (lis_ledger_info prev) = 0"
    using c n example_simps(1,2) by (simp_all add: converter_new_def)
  then show "unat (es_epoch es) = unat (li_epoch (lis_ledger_info prev)) + 1 \<and>
      verifier_ok (es_verifier es) \<and> \<not> verifier_is_empty (es_verifier es) \<and>
      3 * (\<Sum>a \<in> {} \<inter> members (es_verifier es). power_of (es_verifier es) a) \<le> total_power (es_verifier es) \<and>
      (\<forall>a li li' s s'. a \<notin> {} \<longrightarrow> ends_epoch li \<longrightarrow> ends_epoch li' \<longrightarrow>
         li_epoch li = es_epoch es \<longrightarrow> li_epoch li' = es_epoch es \<longrightarrow>
         verifier_verify example_scheme (es_verifier es) a li s = Inr () \<longrightarrow>
         verifier_verify example_scheme (es_verifier es) a li' s' = Inr () \<longrightarrow> li = li')"
    using example_verify single_verifier by simp
qed

section \<open>Properties\<close>

text \<open>
  C19: An epoch change proof is accepted exactly when it is a chain. After the ledger infos that the
  verifier considers stale, the proof still has ledger infos; the verifier accepts the first, each
  further one is signed by a quorum of the epoch state that its predecessor carries and has that
  epoch, the last one ends its epoch and is not stale, and it is the result.
\<close>

theorem epoch_change_proof_chain:
  "epoch_change_proof_verify S hw pf v = Inr li \<longleftrightarrow>
     (\<exists>x xs. fresh v pf = x # xs \<and> li = last (x # xs) \<and>
        \<not> is_ledger_info_stale v (lis_ledger_info li) \<and> ends_epoch (lis_ledger_info li) \<and>
        verifier_check S hw v x = Inr () \<and>
        (\<forall>i < length xs. \<exists>es. next_epoch_state (lis_ledger_info ((x # xs) ! i)) = Some es \<and>
           es_epoch es = li_epoch (lis_ledger_info (xs ! i)) \<and>
           lis_verify_signatures S (xs ! i) (es_verifier es) = Inr ()))"
proof -
  have "jump S prev nxt \<longleftrightarrow> (\<exists>es. next_epoch_state (lis_ledger_info prev) = Some es \<and>
      es_epoch es = li_epoch (lis_ledger_info nxt) \<and> lis_verify_signatures S nxt (es_verifier es) = Inr ())" for prev nxt
    by (auto simp: jump_def epoch_state_verify_def result_simps)
  then show ?thesis
    unfolding epoch_change_proof_verify_eq by (cases "fresh v pf") (auto simp: verify_jumps_Cons simp del: verify_jumps.simps)
qed

theorem epoch_change_proof_chain_witness:
  "epoch_change_proof_verify example_scheme example_hasher \<lparr>ecp_ledger_infos = [example_li], ecp_more = False\<rparr>
     (WaypointVerifier example_waypoint) = Inr example_li"
  unfolding epoch_change_proof_chain
  by (simp add: fresh_def example_simps example_waypoint_ok) (simp add: example_waypoint_def)

text \<open>
  C9: A client that starts from a trusted waypoint and feeds any responses of servers to
  \<open>verify_and_ratchet\<close> only ever trusts what is certified: its verifier is the waypoint or the epoch
  state carried by a certified ledger info, the state it has verified is the waypoint or that of a
  certified ledger info, and its version never decreases.
\<close>

theorem trusted_state_certified:
  "ts = fold (ratchet_step S hw) rs (trusted_state_from_waypoint w) \<Longrightarrow>
   (ts_verifier ts = WaypointVerifier w \<or>
      (\<exists>prev es. ts_verifier ts = EpochStateVerifier es \<and> certified S hw w prev \<and> next_epoch_state (lis_ledger_info prev) = Some es)) \<and>
   (verified_state ts = w \<or> (\<exists>li. certified S hw w li \<and> verified_state ts = waypoint_new_any hw (lis_ledger_info li))) \<and>
   latest_version ts \<le> latest_version (fold (ratchet_step S hw) rs' ts)"
proof -
  assume ts: "ts = fold (ratchet_step S hw) rs (trusted_state_from_waypoint w)"
  have ok: "trusted_ok S hw w ts" using ratchet_steps_trusted [OF trusted_from_waypoint] ts by blast
  from ratchet_steps_trusted [OF this, of rs'] ok show ?thesis
    unfolding trusted_ok_def certified_verifier_def by blast
qed

theorem trusted_state_certified_witness:
  "\<exists>prev. certified example_scheme example_hasher example_waypoint prev \<and>
     next_epoch_state (lis_ledger_info prev) = Some \<lparr>es_epoch = 1, es_verifier = new_single 7 [1]\<rparr>"
proof -
  let ?pf = "\<lparr>ecp_ledger_infos = [example_li], ecp_more = False\<rparr>"
  let ?ts = "\<lparr>verified_state = example_waypoint, ts_verifier = EpochStateVerifier \<lparr>es_epoch = 1, es_verifier = new_single 7 [1]\<rparr>\<rparr>"
  have v: "epoch_change_proof_verify example_scheme example_hasher ?pf (WaypointVerifier example_waypoint) = Inr example_li"
    unfolding epoch_change_proof_verify_eq
    by (simp add: fresh_def example_simps example_waypoint_ok) (simp add: example_waypoint_def)
  have "verify_and_ratchet example_scheme example_hasher (trusted_state_from_waypoint example_waypoint) example_li ?pf =
      Inr (EpochChange ?ts example_li)"
    using v by (simp add: verify_and_ratchet_def trusted_state_from_waypoint_def latest_version_def example_simps)
      (simp add: example_waypoint_def)
  then have "fold (ratchet_step example_scheme example_hasher) [(example_li, ?pf)] (trusted_state_from_waypoint example_waypoint) = ?ts"
    by (simp add: ratchet_step_def)
  from trusted_state_certified [OF this [symmetric], of "[]"] show ?thesis by simp
qed



end
