(* ===== verification/Sparse_Merkle_Proof.thy ===== *)
theory Sparse_Merkle_Proof
  imports Accumulator_Range
begin

text \<open>
  Proofs in the sparse Merkle tree of account states (\<open>types/src/proof/definition.rs\<close>,
  \<open>types/src/proof/mod.rs\<close>): the verifier, a reference tree over a list of entries, and what an
  accepted proof says about the entries. \<open>H\<close> hashes an internal node and \<open>Lf\<close> a leaf, from its key
  and the hash of its value.
\<close>

section \<open>Operations\<close>

record sparse_merkle_leaf_node =
  smln_key :: hash_value
  smln_value_hash :: hash_value

definition leaf_node_hash ::
    "(u8 list \<Rightarrow> hash_value) \<Rightarrow> u8 list \<Rightarrow> sparse_merkle_leaf_node \<Rightarrow> hash_value" where
  "leaf_node_hash sha3 salt self =
     (let state = default_hasher_new sha3 salt;
          state = hasher_update (as_bytes (smln_key self)) state;
          state = hasher_update (as_bytes (smln_value_hash self)) state
      in hasher_finish sha3 state)"

type_synonym leaf_hasher = "hash_value \<Rightarrow> hash_value \<Rightarrow> hash_value"

record sparse_merkle_proof =
  smp_leaf :: "sparse_merkle_leaf_node option"
  smp_siblings :: "hash_value list"

definition smp_step :: "node_hasher \<Rightarrow> hash_value \<times> bool \<Rightarrow> hash_value \<Rightarrow> hash_value" where
  "smp_step H = (\<lambda>(sibling_hash, bit) hash. if bit then H sibling_hash hash else H hash sibling_hash)"

definition smp_root :: "node_hasher \<Rightarrow> leaf_hasher \<Rightarrow> sparse_merkle_proof \<Rightarrow> hash_value \<Rightarrow> hash_value" where
  "smp_root H Lf self element_key =
     (let current_hash = (case smp_leaf self of None \<Rightarrow> SPARSE_MERKLE_PLACEHOLDER_HASH
                          | Some leaf \<Rightarrow> Lf (smln_key leaf) (smln_value_hash leaf))
      in fold (smp_step H)
           (zip (smp_siblings self) (drop (LENGTH_IN_BITS - length (smp_siblings self)) (rev (iter_bits element_key))))
           current_hash)"

text \<open>The blob of an account enters through its hash \<open>blob_hash\<close>.\<close>

definition sparse_merkle_proof_verify ::
    "node_hasher \<Rightarrow> leaf_hasher \<Rightarrow> ('b \<Rightarrow> hash_value) \<Rightarrow> sparse_merkle_proof \<Rightarrow> hash_value \<Rightarrow> hash_value \<Rightarrow> 'b option \<Rightarrow> unit anyhow" where
  "sparse_merkle_proof_verify H Lf blob_hash self expected_root_hash element_key element_blob =
     rbind (ensure (length (smp_siblings self) \<le> LENGTH_IN_BITS) ''Sparse Merkle Tree proof has more than 256 siblings.'') (\<lambda>_.
     rbind (case (element_blob, smp_leaf self) of
              (Some blob, Some leaf) \<Rightarrow>
                rbind (ensure (element_key = smln_key leaf) ''Keys do not match.'') (\<lambda>_.
                ensure (blob_hash blob = smln_value_hash leaf) ''Value hashes do not match.'')
            | (Some blob, None) \<Rightarrow> Inl (Err ''Expected inclusion proof. Found non-inclusion proof.'')
            | (None, Some leaf) \<Rightarrow>
                rbind (ensure (element_key \<noteq> smln_key leaf) ''Expected non-inclusion proof, but key exists in proof.'') (\<lambda>_.
                ensure (common_prefix_bits_len element_key (smln_key leaf) \<ge> length (smp_siblings self))
                  ''Key would not have ended up in the subtree where the provided key in proof is the only existing key'')
            | (None, None) \<Rightarrow> Inr ()) (\<lambda>_.
     ensure (smp_root H Lf self element_key = expected_root_hash) ''Root hashes do not match.''))"

lemma SPARSE_MERKLE_PLACEHOLDER_HASH_value [code]:
  "SPARSE_MERKLE_PLACEHOLDER_HASH = 0x5350415253455f4d45524b4c455f504c414345484f4c4445525f484153480000"
  by code_simp

section \<open>The reference tree\<close>

text \<open>
  The entries, keys with the hashes of their values, that agree on the first bits; \<open>n\<close> bits of the
  keys are left. A subtree without entries is the placeholder and one with a single entry is a leaf.
\<close>

type_synonym smt_entries = "(hash_value \<times> hash_value) list"

definition side :: "nat \<Rightarrow> bool \<Rightarrow> smt_entries \<Rightarrow> smt_entries" where
  "side d b es = filter (\<lambda>e. get_bit (fst e) d = b) es"

fun smt_node :: "node_hasher \<Rightarrow> leaf_hasher \<Rightarrow> nat \<Rightarrow> smt_entries \<Rightarrow> hash_value" where
  "smt_node H Lf n [] = SPARSE_MERKLE_PLACEHOLDER_HASH"
| "smt_node H Lf n [(k, v)] = Lf k v"
| "smt_node H Lf 0 (e # e' # es) = SPARSE_MERKLE_PLACEHOLDER_HASH"
| "smt_node H Lf (Suc n) (e # e' # es) =
     H (smt_node H Lf n (side (LENGTH_IN_BITS - Suc n) False (e # e' # es)))
       (smt_node H Lf n (side (LENGTH_IN_BITS - Suc n) True (e # e' # es)))"

definition smt_root :: "node_hasher \<Rightarrow> leaf_hasher \<Rightarrow> smt_entries \<Rightarrow> hash_value" where
  "smt_root H Lf es = smt_node H Lf LENGTH_IN_BITS es"

text \<open>The entries below the node that \<open>d\<close> bits of the key lead to.\<close>

primrec below :: "hash_value \<Rightarrow> nat \<Rightarrow> smt_entries \<Rightarrow> smt_entries" where
  "below k 0 es = es"
| "below k (Suc d) es = side d (get_bit k d) (below k d es)"

lemma set_below: "e \<in> set (below k d es) \<longleftrightarrow> e \<in> set es \<and> (\<forall>i < d. get_bit (fst e) i = get_bit k i)"
  by (induction d) (auto simp: side_def less_Suc_eq)

lemma distinct_below: "distinct (map fst es) \<Longrightarrow> distinct (map fst (below k d es))"
  by (induction d) (auto simp: side_def distinct_map_filter)

lemma get_bit_ext: "(\<And>i. i < LENGTH_IN_BITS \<Longrightarrow> get_bit a i = get_bit b i) \<Longrightarrow> a = b"
  by (simp add: iter_bits_def flip: iter_bits_inj)

lemma two_elements: "2 \<le> length xs \<Longrightarrow> \<exists>x y zs. xs = x # y # zs"
  by (cases xs; cases "tl xs") auto

lemma below_all:
  assumes "distinct (map fst es)"
  shows "length (below k LENGTH_IN_BITS es) \<le> 1"
proof (rule ccontr)
  assume "\<not> ?thesis"
  then obtain e e' rest where b: "below k LENGTH_IN_BITS es = e # e' # rest"
    using two_elements [of "below k LENGTH_IN_BITS es"] by auto
  have "fst x = k" if "x \<in> set (below k LENGTH_IN_BITS es)" for x
    using that by (intro get_bit_ext) (simp add: set_below)
  from this [of e] this [of e'] have "fst e = k" "fst e' = k" using b by simp_all
  with distinct_below [OF assms, of k LENGTH_IN_BITS] b show False by simp
qed

lemma smt_node_two:
  "2 \<le> length es \<Longrightarrow> smt_node H Lf (Suc n) es =
     H (smt_node H Lf n (side (LENGTH_IN_BITS - Suc n) False es)) (smt_node H Lf n (side (LENGTH_IN_BITS - Suc n) True es))"
  by (cases es rule: list.exhaust; cases "tl es") auto

lemma short_list_cases:
  obtains "xs = []" | k v where "xs = [(k, v)]" | "2 \<le> length xs"
proof (cases xs)
  case (Cons x ys)
  then show thesis using that by (cases ys; cases x) auto
qed (use that in simp)

text \<open>The pairs that the tree hashes.\<close>

function smt_pairs :: "node_hasher \<Rightarrow> leaf_hasher \<Rightarrow> nat \<Rightarrow> smt_entries \<Rightarrow> (hash_value \<times> hash_value) set" where
  "smt_pairs H Lf n es =
     (if length es < 2 \<or> n = 0 then {}
      else let l = side (LENGTH_IN_BITS - n) False es; r = side (LENGTH_IN_BITS - n) True es
           in insert (smt_node H Lf (n - 1) l, smt_node H Lf (n - 1) r) (smt_pairs H Lf (n - 1) l \<union> smt_pairs H Lf (n - 1) r))"
  by pat_completeness auto
termination
  by (relation "measure (\<lambda>(_, _, n, _). n)") auto

declare smt_pairs.simps [simp del]

lemma smt_pairs_two:
  "2 \<le> length es \<Longrightarrow> smt_pairs H Lf (Suc n) es =
     insert (smt_node H Lf n (side (LENGTH_IN_BITS - Suc n) False es), smt_node H Lf n (side (LENGTH_IN_BITS - Suc n) True es))
       (smt_pairs H Lf n (side (LENGTH_IN_BITS - Suc n) False es) \<union> smt_pairs H Lf n (side (LENGTH_IN_BITS - Suc n) True es))"
  by (subst smt_pairs.simps) (simp add: Let_def)

lemma side_length: "length (side d b es) \<le> length es"
  by (simp add: side_def)

lemma smt_pairs_below:
  "d \<le> LENGTH_IN_BITS \<Longrightarrow> smt_pairs H Lf (LENGTH_IN_BITS - d) (below k d es) \<subseteq> smt_pairs H Lf LENGTH_IN_BITS es"
proof (induction d)
  case (Suc d)
  then have e: "LENGTH_IN_BITS - d = Suc (LENGTH_IN_BITS - Suc d)" by simp
  have "smt_pairs H Lf (LENGTH_IN_BITS - Suc d) (below k (Suc d) es) \<subseteq> smt_pairs H Lf (LENGTH_IN_BITS - d) (below k d es)"
  proof (cases "2 \<le> length (below k d es)")
    case True
    have "LENGTH_IN_BITS - (LENGTH_IN_BITS - d) = d" using Suc.prems by simp
    then show ?thesis using smt_pairs_two [OF True, of H Lf "LENGTH_IN_BITS - Suc d"]
      by (cases "get_bit k d") (auto simp: e [symmetric])
  next
    case False
    then have "length (below k (Suc d) es) < 2" using side_length [of d "get_bit k d" "below k d es"] by simp
    then show ?thesis by (subst smt_pairs.simps) simp
  qed
  with Suc show ?case by simp
qed simp

section \<open>What a proof hashes\<close>

definition smp_leaf_hash :: "leaf_hasher \<Rightarrow> sparse_merkle_proof \<Rightarrow> hash_value" where
  "smp_leaf_hash Lf pf = (case smp_leaf pf of None \<Rightarrow> SPARSE_MERKLE_PLACEHOLDER_HASH
     | Some leaf \<Rightarrow> Lf (smln_key leaf) (smln_value_hash leaf))"

text \<open>The hash that the verifier computes for the node at depth \<open>d\<close>.\<close>

definition smp_at :: "node_hasher \<Rightarrow> leaf_hasher \<Rightarrow> sparse_merkle_proof \<Rightarrow> hash_value \<Rightarrow> nat \<Rightarrow> hash_value" where
  "smp_at H Lf pf key d =
     fold (smp_step H)
       (map (\<lambda>i. (smp_siblings pf ! i, get_bit key (length (smp_siblings pf) - 1 - i))) [0..<length (smp_siblings pf) - d])
       (smp_leaf_hash Lf pf)"

definition smp_pair :: "node_hasher \<Rightarrow> leaf_hasher \<Rightarrow> sparse_merkle_proof \<Rightarrow> hash_value \<Rightarrow> nat \<Rightarrow> hash_value \<times> hash_value" where
  "smp_pair H Lf pf key d =
     (let sib = smp_siblings pf ! (length (smp_siblings pf) - 1 - d); h = smp_at H Lf pf key (Suc d)
      in if get_bit key d then (sib, h) else (h, sib))"

definition smp_pairs :: "node_hasher \<Rightarrow> leaf_hasher \<Rightarrow> sparse_merkle_proof \<Rightarrow> hash_value \<Rightarrow> (hash_value \<times> hash_value) set" where
  "smp_pairs H Lf pf key = smp_pair H Lf pf key ` {..<length (smp_siblings pf)}"

lemma smp_at_leaf: "smp_at H Lf pf key (length (smp_siblings pf)) = smp_leaf_hash Lf pf"
  by (simp add: smp_at_def)

lemma smp_at_step:
  assumes "d < length (smp_siblings pf)"
  shows "smp_at H Lf pf key d = case_prod H (smp_pair H Lf pf key d)"
proof -
  let ?n = "length (smp_siblings pf)"
  have "?n - d = Suc (?n - Suc d)" using assms by simp
  moreover have "?n - 1 - (?n - Suc d) = d" using assms by simp
  ultimately show ?thesis unfolding smp_at_def smp_pair_def
    by (simp add: smp_step_def Let_def smp_at_def)
qed

lemma smp_root_at:
  assumes "length (smp_siblings pf) \<le> LENGTH_IN_BITS"
  shows "smp_root H Lf pf key = smp_at H Lf pf key 0"
proof -
  let ?n = "length (smp_siblings pf)"
  have n: "?n \<le> 256" using assms by (simp add: LENGTH_IN_BITS_def LENGTH_BYTES_def)
  have "zip (smp_siblings pf) (drop (LENGTH_IN_BITS - ?n) (rev (iter_bits key))) =
      map (\<lambda>i. (smp_siblings pf ! i, get_bit key (?n - 1 - i))) [0..<?n]"
  proof (rule nth_equalityI)
    show len: "length (zip (smp_siblings pf) (drop (LENGTH_IN_BITS - ?n) (rev (iter_bits key)))) =
        length (map (\<lambda>i. (smp_siblings pf ! i, get_bit key (?n - 1 - i))) [0..<?n])"
      using n by (simp add: LENGTH_IN_BITS_def LENGTH_BYTES_def)
    fix i assume "i < length (zip (smp_siblings pf) (drop (LENGTH_IN_BITS - ?n) (rev (iter_bits key))))"
    then have i: "i < ?n" by simp
    have "rev (iter_bits key) ! (256 - ?n + i) = iter_bits key ! (?n - 1 - i)"
      using i n by (subst rev_nth) (simp_all add: algebra_simps)
    also have "\<dots> = get_bit key (?n - 1 - i)" using i n by (simp add: iter_bits_nth get_bit_eq)
    finally show "zip (smp_siblings pf) (drop (LENGTH_IN_BITS - ?n) (rev (iter_bits key))) ! i =
        map (\<lambda>i. (smp_siblings pf ! i, get_bit key (?n - 1 - i))) [0..<?n] ! i"
      using i n by (simp add: LENGTH_IN_BITS_def LENGTH_BYTES_def)
  qed
  then show ?thesis by (simp add: smp_root_def smp_at_def smp_leaf_hash_def Let_def)
qed

section \<open>Soundness\<close>

text \<open>
  The assumption on the hash functions, about the finitely many pairs at hand: neither function
  collides on them, they have no common value and neither gives the placeholder.
\<close>

definition smt_collision_free ::
    "node_hasher \<Rightarrow> leaf_hasher \<Rightarrow> (hash_value \<times> hash_value) set \<Rightarrow> (hash_value \<times> hash_value) set \<Rightarrow> bool" where
  "smt_collision_free H Lf P Q \<longleftrightarrow>
     inj_on (case_prod H) P \<and> inj_on (case_prod Lf) Q \<and> case_prod H ` P \<inter> case_prod Lf ` Q = {} \<and>
     SPARSE_MERKLE_PLACEHOLDER_HASH \<notin> case_prod H ` P \<union> case_prod Lf ` Q"

lemma smt_collision_freeD:
  assumes "smt_collision_free H Lf P Q"
  shows "p \<in> P \<Longrightarrow> p' \<in> P \<Longrightarrow> case_prod H p = case_prod H p' \<Longrightarrow> p = p'"
    and "q \<in> Q \<Longrightarrow> q' \<in> Q \<Longrightarrow> case_prod Lf q = case_prod Lf q' \<Longrightarrow> q = q'"
    and "p \<in> P \<Longrightarrow> q \<in> Q \<Longrightarrow> case_prod H p \<noteq> case_prod Lf q"
    and "p \<in> P \<Longrightarrow> case_prod H p \<noteq> SPARSE_MERKLE_PLACEHOLDER_HASH"
    and "q \<in> Q \<Longrightarrow> case_prod Lf q \<noteq> SPARSE_MERKLE_PLACEHOLDER_HASH"
  using assms unfolding smt_collision_free_def inj_on_def by (blast, blast, blast, metis UnI1 imageI, metis UnI2 imageI)

definition smp_leaf_set :: "sparse_merkle_proof \<Rightarrow> (hash_value \<times> hash_value) set" where
  "smp_leaf_set pf = (\<lambda>leaf. (smln_key leaf, smln_value_hash leaf)) ` set_option (smp_leaf pf)"

lemma smp_follows_tree:
  assumes n: "length (smp_siblings pf) \<le> LENGTH_IN_BITS"
    and root: "smp_at H Lf pf key 0 = smt_root H Lf es"
    and cf: "smt_collision_free H Lf (smt_pairs H Lf LENGTH_IN_BITS es \<union> smp_pairs H Lf pf key) (set es \<union> smp_leaf_set pf)"
  shows "d \<le> length (smp_siblings pf) \<Longrightarrow> smp_at H Lf pf key d = smt_node H Lf (LENGTH_IN_BITS - d) (below key d es)"
proof (induction d)
  case 0
  then show ?case using root by (simp add: smt_root_def)
next
  case (Suc d)
  let ?B = "LENGTH_IN_BITS" and ?es = "below key d es"
  have d: "d < length (smp_siblings pf)" "d < ?B" using Suc.prems n by simp_all
  have e: "?B - d = Suc (?B - Suc d)" "?B - (?B - d) = d" using d by simp_all
  let ?q = "smp_pair H Lf pf key d"
  have q: "?q \<in> smp_pairs H Lf pf key" using d(1) by (simp add: smp_pairs_def)
  have eq: "case_prod H ?q = smt_node H Lf (?B - d) ?es" using Suc smp_at_step [OF d(1)] by simp
  consider "?es = []" | k v where "?es = [(k, v)]" | "2 \<le> length ?es" by (rule short_list_cases)
  then show ?case
  proof cases
    case 1
    with eq q cf show ?thesis by (force simp: smt_collision_free_def)
  next
    case 2
    then have "(k, v) \<in> set es" using set_below [of "(k, v)" key d es] by simp
    with 2 eq q cf show ?thesis by (force simp: smt_collision_free_def)
  next
    case 3
    let ?l = "smt_node H Lf (?B - Suc d) (side d False ?es)" and ?r = "smt_node H Lf (?B - Suc d) (side d True ?es)"
    have "(?l, ?r) \<in> smt_pairs H Lf (?B - d) ?es"
      using smt_pairs_two [OF 3, of H Lf "?B - Suc d"] e by simp
    then have t: "(?l, ?r) \<in> smt_pairs H Lf ?B es" using smt_pairs_below [of d H Lf key es] d by auto
    have "case_prod H ?q = case_prod H (?l, ?r)" using eq smt_node_two [OF 3, of H Lf "?B - Suc d"] e by simp
    then have "?q = (?l, ?r)" using cf q t unfolding smt_collision_free_def inj_on_def by blast
    then show ?thesis by (auto simp: smp_pair_def Let_def split: if_splits)
  qed
qed

lemma smp_sound:
  assumes n: "length (smp_siblings pf) \<le> LENGTH_IN_BITS" and d: "distinct (map fst es)"
    and root: "smp_root H Lf pf key = smt_root H Lf es"
    and cf: "smt_collision_free H Lf (smt_pairs H Lf LENGTH_IN_BITS es \<union> smp_pairs H Lf pf key) (set es \<union> smp_leaf_set pf)"
  shows "below key (length (smp_siblings pf)) es =
    (case smp_leaf pf of None \<Rightarrow> [] | Some leaf \<Rightarrow> [(smln_key leaf, smln_value_hash leaf)])"
proof -
  let ?n = "length (smp_siblings pf)" and ?B = LENGTH_IN_BITS
  let ?es = "below key ?n es"
  have r0: "smp_at H Lf pf key 0 = smt_root H Lf es" using root smp_root_at [OF n] by simp
  have eq: "smp_leaf_hash Lf pf = smt_node H Lf (?B - ?n) ?es"
    using smp_follows_tree [OF n r0 cf order.refl] by (simp add: smp_at_leaf)
  note cfD = smt_collision_freeD [OF cf]
  have leaf: "smp_leaf_hash Lf pf = case_prod Lf (smln_key leaf, smln_value_hash leaf)"
    "(smln_key leaf, smln_value_hash leaf) \<in> set es \<union> smp_leaf_set pf" if "smp_leaf pf = Some leaf" for leaf
    using that by (simp_all add: smp_leaf_hash_def smp_leaf_set_def)
  have none: "smp_leaf_hash Lf pf = SPARSE_MERKLE_PLACEHOLDER_HASH" if "smp_leaf pf = None"
    using that by (simp add: smp_leaf_hash_def)
  consider "?es = []" | k v where "?es = [(k, v)]" | "2 \<le> length ?es" by (rule short_list_cases)
  then show ?thesis
  proof cases
    case 1
    then have "smp_leaf_hash Lf pf = SPARSE_MERKLE_PLACEHOLDER_HASH" using eq by simp
    then have "smp_leaf pf = None"
      using leaf cfD(5) by (cases "smp_leaf pf") (simp, metis)
    with 1 show ?thesis by simp
  next
    case 2
    then have m: "(k, v) \<in> set es \<union> smp_leaf_set pf" using set_below [of "(k, v)" key ?n es] by simp
    have e: "smp_leaf_hash Lf pf = case_prod Lf (k, v)" using eq 2 by simp
    show ?thesis
    proof (cases "smp_leaf pf")
      case None
      with none e cfD(5) [OF m] show ?thesis by simp
    next
      case (Some leaf)
      from cfD(2) [OF leaf(2) [OF Some] m] leaf(1) [OF Some] e 2 Some show ?thesis by simp
    qed
  next
    case 3
    have "?n \<noteq> ?B" using 3 below_all [OF d, of key] by auto
    then have e: "?B - ?n = Suc (?B - Suc ?n)" "?B - (?B - ?n) = ?n" using n by simp_all
    let ?p = "(smt_node H Lf (?B - Suc ?n) (side ?n False ?es), smt_node H Lf (?B - Suc ?n) (side ?n True ?es))"
    have "?p \<in> smt_pairs H Lf (?B - ?n) ?es" using smt_pairs_two [OF 3, of H Lf "?B - Suc ?n"] e by simp
    then have p: "?p \<in> smt_pairs H Lf ?B es \<union> smp_pairs H Lf pf key" using smt_pairs_below [OF n, of H Lf key es] by blast
    have h: "smp_leaf_hash Lf pf = case_prod H ?p" using eq smt_node_two [OF 3, of H Lf "?B - Suc ?n"] e by simp
    show ?thesis
    proof (cases "smp_leaf pf")
      case None
      with none h cfD(4) [OF p] show ?thesis by simp
    next
      case (Some leaf)
      with leaf h cfD(3) [OF p leaf(2) [OF Some]] show ?thesis by simp
    qed
  qed
qed

section \<open>Completeness\<close>

text \<open>The proof that the reference tree gives for a key.\<close>

definition smt_depth :: "smt_entries \<Rightarrow> hash_value \<Rightarrow> nat" where
  "smt_depth es key = length (takeWhile (\<lambda>d. 2 \<le> length (below key d es)) [0..<LENGTH_IN_BITS])"

definition smt_proof :: "node_hasher \<Rightarrow> leaf_hasher \<Rightarrow> smt_entries \<Rightarrow> hash_value \<Rightarrow> sparse_merkle_proof" where
  "smt_proof H Lf es key =
     \<lparr>smp_leaf = (case below key (smt_depth es key) es of [] \<Rightarrow> None | (k, v) # _ \<Rightarrow> Some \<lparr>smln_key = k, smln_value_hash = v\<rparr>),
      smp_siblings = map (\<lambda>j. smt_node H Lf (LENGTH_IN_BITS - Suc j) (side j (\<not> get_bit key j) (below key j es))) (rev [0..<smt_depth es key])\<rparr>"

lemma smt_depth_props:
  assumes "distinct (map fst es)"
  shows "smt_depth es key \<le> LENGTH_IN_BITS" "j < smt_depth es key \<Longrightarrow> 2 \<le> length (below key j es)"
    "length (below key (smt_depth es key) es) < 2"
proof -
  let ?P = "\<lambda>d. 2 \<le> length (below key d es)"
  show le: "smt_depth es key \<le> LENGTH_IN_BITS"
    unfolding smt_depth_def using length_takeWhile_le [of ?P "[0..<LENGTH_IN_BITS]"] by simp
  show "?P j" if j: "j < smt_depth es key" for j
  proof -
    have "takeWhile ?P [0..<LENGTH_IN_BITS] ! j \<in> set (takeWhile ?P [0..<LENGTH_IN_BITS])"
      using j unfolding smt_depth_def by (rule nth_mem)
    moreover have "takeWhile ?P [0..<LENGTH_IN_BITS] ! j = j"
      using j le unfolding smt_depth_def by (simp add: takeWhile_nth)
    ultimately show ?thesis by (auto dest: set_takeWhileD)
  qed
  show "length (below key (smt_depth es key) es) < 2"
  proof (cases "smt_depth es key < LENGTH_IN_BITS")
    case True
    then show ?thesis using nth_length_takeWhile [of ?P "[0..<LENGTH_IN_BITS]"] unfolding smt_depth_def by simp
  next
    case False
    then have "smt_depth es key = LENGTH_IN_BITS" using le by simp
    with below_all [OF assms, of key] show ?thesis by simp
  qed
qed

lemma smt_proof_at:
  assumes d: "distinct (map fst es)"
  shows "j \<le> smt_depth es key \<Longrightarrow>
    smp_at H Lf (smt_proof H Lf es key) key j = smt_node H Lf (LENGTH_IN_BITS - j) (below key j es)"
proof (induction j rule: inc_induct)
  case base
  have "length (smp_siblings (smt_proof H Lf es key)) = smt_depth es key" by (simp add: smt_proof_def)
  then have "smp_at H Lf (smt_proof H Lf es key) key (smt_depth es key) = smp_leaf_hash Lf (smt_proof H Lf es key)"
    using smp_at_leaf by metis
  also have "\<dots> = smt_node H Lf (LENGTH_IN_BITS - smt_depth es key) (below key (smt_depth es key) es)"
    using smt_depth_props(3) [OF d, of key]
    by (cases "below key (smt_depth es key) es" rule: short_list_cases) (auto simp: smp_leaf_hash_def smt_proof_def)
  finally show ?case .
next
  case (step j)
  let ?B = LENGTH_IN_BITS and ?n = "smt_depth es key" and ?pf = "smt_proof H Lf es key"
  have n: "length (smp_siblings ?pf) = ?n" by (simp add: smt_proof_def)
  have j: "j < ?n" "j < ?B" "2 \<le> length (below key j es)"
    using step smt_depth_props(1,2) [OF d, where key = key] by (auto intro: order.strict_trans2)
  have e: "?B - j = Suc (?B - Suc j)" "?B - (?B - j) = j" using j by simp_all
  have "rev [0..<?n] ! (?n - 1 - j) = j" using j(1) by (subst rev_nth) simp_all
  then have sib: "smp_siblings ?pf ! (?n - 1 - j) = smt_node H Lf (?B - Suc j) (side j (\<not> get_bit key j) (below key j es))"
    using j(1) by (simp add: smt_proof_def)
  have "smp_at H Lf ?pf key j = case_prod H (smp_pair H Lf ?pf key j)" using j(1) n by (intro smp_at_step) simp
  also have "\<dots> = smt_node H Lf (?B - j) (below key j es)"
    using step.IH sib smt_node_two [OF j(3), of H Lf "?B - Suc j"] n e
    by (cases "get_bit key j") (simp_all add: smp_pair_def Let_def)
  finally show ?case .
qed

lemma common_prefix_ge:
  assumes "n \<le> 256" "\<And>i. i < n \<Longrightarrow> get_bit a i = get_bit b i"
  shows "n \<le> common_prefix_bits_len a b"
proof (rule ccontr)
  assume "\<not> ?thesis"
  then have c: "common_prefix_bits_len a b < n" by simp
  let ?z = "zip (iter_bits a) (iter_bits b)" and ?P = "\<lambda>(x, y). x = y"
  have "\<not> ?P (?z ! common_prefix_bits_len a b)"
    unfolding common_prefix_bits_len_def
    using c assms(1) unfolding common_prefix_bits_len_def by (intro nth_length_takeWhile) simp
  then show False using assms(2) [OF c] c assms(1) by (simp add: iter_bits_nth get_bit_eq)
qed

lemma smp_verified:
  "sparse_merkle_proof_verify H Lf blob_hash pf (smt_root H Lf es) key blob = Inr () \<Longrightarrow>
   distinct (map fst es) \<Longrightarrow>
   smt_collision_free H Lf (smt_pairs H Lf LENGTH_IN_BITS es \<union> smp_pairs H Lf pf key) (set es \<union> smp_leaf_set pf) \<Longrightarrow>
   map_of es key = map_option blob_hash blob"
proof -
  assume v: "sparse_merkle_proof_verify H Lf blob_hash pf (smt_root H Lf es) key blob = Inr ()"
    and d: "distinct (map fst es)"
    and cf: "smt_collision_free H Lf (smt_pairs H Lf LENGTH_IN_BITS es \<union> smp_pairs H Lf pf key) (set es \<union> smp_leaf_set pf)"
  let ?n = "length (smp_siblings pf)"
  from v have n: "?n \<le> LENGTH_IN_BITS" and root: "smp_root H Lf pf key = smt_root H Lf es"
    by (auto simp: sparse_merkle_proof_verify_def result_simps)
  note b = smp_sound [OF n d root cf]
  have mem: "(k, x) \<in> set es \<and> (\<forall>i < ?n. get_bit k i = get_bit key i) \<longleftrightarrow> (k, x) \<in> set (below key ?n es)" for k x
    by (simp add: set_below)
  show ?thesis
  proof (cases blob)
    case None
    have "\<exists>leaf. smp_leaf pf = Some leaf \<and> smln_key leaf \<noteq> key \<or> smp_leaf pf = None"
      using v None by (cases "smp_leaf pf") (auto simp: sparse_merkle_proof_verify_def result_simps)
    then have "(key, x) \<notin> set es" for x using mem [of key x] b by (auto split: option.splits)
    then show ?thesis using None by (auto simp: map_of_eq_None_iff)
  next
    case (Some bl)
    then obtain leaf where l: "smp_leaf pf = Some leaf" "smln_key leaf = key" "smln_value_hash leaf = blob_hash bl"
      using v by (cases "smp_leaf pf") (auto simp: sparse_merkle_proof_verify_def result_simps)
    then have "(key, blob_hash bl) \<in> set es" using mem [of key "blob_hash bl"] b by simp
    then show ?thesis using Some d by simp
  qed
qed

section \<open>Properties\<close>

text \<open>
  C34: A sparse Merkle proof is sound. If the verifier accepts a proof for a key against the root
  hash of the tree over distinct keys \<open>es\<close>, and the hashes computed by the tree and by the verifier
  do not collide, then with a blob the tree maps the key to the hash of that blob, and without one
  the key is not in the tree.
\<close>

theorem sparse_merkle_proof_sound:
  "sparse_merkle_proof_verify H Lf blob_hash pf (smt_root H Lf es) key blob = Inr () \<Longrightarrow>
   distinct (map fst es) \<Longrightarrow>
   smt_collision_free H Lf (smt_pairs H Lf LENGTH_IN_BITS es \<union> smp_pairs H Lf pf key) (set es \<union> smp_leaf_set pf) \<Longrightarrow>
   map_of es key = map_option blob_hash blob"
  by (rule smp_verified)

theorem sparse_merkle_proof_sound_witness:
  "map_of [(0, 7), (2 ^ 255, 9)] 0 = Some (7 :: hash_value) \<and>
   sparse_merkle_proof_verify (\<lambda>a b. 2 * a + 3 * b) (\<lambda>k v. v) (\<lambda>_. 7)
     \<lparr>smp_leaf = Some \<lparr>smln_key = 0, smln_value_hash = 7\<rparr>, smp_siblings = [9]\<rparr>
     (smt_root (\<lambda>a b. 2 * a + 3 * b) (\<lambda>k v. v) [(0, 7), (2 ^ 255, 9)]) 0 (Some ()) = Inr ()"
proof -
  let ?H = "\<lambda>a b. 2 * a + 3 * b :: hash_value" and ?L = "\<lambda>k v :: hash_value. v" and ?es = "[(0, 7), (2 ^ 255, 9)] :: smt_entries"
  let ?pf = "\<lparr>smp_leaf = Some \<lparr>smln_key = 0, smln_value_hash = 7\<rparr>, smp_siblings = [9]\<rparr>"
  have bits: "\<not> get_bit 0 0" "get_bit (2 ^ 255) 0"
    using get_bit_eq [of 0 0] get_bit_eq [of 0 "2 ^ 255"] by (simp_all add: bit_exp_iff)
  have B: "LENGTH_IN_BITS = Suc 255" by (simp add: LENGTH_IN_BITS_def LENGTH_BYTES_def)
  have side: "side 0 False ?es = [(0, 7)]" "side 0 True ?es = [(2 ^ 255, 9)]"
    unfolding side_def using bits by simp_all
  have two: "2 \<le> length ?es" by simp
  have root: "smt_root ?H ?L ?es = ?H 7 9"
    unfolding smt_root_def B using smt_node_two [OF two, of ?H ?L 255] side by (simp add: B)
  have tp: "smt_pairs ?H ?L LENGTH_IN_BITS ?es = {(7, 9)}"
  proof -
    have "smt_pairs ?H ?L 255 [x] = {}" for x by (subst smt_pairs.simps) simp
    then show ?thesis unfolding B using smt_pairs_two [OF two, of ?H ?L 255] side by (simp add: B)
  qed
  have pp: "smp_pairs ?H ?L ?pf 0 = {(7, 9)}"
    using bits by (auto simp: smp_pairs_def smp_pair_def smp_at_def smp_leaf_hash_def Let_def)
  have "smp_root ?H ?L ?pf 0 = ?H 7 9"
    using smp_root_at [of ?pf ?H ?L 0] bits
    by (simp add: B smp_at_def smp_leaf_hash_def smp_step_def)
  with root have v: "sparse_merkle_proof_verify ?H ?L (\<lambda>_. 7) ?pf (smt_root ?H ?L ?es) 0 (Some ()) = Inr ()"
    by (simp add: sparse_merkle_proof_verify_def B)
  have ph: "SPARSE_MERKLE_PLACEHOLDER_HASH \<noteq> 7" "SPARSE_MERKLE_PLACEHOLDER_HASH \<noteq> 9" "SPARSE_MERKLE_PLACEHOLDER_HASH \<noteq> 41"
    by (simp_all add: SPARSE_MERKLE_PLACEHOLDER_HASH_value)
  have "smt_collision_free ?H ?L (smt_pairs ?H ?L LENGTH_IN_BITS ?es \<union> smp_pairs ?H ?L ?pf 0) (set ?es \<union> smp_leaf_set ?pf)"
    unfolding smt_collision_free_def tp pp using ph by (auto simp: smp_leaf_set_def inj_on_def)
  from sparse_merkle_proof_sound [OF v _ this] v show ?thesis by simp
qed

text \<open>
  C37: Sparse Merkle proofs are complete. For every key, the path of the reference tree towards the
  key is accepted by the verifier as an inclusion proof for any blob with the hash that the tree
  has for the key, and as a non-inclusion proof if the tree does not have the key.
\<close>

theorem sparse_merkle_proof_complete:
  "distinct (map fst es) \<Longrightarrow> map_of es key = map_option blob_hash blob \<Longrightarrow>
   sparse_merkle_proof_verify H Lf blob_hash (smt_proof H Lf es key) (smt_root H Lf es) key blob = Inr ()"
proof -
  assume d: "distinct (map fst es)" and m: "map_of es key = map_option blob_hash blob"
  let ?n = "smt_depth es key" and ?pf = "smt_proof H Lf es key"
  have len: "length (smp_siblings ?pf) = ?n" by (simp add: smt_proof_def)
  have n: "?n \<le> LENGTH_IN_BITS" using smt_depth_props(1) [OF d] .
  have root: "smp_root H Lf ?pf key = smt_root H Lf es"
    using smp_root_at [of ?pf H Lf key] smt_proof_at [OF d, of 0 key H Lf] n len by (simp add: smt_root_def)
  consider "below key ?n es = []" | k v where "below key ?n es = [(k, v)]"
    using smt_depth_props(3) [OF d, of key] by (cases "below key ?n es" rule: short_list_cases) auto
  then show ?thesis
  proof cases
    case 1
    then have "(key, x) \<notin> set es" for x using set_below [of "(key, x)" key ?n es] by simp
    then have "map_of es key = None" by (auto simp: map_of_eq_None_iff)
    with m have "blob = None" by simp
    with 1 root n len show ?thesis by (simp add: sparse_merkle_proof_verify_def smt_proof_def)
  next
    case 2
    then have kv: "(k, v) \<in> set es" "\<forall>i < ?n. get_bit k i = get_bit key i"
      using set_below [of "(k, v)" key ?n es] by simp_all
    have leaf: "smp_leaf ?pf = Some \<lparr>smln_key = k, smln_value_hash = v\<rparr>" using 2 by (simp add: smt_proof_def)
    show ?thesis
    proof (cases blob)
      case None
      then have "k \<noteq> key" using m kv(1) by (force simp: map_of_eq_None_iff)
      moreover have "?n \<le> common_prefix_bits_len key k"
        using kv(2) n by (intro common_prefix_ge) (auto simp: LENGTH_IN_BITS_def LENGTH_BYTES_def)
      ultimately show ?thesis using None leaf root n len by (simp add: sparse_merkle_proof_verify_def)
    next
      case (Some b)
      then have "(key, blob_hash b) \<in> set es" using m by (simp add: map_of_SomeD)
      then have "(key, blob_hash b) \<in> set (below key ?n es)" by (simp add: set_below)
      then have "k = key" "v = blob_hash b" using 2 by simp_all
      then show ?thesis using Some leaf root n len by (simp add: sparse_merkle_proof_verify_def)
    qed
  qed
qed

theorem sparse_merkle_proof_complete_witness:
  "sparse_merkle_proof_verify (\<lambda>a b. 2 * a + 3 * b) (\<lambda>k v. v) (\<lambda>_. 7)
     (smt_proof (\<lambda>a b. 2 * a + 3 * b) (\<lambda>k v. v) [(0, 7), (2 ^ 255, 9)] 0)
     (smt_root (\<lambda>a b. 2 * a + 3 * b) (\<lambda>k v. v) [(0, 7), (2 ^ 255, 9)]) 0 (Some ()) = Inr ()"
  by (rule sparse_merkle_proof_complete) simp_all

end
