(* ===== verification/Transaction_Proof.thy ===== *)
theory Transaction_Proof
  imports Accumulator_Range Ledger_Info Sparse_Merkle_Proof
begin

text \<open>
  The proofs that clients verify against a ledger info: of a transaction info, an account state, an
  event and a list of transactions (\<open>types/src/proof\<close>, \<open>types/src/transaction/mod.rs\<close>,
  \<open>types/src/account_state_blob.rs\<close>, \<open>types/src/contract_event.rs\<close>). The hash functions of the
  structures are the fields of \<open>proof_hashers\<close>; \<open>'p\<close> is the payload of a transaction.
\<close>

section \<open>Transactions, events and account states\<close>

datatype type_tag =
    TagBool | TagU8 | TagU64 | TagU128 | TagAddress | TagSigner
  | TagVector type_tag
  | TagStruct account_address string string "type_tag list"

type_synonym event_key = "u8 list"

record contract_event =
  ev_key :: event_key
  ev_sequence_number :: u64
  ev_type_tag :: type_tag
  ev_event_data :: "u8 list"

type_synonym account_state_blob = "u8 list"

record 'p raw_transaction =
  rt_sender :: account_address
  rt_sequence_number :: u64
  rt_payload :: 'p
  rt_max_gas_amount :: u64
  rt_gas_unit_price :: u64
  rt_gas_currency_code :: string
  rt_expiration_time :: u64

record 'p signed_transaction =
  st_raw_txn :: "'p raw_transaction"
  st_authenticator :: "u8 list"

datatype 'p transaction =
    UserTransaction "'p signed_transaction"
  | WaypointWriteSet 'p
  | BlockMetadata 'p

definition as_signed_user_txn :: "'p transaction \<Rightarrow> 'p signed_transaction anyhow" where
  "as_signed_user_txn self =
     (case self of UserTransaction txn \<Rightarrow> Inr txn | _ \<Rightarrow> Inl (Err ''Not a user transaction.''))"

record transaction_info =
  ti_transaction_hash :: hash_value
  ti_state_root_hash :: hash_value
  ti_event_root_hash :: hash_value
  ti_gas_used :: u64
  ti_major_status :: u64

record 'p proof_hashers =
  h_txn_accumulator :: node_hasher
  h_event_accumulator :: node_hasher
  h_state_node :: node_hasher
  h_state_leaf :: leaf_hasher
  h_transaction :: "'p transaction \<Rightarrow> hash_value"
  h_transaction_info :: "transaction_info \<Rightarrow> hash_value"
  h_event :: "contract_event \<Rightarrow> hash_value"
  h_blob :: "account_state_blob \<Rightarrow> hash_value"
  h_address :: "account_address \<Rightarrow> hash_value"

text \<open>The hash of a blob and of an address over the SHA3 parameter.\<close>

definition bytes_hash :: "(u8 list \<Rightarrow> hash_value) \<Rightarrow> u8 list \<Rightarrow> account_state_blob \<Rightarrow> hash_value" where
  "bytes_hash sha3 salt self =
     (let hasher = default_hasher_new sha3 salt;
          hasher = hasher_update self hasher
      in hasher_finish sha3 hasher)"

section \<open>Proofs\<close>

definition verify_transaction_info ::
    "'p proof_hashers \<Rightarrow> ledger_info \<Rightarrow> version \<Rightarrow> transaction_info \<Rightarrow> accumulator_proof \<Rightarrow> unit anyhow" where
  "verify_transaction_info K li transaction_version info pf =
     rbind (ensure (transaction_version \<le> li_version li) ''Transaction version is newer than LedgerInfo version.'') (\<lambda>_.
     rbind (accumulator_proof_verify (h_txn_accumulator K) pf (transaction_accumulator_hash li)
              (h_transaction_info K info) transaction_version) (\<lambda>_.
     Inr ()))"

record transaction_info_with_proof =
  ledger_info_to_transaction_info_proof :: accumulator_proof
  tip_transaction_info :: transaction_info

definition transaction_info_with_proof_verify ::
    "'p proof_hashers \<Rightarrow> transaction_info_with_proof \<Rightarrow> ledger_info \<Rightarrow> version \<Rightarrow> unit anyhow" where
  "transaction_info_with_proof_verify K self li transaction_version =
     verify_transaction_info K li transaction_version (tip_transaction_info self) (ledger_info_to_transaction_info_proof self)"

record account_state_proof =
  asp_transaction_info_with_proof :: transaction_info_with_proof
  transaction_info_to_account_proof :: sparse_merkle_proof

definition account_state_proof_verify ::
    "'p proof_hashers \<Rightarrow> account_state_proof \<Rightarrow> ledger_info \<Rightarrow> version \<Rightarrow> hash_value \<Rightarrow> account_state_blob option \<Rightarrow> unit anyhow" where
  "account_state_proof_verify K self li state_version account_address_hash blob =
     rbind (sparse_merkle_proof_verify (h_state_node K) (h_state_leaf K) (h_blob K) (transaction_info_to_account_proof self)
              (ti_state_root_hash (tip_transaction_info (asp_transaction_info_with_proof self))) account_address_hash blob) (\<lambda>_.
     rbind (transaction_info_with_proof_verify K (asp_transaction_info_with_proof self) li state_version) (\<lambda>_.
     Inr ()))"

record event_proof =
  ep_transaction_info_with_proof :: transaction_info_with_proof
  transaction_info_to_event_proof :: accumulator_proof

definition event_proof_verify ::
    "'p proof_hashers \<Rightarrow> event_proof \<Rightarrow> ledger_info \<Rightarrow> hash_value \<Rightarrow> version \<Rightarrow> u64 \<Rightarrow> unit anyhow" where
  "event_proof_verify K self li event_hash transaction_version event_version_within_transaction =
     rbind (accumulator_proof_verify (h_event_accumulator K) (transaction_info_to_event_proof self)
              (ti_event_root_hash (tip_transaction_info (ep_transaction_info_with_proof self)))
              event_hash event_version_within_transaction) (\<lambda>_.
     rbind (transaction_info_with_proof_verify K (ep_transaction_info_with_proof self) li transaction_version) (\<lambda>_.
     Inr ()))"

record transaction_list_proof =
  ledger_info_to_transaction_infos_proof :: accumulator_range_proof
  tlp_transaction_infos :: "transaction_info list"

definition transaction_list_proof_new_empty :: transaction_list_proof where
  "transaction_list_proof_new_empty =
     \<lparr>ledger_info_to_transaction_infos_proof = range_proof_new_empty, tlp_transaction_infos = []\<rparr>"

definition transaction_list_proof_verify ::
    "'p proof_hashers \<Rightarrow> transaction_list_proof \<Rightarrow> ledger_info \<Rightarrow> version option \<Rightarrow> hash_value list \<Rightarrow> unit anyhow" where
  "transaction_list_proof_verify K self li first_transaction_version transaction_hashes =
     rbind (ensure (length (tlp_transaction_infos self) = length transaction_hashes)
              ''The number of TransactionInfo objects does not match the number of transactions.'') (\<lambda>_.
     rbind (rfor_each (\<lambda>(txn_hash, txn_info). ensure (txn_hash = ti_transaction_hash txn_info)
              ''The hash of transaction does not match the transaction info in proof.'')
              (zip transaction_hashes (tlp_transaction_infos self))) (\<lambda>_.
     let txn_info_hashes = map (h_transaction_info K) (tlp_transaction_infos self)
     in rbind (accumulator_range_proof_verify (h_txn_accumulator K) (ledger_info_to_transaction_infos_proof self)
                 (transaction_accumulator_hash li) first_transaction_version txn_info_hashes) (\<lambda>_.
        Inr ())))"

section \<open>Data with proofs\<close>

record account_state_with_proof =
  asw_version :: version
  asw_blob :: "account_state_blob option"
  asw_proof :: account_state_proof

definition account_state_with_proof_verify ::
    "'p proof_hashers \<Rightarrow> account_state_with_proof \<Rightarrow> ledger_info \<Rightarrow> version \<Rightarrow> account_address \<Rightarrow> unit anyhow" where
  "account_state_with_proof_verify K self li ver address =
     rbind (ensure (asw_version self = ver) ''State version is not expected.'') (\<lambda>_.
     account_state_proof_verify K (asw_proof self) li ver (h_address K address) (asw_blob self))"

record event_with_proof =
  ewp_transaction_version :: version
  ewp_event_index :: u64
  ewp_event :: contract_event
  ewp_proof :: event_proof

definition event_with_proof_verify ::
    "'p proof_hashers \<Rightarrow> event_with_proof \<Rightarrow> ledger_info \<Rightarrow> event_key \<Rightarrow> u64 \<Rightarrow> version \<Rightarrow> u64 \<Rightarrow> unit anyhow" where
  "event_with_proof_verify K self li event_key sequence_number transaction_version event_index =
     rbind (ensure (ev_key (ewp_event self) = event_key) ''Event key not expected.'') (\<lambda>_.
     rbind (ensure (ev_sequence_number (ewp_event self) = sequence_number) ''Sequence number not expected.'') (\<lambda>_.
     rbind (ensure (ewp_transaction_version self = transaction_version) ''Transaction version not expected.'') (\<lambda>_.
     rbind (ensure (ewp_event_index self = event_index) ''Event index not expected.'') (\<lambda>_.
     rbind (event_proof_verify K (ewp_proof self) li (h_event K (ewp_event self)) transaction_version event_index) (\<lambda>_.
     Inr ())))))"

record 'p transaction_with_proof =
  twp_version :: version
  twp_transaction :: "'p transaction"
  twp_events :: "contract_event list option"
  twp_proof :: transaction_info_with_proof

definition check_event_root :: "'p proof_hashers \<Rightarrow> contract_event list \<Rightarrow> hash_value \<Rightarrow> string \<Rightarrow> unit anyhow" where
  "check_event_root K events root msg =
     rbind (from_leaves (h_event_accumulator K) (map (h_event K) events)) (\<lambda>acc.
     ensure (root_hash acc = root) msg)"

definition verify_user_txn ::
    "'p proof_hashers \<Rightarrow> 'p transaction_with_proof \<Rightarrow> ledger_info \<Rightarrow> version \<Rightarrow> account_address \<Rightarrow> u64 \<Rightarrow> unit anyhow" where
  "verify_user_txn K self li ver sender sequence_number =
     rbind (as_signed_user_txn (twp_transaction self)) (\<lambda>signed_transaction.
     rbind (ensure (twp_version self = ver) ''Version is not expected.'') (\<lambda>_.
     rbind (ensure (rt_sender (st_raw_txn signed_transaction) = sender) ''Sender not expected.'') (\<lambda>_.
     rbind (ensure (rt_sequence_number (st_raw_txn signed_transaction) = sequence_number) ''Sequence number not expected.'') (\<lambda>_.
     rbind (ensure (h_transaction K (twp_transaction self) = ti_transaction_hash (tip_transaction_info (twp_proof self)))
              ''Transaction hash not expected.'') (\<lambda>_.
     rbind (case twp_events self of
              Some events \<Rightarrow> check_event_root K events (ti_event_root_hash (tip_transaction_info (twp_proof self)))
                ''Event root hash not expected.''
            | None \<Rightarrow> Inr ()) (\<lambda>_.
     transaction_info_with_proof_verify K (twp_proof self) li ver))))))"

record 'p transaction_list_with_proof =
  tlw_transactions :: "'p transaction list"
  tlw_events :: "contract_event list list option"
  tlw_first_transaction_version :: "version option"
  tlw_proof :: transaction_list_proof

definition transaction_list_with_proof_new_empty :: "'p transaction_list_with_proof" where
  "transaction_list_with_proof_new_empty =
     \<lparr>tlw_transactions = [], tlw_events = None, tlw_first_transaction_version = None,
      tlw_proof = transaction_list_proof_new_empty\<rparr>"

definition transaction_list_with_proof_verify ::
    "'p proof_hashers \<Rightarrow> 'p transaction_list_with_proof \<Rightarrow> ledger_info \<Rightarrow> version option \<Rightarrow> unit anyhow" where
  "transaction_list_with_proof_verify K self li first_transaction_version =
     rbind (ensure (tlw_first_transaction_version self = first_transaction_version) ''First transaction version not expected.'') (\<lambda>_.
     rbind (transaction_list_proof_verify K (tlw_proof self) li (tlw_first_transaction_version self)
              (map (h_transaction K) (tlw_transactions self))) (\<lambda>_.
     case tlw_events self of
       Some event_lists \<Rightarrow>
         rbind (ensure (length event_lists = length (tlw_transactions self))
                  ''The length of event_lists does not match the number of transactions.'') (\<lambda>_.
         rfor_each (\<lambda>(events, txn_info). check_event_root K events (ti_event_root_hash txn_info)
                      ''Some event root hash calculated doesn't match that carried on the transaction info.'')
           (zip event_lists (tlp_transaction_infos (tlw_proof self))))
     | None \<Rightarrow> Inr ()))"

section \<open>What the proofs establish\<close>

text \<open>The ledger info commits to the transaction infos \<open>infos\<close>, one for each version up to its own.\<close>

definition commits_to :: "'p proof_hashers \<Rightarrow> ledger_info \<Rightarrow> transaction_info list \<Rightarrow> bool" where
  "commits_to K li infos \<longleftrightarrow>
     transaction_accumulator_hash li = tree_root (h_txn_accumulator K) (map (h_transaction_info K) infos) \<and>
     unat (li_version li) + 1 = length infos"

text \<open>No collisions among the hashes of an accepted proof of a transaction info.\<close>

definition info_collision_free :: "'p proof_hashers \<Rightarrow> transaction_info list \<Rightarrow> transaction_info_with_proof \<Rightarrow> version \<Rightarrow> bool" where
  "info_collision_free K infos pf ver \<longleftrightarrow>
     (let h = h_transaction_info K (tip_transaction_info pf)
      in collision_free (h_txn_accumulator K)
           (tree_pairs (h_txn_accumulator K) (map (h_transaction_info K) infos) \<union>
            proof_pairs (h_txn_accumulator K) (ap_siblings (ledger_info_to_transaction_info_proof pf)) h ver)
           (insert ACCUMULATOR_PLACEHOLDER_HASH (insert h (h_transaction_info K ` set infos))) \<and>
         h \<noteq> ACCUMULATOR_PLACEHOLDER_HASH \<and>
         inj_on (h_transaction_info K) (insert (tip_transaction_info pf) (set infos)))"

lemma zip_all_eq: "length xs = length ys \<Longrightarrow> \<forall>(x, y) \<in> set (zip xs ys). x = f y \<Longrightarrow> xs = map f ys"
  by (induction xs ys rule: list_induct2) auto

lemma inj_on_nth: "inj_on f (insert x (set xs)) \<Longrightarrow> k < length xs \<Longrightarrow> f (xs ! k) = f x \<Longrightarrow> xs ! k = x"
  by (meson inj_onD insertI1 insertI2 nth_mem)

lemma transaction_info_sound:
  assumes v: "transaction_info_with_proof_verify K pf li ver = Inr ()" and c: "commits_to K li infos"
    and cf: "info_collision_free K infos pf ver"
  shows "unat ver < length infos \<and> tip_transaction_info pf = infos ! unat ver"
proof -
  let ?H = "h_txn_accumulator K" and ?xs = "map (h_transaction_info K) infos"
  let ?ss = "ap_siblings (ledger_info_to_transaction_info_proof pf)" and ?h = "h_transaction_info K (tip_transaction_info pf)"
  from v have le: "ver \<le> li_version li" and root: "proof_hash ?H ?ss ?h ver (length ?ss) = tree_root ?H ?xs"
    using c by (auto simp: transaction_info_with_proof_verify_def verify_transaction_info_def result_simps verify_iff commits_to_def)
  from cf have cf': "collision_free ?H (tree_pairs ?H ?xs \<union> proof_pairs ?H ?ss ?h ver)
      (insert ACCUMULATOR_PLACEHOLDER_HASH (insert ?h (set ?xs)))" "?h \<noteq> ACCUMULATOR_PLACEHOLDER_HASH"
    and inj: "inj_on (h_transaction_info K) (insert (tip_transaction_info pf) (set infos))"
    by (simp_all add: info_collision_free_def Let_def)
  from proof_sound [OF cf' root] have s: "length ?ss = root_level (length infos)"
    "?xs ! (unat ver mod 2 ^ length ?ss) = ?h" unfolding length_map by blast+
  have lt: "unat ver < length infos" using le c by (simp add: commits_to_def word_le_nat_alt)
  then have "0 < length infos" by linarith
  from root_level_bounds(1) [OF this] have "length infos \<le> 2 ^ length ?ss" using s(1) by simp
  then have "unat ver mod 2 ^ length ?ss = unat ver" using lt by simp
  with s(2) lt have "h_transaction_info K (infos ! unat ver) = ?h" by simp
  from inj_on_nth [OF inj lt this] lt show ?thesis by simp
qed

text \<open>A ledger with one transaction, for the examples.\<close>

definition example_info :: transaction_info where
  "example_info = \<lparr>ti_transaction_hash = 3, ti_state_root_hash = 7, ti_event_root_hash = 8, ti_gas_used = 0, ti_major_status = 0\<rparr>"

definition example_hashers :: "unit proof_hashers" where
  "example_hashers =
     \<lparr>h_txn_accumulator = (\<lambda>a b. 2 * a + 3 * b), h_event_accumulator = (\<lambda>a b. 2 * a + 3 * b),
      h_state_node = (\<lambda>a b. 2 * a + 3 * b), h_state_leaf = (\<lambda>k v. v), h_transaction = (\<lambda>_. 3),
      h_transaction_info = (\<lambda>_. 5), h_event = (\<lambda>_. 8), h_blob = (\<lambda>_. 7), h_address = (\<lambda>_. 0)\<rparr>"

definition example_ledger :: ledger_info where
  "example_ledger = \<lparr>commit_info = block_info_empty\<lparr>bi_executed_state_id := 5\<rparr>, consensus_data_hash = 0\<rparr>"

definition example_info_proof :: transaction_info_with_proof where
  "example_info_proof = \<lparr>ledger_info_to_transaction_info_proof = \<lparr>ap_siblings = []\<rparr>, tip_transaction_info = example_info\<rparr>"

definition example_event :: contract_event where
  "example_event = \<lparr>ev_key = [1], ev_sequence_number = 2, ev_type_tag = TagBool, ev_event_data = []\<rparr>"

lemma root_level_1: "root_level (Suc 0) = 0"
  by (rule root_level_unique) simp_all

lemma single_leaf_pairs: "tree_pairs H [x] = {}" "proof_pairs H [] h i = {}" "tree_root H [x] = x"
  by (simp_all add: tree_pairs_def proof_pairs_def tree_root_def root_level_1 thash.simps)

lemma example_commits: "commits_to example_hashers example_ledger [example_info]"
  by (simp add: commits_to_def example_ledger_def example_hashers_def block_info_empty_def single_leaf_pairs)

lemma example_placeholder: "ACCUMULATOR_PLACEHOLDER_HASH \<noteq> 5" "ACCUMULATOR_PLACEHOLDER_HASH \<noteq> 8" "SPARSE_MERKLE_PLACEHOLDER_HASH \<noteq> 7"
  by (simp_all add: ACCUMULATOR_PLACEHOLDER_HASH_value SPARSE_MERKLE_PLACEHOLDER_HASH_value)

lemma example_info_collision_free: "info_collision_free example_hashers [example_info] example_info_proof 0"
  using example_placeholder
  by (auto simp: info_collision_free_def Let_def example_info_proof_def single_leaf_pairs collision_free_def example_hashers_def)

lemma example_info_verify: "transaction_info_with_proof_verify example_hashers example_info_proof example_ledger 0 = Inr ()"
  by (simp add: transaction_info_with_proof_verify_def verify_transaction_info_def example_info_proof_def accumulator_proof_verify_def
      example_ledger_def block_info_empty_def example_hashers_def MAX_ACCUMULATOR_PROOF_DEPTH_def)

section \<open>Properties\<close>

text \<open>
  C23: An accepted account state is the state of the account. If the ledger info commits to the
  transaction infos \<open>infos\<close> and the state root of the one at the queried version is that of the
  sparse Merkle tree over \<open>es\<close>, then an accepted \<open>AccountStateWithProof\<close> carries the blob whose hash
  the tree has for the address, or no blob if the tree does not have the address. The hashes at
  hand are assumed not to collide.
\<close>

theorem account_state_verified:
  "account_state_with_proof_verify K asw li ver address = Inr () \<Longrightarrow>
   commits_to K li infos \<Longrightarrow>
   ti_state_root_hash (infos ! unat ver) = smt_root (h_state_node K) (h_state_leaf K) es \<Longrightarrow>
   distinct (map fst es) \<Longrightarrow>
   info_collision_free K infos (asp_transaction_info_with_proof (asw_proof asw)) ver \<Longrightarrow>
   smt_collision_free (h_state_node K) (h_state_leaf K)
     (smt_pairs (h_state_node K) (h_state_leaf K) LENGTH_IN_BITS es \<union>
      smp_pairs (h_state_node K) (h_state_leaf K) (transaction_info_to_account_proof (asw_proof asw)) (h_address K address))
     (set es \<union> smp_leaf_set (transaction_info_to_account_proof (asw_proof asw))) \<Longrightarrow>
   unat ver < length infos \<and> map_of es (h_address K address) = map_option (h_blob K) (asw_blob asw)"
proof -
  assume v: "account_state_with_proof_verify K asw li ver address = Inr ()"
    and c: "commits_to K li infos" and es: "ti_state_root_hash (infos ! unat ver) = smt_root (h_state_node K) (h_state_leaf K) es"
    and d: "distinct (map fst es)"
    and cf: "info_collision_free K infos (asp_transaction_info_with_proof (asw_proof asw)) ver"
    and scf: "smt_collision_free (h_state_node K) (h_state_leaf K)
     (smt_pairs (h_state_node K) (h_state_leaf K) LENGTH_IN_BITS es \<union>
      smp_pairs (h_state_node K) (h_state_leaf K) (transaction_info_to_account_proof (asw_proof asw)) (h_address K address))
     (set es \<union> smp_leaf_set (transaction_info_to_account_proof (asw_proof asw)))"
  let ?pf = "asp_transaction_info_with_proof (asw_proof asw)"
  from v have t: "transaction_info_with_proof_verify K ?pf li ver = Inr ()"
    and s: "sparse_merkle_proof_verify (h_state_node K) (h_state_leaf K) (h_blob K) (transaction_info_to_account_proof (asw_proof asw))
      (ti_state_root_hash (tip_transaction_info ?pf)) (h_address K address) (asw_blob asw) = Inr ()"
    by (auto simp: account_state_with_proof_verify_def account_state_proof_verify_def result_simps)
  from transaction_info_sound [OF t c cf] have i: "unat ver < length infos" "tip_transaction_info ?pf = infos ! unat ver" by blast+
  with s es smp_verified [OF _ d scf] show ?thesis by simp
qed

theorem account_state_verified_witness:
  "map_of [(0 :: hash_value, 7)] 0 = Some (7 :: hash_value) \<and>
   account_state_with_proof_verify example_hashers
     \<lparr>asw_version = 0, asw_blob = Some [], asw_proof =
        \<lparr>asp_transaction_info_with_proof = example_info_proof, transaction_info_to_account_proof =
           \<lparr>smp_leaf = Some \<lparr>smln_key = 0, smln_value_hash = 7\<rparr>, smp_siblings = []\<rparr>\<rparr>\<rparr>
     example_ledger 0 9 = Inr ()"
proof -
  let ?sp = "\<lparr>smp_leaf = Some \<lparr>smln_key = 0, smln_value_hash = 7\<rparr>, smp_siblings = []\<rparr>"
  let ?asw = "\<lparr>asw_version = 0, asw_blob = Some [], asw_proof =
     \<lparr>asp_transaction_info_with_proof = example_info_proof, transaction_info_to_account_proof = ?sp\<rparr>\<rparr>"
  have sr: "smt_root H (\<lambda>k v. v) [(0, 7)] = 7" for H by (simp add: smt_root_def)
  have "smt_pairs H Lf n [x] = {}" for H Lf n x by (subst smt_pairs.simps) simp
  then have scf: "smt_collision_free (h_state_node example_hashers) (h_state_leaf example_hashers)
     (smt_pairs (h_state_node example_hashers) (h_state_leaf example_hashers) LENGTH_IN_BITS [(0, 7)] \<union>
      smp_pairs (h_state_node example_hashers) (h_state_leaf example_hashers) ?sp (h_address example_hashers 9))
     (set [(0, 7)] \<union> smp_leaf_set ?sp)"
    using example_placeholder by (auto simp: smt_collision_free_def smp_pairs_def smp_leaf_set_def example_hashers_def)
  have v: "account_state_with_proof_verify example_hashers ?asw example_ledger 0 9 = Inr ()"
    using example_info_verify
    by (simp add: account_state_with_proof_verify_def account_state_proof_verify_def sparse_merkle_proof_verify_def smp_root_def)
      (simp add: example_hashers_def example_info_proof_def example_info_def)
  have st: "ti_state_root_hash ([example_info] ! unat (0 :: version)) = smt_root (h_state_node example_hashers) (h_state_leaf example_hashers) [(0, 7)]"
    using sr by (simp add: example_info_def example_hashers_def)
  show ?thesis
    using account_state_verified [OF v example_commits st, simplified, OF example_info_collision_free scf [simplified]] v by simp
qed

text \<open>
  C38: An accepted event was emitted. If the ledger info commits to \<open>infos\<close> and the event root of the
  one at the queried version is that of the accumulator over \<open>events\<close>, an accepted \<open>EventWithProof\<close>
  carries one of these events, with the key and sequence number asked for; its position is the
  event index modulo the width of the event accumulator.
\<close>

theorem event_verified:
  "event_with_proof_verify K ewp li key seq ver idx = Inr () \<Longrightarrow>
   commits_to K li infos \<Longrightarrow>
   ti_event_root_hash (infos ! unat ver) = tree_root (h_event_accumulator K) (map (h_event K) events) \<Longrightarrow>
   info_collision_free K infos (ep_transaction_info_with_proof (ewp_proof ewp)) ver \<Longrightarrow>
   collision_free (h_event_accumulator K)
     (tree_pairs (h_event_accumulator K) (map (h_event K) events) \<union>
      proof_pairs (h_event_accumulator K) (ap_siblings (transaction_info_to_event_proof (ewp_proof ewp))) (h_event K (ewp_event ewp)) idx)
     (insert ACCUMULATOR_PLACEHOLDER_HASH (insert (h_event K (ewp_event ewp)) (h_event K ` set events))) \<Longrightarrow>
   h_event K (ewp_event ewp) \<noteq> ACCUMULATOR_PLACEHOLDER_HASH \<Longrightarrow>
   inj_on (h_event K) (insert (ewp_event ewp) (set events)) \<Longrightarrow>
   unat ver < length infos \<and> ev_key (ewp_event ewp) = key \<and> ev_sequence_number (ewp_event ewp) = seq \<and>
   (let i = unat idx mod 2 ^ root_level (length events) in i < length events \<and> events ! i = ewp_event ewp)"
proof -
  let ?H = "h_event_accumulator K" and ?e = "ewp_event ewp" and ?pf = "ep_transaction_info_with_proof (ewp_proof ewp)"
  let ?ss = "ap_siblings (transaction_info_to_event_proof (ewp_proof ewp))"
  assume v: "event_with_proof_verify K ewp li key seq ver idx = Inr ()" and c: "commits_to K li infos"
    and root: "ti_event_root_hash (infos ! unat ver) = tree_root ?H (map (h_event K) events)"
    and cf: "info_collision_free K infos ?pf ver"
    and ecf: "collision_free ?H (tree_pairs ?H (map (h_event K) events) \<union> proof_pairs ?H ?ss (h_event K ?e) idx)
       (insert ACCUMULATOR_PLACEHOLDER_HASH (insert (h_event K ?e) (h_event K ` set events)))"
    and ph: "h_event K ?e \<noteq> ACCUMULATOR_PLACEHOLDER_HASH" and inj: "inj_on (h_event K) (insert ?e (set events))"
  from v have t: "transaction_info_with_proof_verify K ?pf li ver = Inr ()" and ks: "ev_key ?e = key" "ev_sequence_number ?e = seq"
    and a: "accumulator_proof_verify ?H (transaction_info_to_event_proof (ewp_proof ewp)) (ti_event_root_hash (tip_transaction_info ?pf)) (h_event K ?e) idx = Inr ()"
    by (auto simp: event_with_proof_verify_def event_proof_verify_def result_simps)
  from transaction_info_sound [OF t c cf] have i: "unat ver < length infos" "tip_transaction_info ?pf = infos ! unat ver" by blast+
  have r: "proof_hash ?H ?ss (h_event K ?e) idx (length ?ss) = tree_root ?H (map (h_event K) events)"
    using a i(2) root by (simp add: verify_iff)
  from proof_sound [OF _ ph r] ecf have s: "length ?ss = root_level (length events)" "unat idx mod 2 ^ length ?ss < length events"
    "map (h_event K) events ! (unat idx mod 2 ^ length ?ss) = h_event K ?e" unfolding length_map set_map by blast+
  then have "h_event K (events ! (unat idx mod 2 ^ length ?ss)) = h_event K ?e" by simp
  then have "events ! (unat idx mod 2 ^ length ?ss) = ?e" using inj_on_nth [OF inj s(2)] by blast
  with s i ks show ?thesis by (simp add: Let_def)
qed

theorem event_verified_witness:
  "event_with_proof_verify example_hashers
     \<lparr>ewp_transaction_version = 0, ewp_event_index = 0, ewp_event = example_event, ewp_proof =
        \<lparr>ep_transaction_info_with_proof = example_info_proof, transaction_info_to_event_proof = \<lparr>ap_siblings = []\<rparr>\<rparr>\<rparr>
     example_ledger [1] 2 0 0 = Inr () \<and> ev_key example_event = [1]"
proof -
  let ?ewp = "\<lparr>ewp_transaction_version = 0, ewp_event_index = 0, ewp_event = example_event, ewp_proof =
        \<lparr>ep_transaction_info_with_proof = example_info_proof, transaction_info_to_event_proof = \<lparr>ap_siblings = []\<rparr>\<rparr>\<rparr>"
  have v: "event_with_proof_verify example_hashers ?ewp example_ledger [1] 2 0 0 = Inr ()"
    using example_info_verify
    by (simp add: event_with_proof_verify_def event_proof_verify_def accumulator_proof_verify_def example_event_def MAX_ACCUMULATOR_PROOF_DEPTH_def)
      (simp add: example_hashers_def example_info_proof_def example_info_def)
  have root: "ti_event_root_hash ([example_info] ! unat (0 :: version)) =
      tree_root (h_event_accumulator example_hashers) (map (h_event example_hashers) [example_event])"
    by (simp add: example_info_def single_leaf_pairs) (simp add: example_hashers_def)
  have "event_with_proof_verify example_hashers ?ewp example_ledger [1] 2 0 0 = Inr () \<and> ev_key (ewp_event ?ewp) = [1]"
    using event_verified [OF v example_commits root] example_info_collision_free example_placeholder v
    by (simp add: single_leaf_pairs collision_free_def) (simp add: example_hashers_def)
  then show ?thesis by simp
qed

text \<open>
  C25: Accepted transactions are in the ledger. If the ledger info commits to \<open>infos\<close>, the
  transactions of an accepted \<open>TransactionListWithProof\<close> have, in order, the hashes in the
  consecutive infos from the first version on, and with events the event roots of these infos.
  The first version is bound modulo the width of the accumulator.
\<close>

theorem transaction_list_verified:
  "transaction_list_with_proof_verify K txns li (Some first) = Inr () \<Longrightarrow>
   commits_to K li infos \<Longrightarrow> length infos \<le> 2 ^ 63 \<Longrightarrow>
   (let proof_infos = tlp_transaction_infos (tlw_proof txns);
        hs = map (h_transaction_info K) proof_infos;
        rp = ledger_info_to_transaction_infos_proof (tlw_proof txns)
    in collision_free (h_txn_accumulator K)
         (tree_pairs (h_txn_accumulator K) (map (h_transaction_info K) infos) \<union>
          range_pairs (h_txn_accumulator K) (from_leaf_index first) hs (left_siblings rp) (right_siblings rp))
         (insert ACCUMULATOR_PLACEHOLDER_HASH (set hs \<union> h_transaction_info K ` set infos)) \<and>
       ACCUMULATOR_PLACEHOLDER_HASH \<notin> set hs \<and> inj_on (h_transaction_info K) (set proof_infos \<union> set infos)) \<Longrightarrow>
   (let i = unat first mod 2 ^ root_level (length infos); n = length (tlw_transactions txns)
    in i + n \<le> length infos \<and>
       map (h_transaction K) (tlw_transactions txns) = map ti_transaction_hash (take n (drop i infos)) \<and>
       (\<forall>event_lists. tlw_events txns = Some event_lists \<longrightarrow> (\<forall>es \<in> set event_lists. length es < 2 ^ 64) \<longrightarrow>
          map (\<lambda>es. tree_root (h_event_accumulator K) (map (h_event K) es)) event_lists
            = map ti_event_root_hash (take n (drop i infos))))"
proof -
  let ?H = "h_txn_accumulator K" and ?infos = "tlp_transaction_infos (tlw_proof txns)"
  let ?hs = "map (h_transaction_info K) ?infos" and ?xs = "map (h_transaction_info K) infos"
  let ?rp = "ledger_info_to_transaction_infos_proof (tlw_proof txns)"
  let ?i = "unat first mod 2 ^ root_level (length infos)" and ?n = "length (tlw_transactions txns)"
  assume v: "transaction_list_with_proof_verify K txns li (Some first) = Inr ()"
    and c: "commits_to K li infos" and len: "length infos \<le> 2 ^ 63"
    and cf: "let proof_infos = ?infos; hs = map (h_transaction_info K) proof_infos; rp = ?rp
    in collision_free ?H (tree_pairs ?H ?xs \<union> range_pairs ?H (from_leaf_index first) hs (left_siblings rp) (right_siblings rp))
         (insert ACCUMULATOR_PLACEHOLDER_HASH (set hs \<union> h_transaction_info K ` set infos)) \<and>
       ACCUMULATOR_PLACEHOLDER_HASH \<notin> set hs \<and> inj_on (h_transaction_info K) (set proof_infos \<union> set infos)"
  from v have n: "length ?infos = ?n"
    and hash: "\<forall>(h, i) \<in> set (zip (map (h_transaction K) (tlw_transactions txns)) ?infos). h = ti_transaction_hash i"
    and r: "accumulator_range_proof_verify ?H ?rp (tree_root ?H ?xs) (Some first) ?hs = Inr ()"
    and ev: "\<And>els. tlw_events txns = Some els \<Longrightarrow> length els = ?n \<and>
      (\<forall>(es, i) \<in> set (zip els ?infos). check_event_root K es (ti_event_root_hash i)
         ''Some event root hash calculated doesn't match that carried on the transaction info.'' = Inr ())"
    using c by (auto simp: transaction_list_with_proof_verify_def transaction_list_proof_verify_def result_simps commits_to_def Let_def)
  have "?i + length ?hs \<le> length ?xs \<and> take (length ?hs) (drop ?i ?xs) = ?hs"
    using range_sound [of ?H ?rp "tree_root ?H ?xs" first ?hs "[]" ?xs] r len cf by (simp add: Let_def)
  then have le: "?i + ?n \<le> length infos" and eq: "map (h_transaction_info K) (take ?n (drop ?i infos)) = ?hs"
    using n by (simp_all add: take_map drop_map)
  have inj: "inj_on (h_transaction_info K) (set (take ?n (drop ?i infos)) \<union> set ?infos)"
  proof (rule inj_on_subset)
    show "inj_on (h_transaction_info K) (set ?infos \<union> set infos)" using cf by (simp add: Let_def)
    show "set (take ?n (drop ?i infos)) \<union> set ?infos \<subseteq> set ?infos \<union> set infos" by (auto dest!: in_set_takeD in_set_dropD)
  qed
  then have infos: "?infos = take ?n (drop ?i infos)" using map_inj_on [OF eq] by simp
  have "map (h_transaction K) (tlw_transactions txns) = map ti_transaction_hash ?infos"
    using hash n by (intro zip_all_eq) simp_all
  moreover have "map (\<lambda>es. tree_root (h_event_accumulator K) (map (h_event K) es)) els = map ti_event_root_hash ?infos"
    if els: "tlw_events txns = Some els" "\<forall>es \<in> set els. length es < 2 ^ 64" for els
  proof (intro nth_equalityI)
    from ev [OF els(1)] n have l: "length els = length ?infos" by simp
    then show "length (map (\<lambda>es. tree_root (h_event_accumulator K) (map (h_event K) es)) els) = length (map ti_event_root_hash ?infos)" by simp
    fix k assume "k < length (map (\<lambda>es. tree_root (h_event_accumulator K) (map (h_event K) es)) els)"
    then have k: "k < length els" by simp
    then have "(els ! k, ?infos ! k) \<in> set (zip els ?infos)" using l by (auto simp: set_zip)
    with ev [OF els(1)] have "check_event_root K (els ! k) (ti_event_root_hash (?infos ! k))
         ''Some event root hash calculated doesn't match that carried on the transaction info.'' = Inr ()" by blast
    moreover have "length (map (h_event K) (els ! k)) < 2 ^ 64" using els(2) k by simp
    note from_leaves_tree [OF this, of "h_event_accumulator K", where 'e = string]
    ultimately have "tree_root (h_event_accumulator K) (map (h_event K) (els ! k)) = ti_event_root_hash (?infos ! k)"
      by (simp add: check_event_root_def result_simps acc_of_def)
    then show "map (\<lambda>es. tree_root (h_event_accumulator K) (map (h_event K) es)) els ! k = map ti_event_root_hash ?infos ! k"
      using k l by simp
  qed
  ultimately show ?thesis unfolding Let_def infos [symmetric] using le by blast
qed

theorem transaction_list_verified_witness:
  "transaction_list_with_proof_verify example_hashers
     \<lparr>tlw_transactions = [WaypointWriteSet ()], tlw_events = None, tlw_first_transaction_version = Some 0,
      tlw_proof = \<lparr>ledger_info_to_transaction_infos_proof = range_proof_new_empty, tlp_transaction_infos = [example_info]\<rparr>\<rparr>
     example_ledger (Some 0) = Inr () \<and>
   map (h_transaction example_hashers) [WaypointWriteSet ()] = map ti_transaction_hash [example_info]"
proof -
  let ?t = "\<lparr>tlw_transactions = [WaypointWriteSet ()], tlw_events = None, tlw_first_transaction_version = Some 0,
      tlw_proof = \<lparr>ledger_info_to_transaction_infos_proof = range_proof_new_empty, tlp_transaction_infos = [example_info]\<rparr>\<rparr>"
  have l: "range_loop H pos [h] [] [] = Inr [h]" for H pos h by (subst range_loop.simps) simp
  have p: "range_pairs H pos [h] [] [] = {}" for H pos h by (subst range_pairs.simps) simp
  have "accumulator_range_proof_verify (h_txn_accumulator example_hashers) range_proof_new_empty (transaction_accumulator_hash example_ledger)
      (Some 0) [h_transaction_info example_hashers example_info] = Inr ()"
    unfolding verify_range_iff by (simp add: range_proof_new_empty_def l) (simp add: example_ledger_def example_hashers_def)
  then have v: "transaction_list_with_proof_verify example_hashers ?t example_ledger (Some 0) = Inr ()"
    by (simp add: transaction_list_with_proof_verify_def transaction_list_proof_verify_def)
      (simp add: example_hashers_def example_info_def)
  show ?thesis
    using transaction_list_verified [OF v example_commits] example_placeholder v
    by (simp add: Let_def range_proof_new_empty_def p single_leaf_pairs collision_free_def root_level_1)
      (simp add: example_hashers_def)
qed

text \<open>
  C37: A list of transactions does not bind its first version. In a ledger with the single
  transaction \<open>txn\<close>, the list with that transaction and a proof without siblings is accepted for
  every first version, although the ledger info is at version 0.
\<close>

theorem transaction_list_unbound_version:
  "ti_transaction_hash info = h_transaction K txn \<Longrightarrow> commits_to K li [info] \<Longrightarrow>
   li_version li = 0 \<and>
   transaction_list_with_proof_verify K
     \<lparr>tlw_transactions = [txn], tlw_events = None, tlw_first_transaction_version = Some first,
      tlw_proof = \<lparr>ledger_info_to_transaction_infos_proof = range_proof_new_empty, tlp_transaction_infos = [info]\<rparr>\<rparr>
     li (Some first) = Inr ()"
proof -
  assume t: "ti_transaction_hash info = h_transaction K txn" and c: "commits_to K li [info]"
  have "root_level (length [info]) = 0" by (rule root_level_unique) simp_all
  with c have root: "transaction_accumulator_hash li = h_transaction_info K info"
    by (simp add: commits_to_def tree_root_def thash.simps)
  have "accumulator_range_proof_verify (h_txn_accumulator K) range_proof_new_empty (transaction_accumulator_hash li) (Some first) [h_transaction_info K info] = Inr ()"
    unfolding verify_range_iff by (subst range_loop.simps) (simp add: range_proof_new_empty_def root)
  moreover have "li_version li = 0" using c by (simp add: commits_to_def unat_eq_zero)
  ultimately show ?thesis using t
    by (simp add: transaction_list_with_proof_verify_def transaction_list_proof_verify_def)
qed

theorem transaction_list_unbound_version_witness:
  "transaction_list_with_proof_verify example_hashers
     \<lparr>tlw_transactions = [WaypointWriteSet ()], tlw_events = None, tlw_first_transaction_version = Some 1000,
      tlw_proof = \<lparr>ledger_info_to_transaction_infos_proof = range_proof_new_empty, tlp_transaction_infos = [example_info]\<rparr>\<rparr>
     example_ledger (Some 1000) = Inr ()"
proof -
  have "ti_transaction_hash example_info = h_transaction example_hashers (WaypointWriteSet ())"
    by (simp add: example_info_def example_hashers_def)
  from transaction_list_unbound_version [OF this example_commits] show ?thesis by simp
qed

end
