(* ===== verification/Schema_Codec.thy ===== *)
theory Schema_Codec
  imports Transaction_Proof "HOL-Library.List_Lexorder" "HOL-Library.Product_Lexorder"
begin

text \<open>
  The keys of the column families (\<open>storage/libradb/src/schema\<close>). RocksDB orders a column by the
  bytes of its keys; the codecs keep the order of the keys, so a column is modelled as a map sorted
  by the keys themselves.
\<close>

section \<open>Codecs\<close>

definition ensure_slice_len_eq :: "u8 list \<Rightarrow> nat \<Rightarrow> unit anyhow" where
  "ensure_slice_len_eq data len = ensure (length data = len) ''Unexpected data len.''"

text \<open>The big-endian bytes of a word, and reading them back.\<close>

definition be_bytes :: "nat \<Rightarrow> 'a::len word \<Rightarrow> u8 list" where
  "be_bytes n w = map (\<lambda>i. ucast (drop_bit (8 * (n - 1 - i)) w)) [0..<n]"

definition read_be :: "u8 list \<Rightarrow> 'a::len word" where
  "read_be data = foldl (\<lambda>acc b. acc * 256 + ucast b) 0 data"

definition to_be_bytes :: "u64 \<Rightarrow> u8 list" where
  "to_be_bytes v = be_bytes 8 v"

text \<open>\<open>ReadBytesExt::read_u64::<BigEndian>\<close> reads 8 bytes from the front.\<close>

definition read_u64 :: "u8 list \<Rightarrow> u64 anyhow" where
  "read_u64 data =
     rbind (ensure (8 \<le> length data) ''failed to fill whole buffer'') (\<lambda>_. Inr (read_be (take 8 data)))"

definition ACCOUNT_ADDRESS_LENGTH :: nat where "ACCOUNT_ADDRESS_LENGTH = 16"
definition EVENT_KEY_LENGTH :: nat where "EVENT_KEY_LENGTH = ACCOUNT_ADDRESS_LENGTH + 8"

definition address_to_vec :: "account_address \<Rightarrow> u8 list" where
  "address_to_vec a = be_bytes ACCOUNT_ADDRESS_LENGTH a"

definition address_try_from :: "u8 list \<Rightarrow> account_address anyhow" where
  "address_try_from bytes =
     rbind (ensure (length bytes = ACCOUNT_ADDRESS_LENGTH) ''The Address is of invalid length'') (\<lambda>_. Inr (read_be bytes))"

definition event_key_try_from :: "u8 list \<Rightarrow> event_key anyhow" where
  "event_key_try_from bytes =
     rbind (ensure (length bytes = EVENT_KEY_LENGTH) ''The event key is of invalid length'') (\<lambda>_. Inr bytes)"

text \<open>The keys that are one \<open>u64\<close>: versions and epochs.\<close>

definition version_decode_key :: "u8 list \<Rightarrow> version anyhow" where
  "version_decode_key data = rbind (ensure_slice_len_eq data 8) (\<lambda>_. read_u64 data)"

definition transaction_accumulator_encode_key :: "position \<Rightarrow> u8 list" where
  "transaction_accumulator_encode_key self = to_be_bytes (to_postorder_index self)"

definition transaction_accumulator_decode_key :: "u8 list \<Rightarrow> position anyhow" where
  "transaction_accumulator_decode_key data =
     rbind (ensure_slice_len_eq data 8) (\<lambda>_. rbind (read_u64 data) (\<lambda>v. Inr (from_postorder_index v)))"

definition event_encode_key :: "version \<times> u64 \<Rightarrow> u8 list" where
  "event_encode_key = (\<lambda>(version, index). to_be_bytes version @ to_be_bytes index)"

definition event_decode_key :: "u8 list \<Rightarrow> (version \<times> u64) anyhow" where
  "event_decode_key data =
     rbind (ensure_slice_len_eq data 16) (\<lambda>_.
     rbind (read_u64 (take 8 data)) (\<lambda>version.
     rbind (read_u64 (drop 8 data)) (\<lambda>index.
     Inr (version, index))))"

definition event_encode_seek_key :: "version \<Rightarrow> u8 list" where
  "event_encode_seek_key self = to_be_bytes self"

definition event_by_key_encode_key :: "event_key \<times> u64 \<Rightarrow> u8 list" where
  "event_by_key_encode_key = (\<lambda>(event_key, seq_num). event_key @ to_be_bytes seq_num)"

definition event_by_key_decode_key :: "u8 list \<Rightarrow> (event_key \<times> u64) anyhow" where
  "event_by_key_decode_key data =
     rbind (ensure_slice_len_eq data (EVENT_KEY_LENGTH + 8)) (\<lambda>_.
     rbind (event_key_try_from (take EVENT_KEY_LENGTH data)) (\<lambda>event_key.
     rbind (read_u64 (drop EVENT_KEY_LENGTH data)) (\<lambda>seq_num.
     Inr (event_key, seq_num))))"

definition event_by_key_encode_value :: "version \<times> u64 \<Rightarrow> u8 list" where
  "event_by_key_encode_value = (\<lambda>(version, index). to_be_bytes version @ to_be_bytes index)"

definition event_by_key_decode_value :: "u8 list \<Rightarrow> (version \<times> u64) anyhow" where
  "event_by_key_decode_value data =
     rbind (ensure_slice_len_eq data 16) (\<lambda>_.
     rbind (read_u64 (take 8 data)) (\<lambda>version.
     rbind (read_u64 (drop 8 data)) (\<lambda>index.
     Inr (version, index))))"

definition event_accumulator_encode_key :: "version \<times> position \<Rightarrow> u8 list" where
  "event_accumulator_encode_key = (\<lambda>(version, position). to_be_bytes version @ to_be_bytes (to_inorder_index position))"

definition event_accumulator_decode_key :: "u8 list \<Rightarrow> (version \<times> position) anyhow" where
  "event_accumulator_decode_key data =
     rbind (ensure_slice_len_eq data 16) (\<lambda>_.
     rbind (read_u64 (take 8 data)) (\<lambda>version.
     rbind (read_u64 (drop 8 data)) (\<lambda>position.
     Inr (version, from_inorder_index position))))"

definition transaction_by_account_encode_key :: "account_address \<times> u64 \<Rightarrow> u8 list" where
  "transaction_by_account_encode_key = (\<lambda>(account_address, seq_num). address_to_vec account_address @ to_be_bytes seq_num)"

definition transaction_by_account_decode_key :: "u8 list \<Rightarrow> (account_address \<times> u64) anyhow" where
  "transaction_by_account_decode_key data =
     rbind (ensure_slice_len_eq data (ACCOUNT_ADDRESS_LENGTH + 8)) (\<lambda>_.
     rbind (address_try_from (take ACCOUNT_ADDRESS_LENGTH data)) (\<lambda>address.
     rbind (read_u64 (drop ACCOUNT_ADDRESS_LENGTH data)) (\<lambda>seq_num.
     Inr (address, seq_num))))"

section \<open>Big-endian numbers\<close>

definition be_val :: "u8 list \<Rightarrow> nat" where
  "be_val bs = foldl (\<lambda>acc b. acc * 256 + unat b) 0 bs"

lemma be_val_snoc: "be_val (bs @ [b]) = be_val bs * 256 + unat b"
  by (simp add: be_val_def)

lemma be_val_Nil [simp]: "be_val [] = 0"
  by (simp add: be_val_def)

lemma unat_word_inverse: "of_nat (unat w) = (w :: 'a::len word)"
  by simp

lemma foldl_be_val: "foldl (\<lambda>acc b. acc * 256 + unat (b :: u8)) a bs = a * 256 ^ length bs + be_val bs"
proof (induction bs rule: rev_induct)
  case (snoc b bs)
  then show ?case by (simp add: be_val_snoc algebra_simps)
qed simp

lemma be_val_Cons: "be_val (b # bs) = unat b * 256 ^ length bs + be_val bs"
  using foldl_be_val [of "unat b" bs] by (simp add: be_val_def)

lemma u8_less: "unat (b :: u8) < 256"
  using unsigned_less [of b] by simp

lemma be_val_less: "be_val bs < 256 ^ length bs"
proof (induction bs rule: rev_induct)
  case (snoc b bs)
  have "be_val bs * 256 + unat b < (be_val bs + 1) * 256" using u8_less [of b] by simp
  also have "\<dots> \<le> 256 ^ length bs * 256" using snoc by (intro mult_le_mono1) simp
  finally show ?case by (simp add: be_val_snoc)
qed simp

lemma digits_less:
  assumes "x < (m :: nat)" "y < m"
  shows "a * m + x < b * m + y \<longleftrightarrow> a < b \<or> a = b \<and> x < y"
proof -
  have "a * m + x < b * m + y" if "a < b"
  proof -
    have "(a + 1) * m \<le> b * m" using that by (intro mult_le_mono1) simp
    with assms show ?thesis by simp
  qed
  moreover have "b * m + y < a * m + x" if "b < a"
  proof -
    have "(b + 1) * m \<le> a * m" using that by (intro mult_le_mono1) simp
    with assms show ?thesis by simp
  qed
  ultimately show ?thesis by (cases a b rule: linorder_cases) auto
qed

lemma Cons_less_iff: "(x # xs) < (y # ys :: 'a::order list) \<longleftrightarrow> x < y \<or> x = y \<and> xs < ys"
  by (simp add: list_less_def)

lemma be_less_iff: "length xs = length ys \<Longrightarrow> xs < ys \<longleftrightarrow> be_val xs < be_val ys"
proof (induction xs ys rule: list_induct2)
  case (Cons x xs y ys)
  have "be_val xs < 256 ^ length ys" "be_val ys < 256 ^ length ys" using be_val_less [of xs] be_val_less [of ys] Cons by simp_all
  from digits_less [OF this, of "unat x" "unat y"] Cons show ?case
    by (simp add: Cons_less_iff be_val_Cons word_less_nat_alt word_unat_eq_iff)
qed (simp add: list_less_def)

lemma be_val_inject: "length xs = length ys \<Longrightarrow> be_val xs = be_val ys \<Longrightarrow> xs = ys"
  using be_less_iff [of xs ys] be_less_iff [of ys xs] by fastforce

lemma append_less_iff:
  "length xs = length ys \<Longrightarrow> xs @ us < ys @ vs \<longleftrightarrow> xs < ys \<or> xs = ys \<and> us < (vs :: 'a::order list)"
  by (induction xs ys rule: list_induct2) (auto simp: Cons_less_iff list_less_def)

lemma length_be_bytes [simp]: "length (be_bytes n w) = n"
  by (simp add: be_bytes_def)

lemma be_bytes_Suc: "be_bytes (Suc n) w = be_bytes n (drop_bit 8 w) @ [ucast w]"
proof -
  have "8 * (n - i) = 8 * (n - 1 - i) + 8" if "i < n" for i using that by (cases n) (auto simp: Suc_diff_le)
  then show ?thesis by (simp add: be_bytes_def)
qed

lemma be_val_be_bytes: "be_val (be_bytes n w) = unat w mod 256 ^ n"
proof (induction n arbitrary: w)
  case (Suc n)
  have d: "unat (drop_bit 8 w) = unat w div 256" using unat_drop_bit_eq [of 8 w] by (simp only: drop_bit_eq_div) simp
  have u: "unat (ucast w :: u8) = unat w mod 256" by (simp add: unsigned_ucast_eq take_bit_eq_mod)
  have "unat w mod 256 ^ Suc n = unat w mod 256 + 256 * (unat w div 256 mod 256 ^ n)"
    by (simp add: mod_mult2_eq add.commute)
  with Suc show ?case by (simp add: be_bytes_Suc be_val_snoc d u)
qed (simp add: be_bytes_def)

lemma read_be_val: "read_be bs = of_nat (be_val bs)"
proof (induction bs rule: rev_induct)
  case (snoc b bs)
  have "read_be (bs @ [b]) = read_be bs * 256 + (ucast b :: 'a word)" by (simp add: read_be_def)
  with snoc show ?case by (simp add: be_val_snoc)
qed (simp add: read_be_def)

lemma be_val_to_be_bytes: "be_val (to_be_bytes v) = unat v" and length_to_be_bytes [simp]: "length (to_be_bytes v) = 8"
  using unsigned_less [of v, where 'a = nat] by (simp_all add: to_be_bytes_def be_val_be_bytes)

lemma be_val_address: "be_val (address_to_vec a) = unat a" and length_address [simp]: "length (address_to_vec a) = 16"
  using unsigned_less [of a, where 'a = nat] by (simp_all add: address_to_vec_def be_val_be_bytes ACCOUNT_ADDRESS_LENGTH_def)

lemma read_be_to_be_bytes [simp]: "read_be (to_be_bytes v) = v"
  by (simp add: read_be_val be_val_to_be_bytes)

lemma read_be_address [simp]: "read_be (address_to_vec a) = a"
  by (simp add: read_be_val be_val_address)

lemma read_u64_to_be_bytes [simp]: "read_u64 (to_be_bytes v) = Inr v"
  by (simp add: read_u64_def)

lemma to_be_bytes_less: "to_be_bytes v < to_be_bytes w \<longleftrightarrow> v < w"
  by (simp add: be_less_iff be_val_to_be_bytes word_less_nat_alt)

lemma to_be_bytes_inject: "to_be_bytes v = to_be_bytes w \<longleftrightarrow> v = w"
  by (metis read_be_to_be_bytes)

lemma address_less: "address_to_vec a < address_to_vec b \<longleftrightarrow> a < b"
  by (simp add: be_less_iff be_val_address word_less_nat_alt)

lemma address_inject: "address_to_vec a = address_to_vec b \<longleftrightarrow> a = b"
  by (metis read_be_address)

lemma to_be_bytes_read_be: "length bs = 8 \<Longrightarrow> to_be_bytes (read_be bs) = bs"
  by (rule be_val_inject) (use be_val_less [of bs] in \<open>simp_all add: be_val_to_be_bytes read_be_val unat_of_nat\<close>)

section \<open>Properties\<close>

text \<open>
  C27: The keys of the columns survive encoding: decoding the bytes of a key gives the key, for
  versions, the positions of the transaction accumulator, events, the event index and the
  transactions of an account. A byte string of another length is rejected.
\<close>

theorem key_codecs_roundtrip:
  "version_decode_key (to_be_bytes v) = Inr v \<and>
   (valid_node l p \<longrightarrow> transaction_accumulator_decode_key (transaction_accumulator_encode_key (Position (node_val l p))) = Inr (Position (node_val l p))) \<and>
   event_decode_key (event_encode_key (v, i)) = Inr (v, i) \<and>
   event_by_key_decode_value (event_by_key_encode_value (v, i)) = Inr (v, i) \<and>
   event_accumulator_decode_key (event_accumulator_encode_key (v, pos)) = Inr (v, pos) \<and>
   (length key = EVENT_KEY_LENGTH \<longrightarrow> event_by_key_decode_key (event_by_key_encode_key (key, i)) = Inr (key, i)) \<and>
   transaction_by_account_decode_key (transaction_by_account_encode_key (a, i)) = Inr (a, i) \<and>
   (length data \<noteq> 16 \<longrightarrow> event_decode_key data = Inl (Err ''Unexpected data len.''))"
proof -
  have "postorder_to_inorder (inorder_to_postorder (node_val l p)) = node_val l p" if "valid_node l p"
    using postorder_to_inorder_node [OF that] inorder_to_postorder_node [OF that] by (metis unat_word_inverse)
  then show ?thesis
    by (simp add: version_decode_key_def transaction_accumulator_decode_key_def transaction_accumulator_encode_key_def
        event_decode_key_def event_encode_key_def event_by_key_decode_value_def event_by_key_encode_value_def
        event_accumulator_decode_key_def event_accumulator_encode_key_def event_by_key_decode_key_def event_by_key_encode_key_def
        transaction_by_account_decode_key_def transaction_by_account_encode_key_def ensure_slice_len_eq_def
        event_key_try_from_def address_try_from_def EVENT_KEY_LENGTH_def ACCOUNT_ADDRESS_LENGTH_def
        from_postorder_index_def to_postorder_index_def from_inorder_index_def)
qed

theorem key_codecs_roundtrip_witness:
  "valid_node 0 2 \<and>
   transaction_accumulator_decode_key (transaction_accumulator_encode_key (Position (node_val 0 2))) = Inr (Position (node_val 0 2)) \<and>
   event_by_key_decode_key (event_by_key_encode_key (replicate 24 7, 3)) = Inr (replicate 24 7, 3) \<and>
   event_decode_key [] = Inl (Err ''Unexpected data len.'')"
proof -
  have v: "valid_node 0 2" by (simp add: valid_node_def)
  moreover have k: "length (replicate 24 (7 :: u8)) = EVENT_KEY_LENGTH" by (simp add: EVENT_KEY_LENGTH_def ACCOUNT_ADDRESS_LENGTH_def)
  ultimately show ?thesis
    using key_codecs_roundtrip [where l = 0 and p = 2 and key = "replicate 24 7" and i = 3 and data = "[]"] by (simp del: replicate_Suc)
qed

text \<open>
  C28: The bytes of the keys are ordered as the keys are, so that a column sorted by bytes is sorted
  by its keys, and the prefix of a version seeks to the first event of that version.
\<close>

theorem key_codecs_order:
  "(to_be_bytes v < to_be_bytes w \<longleftrightarrow> v < w) \<and>
   (event_encode_key (v, i) < event_encode_key (w, j) \<longleftrightarrow> (v, i) < (w, j)) \<and>
   (length key = EVENT_KEY_LENGTH \<longrightarrow> length key' = EVENT_KEY_LENGTH \<longrightarrow>
      (event_by_key_encode_key (key, i) < event_by_key_encode_key (key', j) \<longleftrightarrow> (key, i) < (key', j))) \<and>
   (transaction_by_account_encode_key (a, i) < transaction_by_account_encode_key (b, j) \<longleftrightarrow> (a, i) < (b, j)) \<and>
   (event_encode_seek_key v \<le> event_encode_key (w, j) \<longleftrightarrow> (v, 0) \<le> (w, j)) \<and>
   (event_encode_key (w, j) \<le> event_encode_seek_key v \<longleftrightarrow> (w, j) < (v, 0))"
proof -
  have e: "event_encode_key (v, i) < event_encode_key (w, j) \<longleftrightarrow> (v, i) < (w, j)" for v w :: version and i j :: u64
    by (auto simp: event_encode_key_def append_less_iff to_be_bytes_less to_be_bytes_inject)
  have k: "event_by_key_encode_key (key, i) < event_by_key_encode_key (key', j) \<longleftrightarrow> (key, i) < (key', j)"
    if "length key = EVENT_KEY_LENGTH" "length key' = EVENT_KEY_LENGTH"
    using that by (auto simp: event_by_key_encode_key_def append_less_iff to_be_bytes_less)
  have t: "transaction_by_account_encode_key (a, i) < transaction_by_account_encode_key (b, j) \<longleftrightarrow> (a, i) < (b, j)"
    by (auto simp: transaction_by_account_encode_key_def append_less_iff to_be_bytes_less address_less address_inject)
  have sk: "event_encode_key (w, j) < event_encode_seek_key v \<longleftrightarrow> w < v"
  proof -
    have "event_encode_key (w, j) < to_be_bytes v @ [] \<longleftrightarrow> to_be_bytes w < to_be_bytes v"
      unfolding event_encode_key_def prod.case by (subst append_less_iff) (simp_all add: list_less_def)
    then show ?thesis by (simp add: event_encode_seek_key_def to_be_bytes_less)
  qed
  have ne: "event_encode_key (w, j) \<noteq> event_encode_seek_key v"
  proof
    assume "event_encode_key (w, j) = event_encode_seek_key v"
    then have "length (event_encode_key (w, j)) = length (event_encode_seek_key v)" by simp
    then show False by (simp add: event_encode_key_def event_encode_seek_key_def)
  qed
  have zl: "(w, j) < (v, 0) \<longleftrightarrow> w < v" by (simp add: word_less_nat_alt)
  have "event_encode_seek_key v \<le> event_encode_key (w, j) \<longleftrightarrow> (v, 0) \<le> (w, j)"
    unfolding not_less [symmetric] sk zl ..
  moreover have "event_encode_key (w, j) \<le> event_encode_seek_key v \<longleftrightarrow> (w, j) < (v, 0)"
    unfolding zl using sk ne by (simp add: list_le_def)
  ultimately show ?thesis using e k t to_be_bytes_less by blast
qed

theorem key_codecs_order_witness:
  "event_by_key_encode_key (replicate 24 7, 255) < event_by_key_encode_key (replicate 24 7, 256) \<and>
   event_encode_key (255, 256) < event_encode_key (256, 0)"
proof -
  have "length (replicate 24 (7 :: u8)) = EVENT_KEY_LENGTH" by (simp add: EVENT_KEY_LENGTH_def ACCOUNT_ADDRESS_LENGTH_def)
  then show ?thesis
    using key_codecs_order [where key = "replicate 24 7" and key' = "replicate 24 7" and i = 255 and j = 256]
      key_codecs_order [where v = 255 and w = 256 and i = 256 and j = 0] by (simp del: replicate_Suc)
qed

end
