(* ===== verification/Schema_Db.thy ===== *)
theory Schema_Db
  imports Schema_Codec Accumulator_Store Epoch_Change
begin

text \<open>
  The database (\<open>storage/schemadb/src/lib.rs\<close>): column families, batches of writes and how a batch
  is written, and the counters kept with them (\<open>storage/libradb/src/ledger_counters\<close>,
  \<open>system_store\<close>). RocksDB itself is a map sorted by keys for each column, and reading or writing it
  does not fail.
\<close>

section \<open>Ledger counters\<close>

datatype ledger_counter = EventsCreated | NewStateLeaves | StaleStateLeaves | NewStateNodes | StaleStateNodes

type_synonym ledger_counters = "(16 word, u64) btree_map"

definition raw_key :: "ledger_counter \<Rightarrow> 16 word" where
  "raw_key counter =
     (case counter of EventsCreated \<Rightarrow> 101 | NewStateLeaves \<Rightarrow> 201 | StaleStateLeaves \<Rightarrow> 202
      | NewStateNodes \<Rightarrow> 301 | StaleStateNodes \<Rightarrow> 302)"

definition counters_get :: "ledger_counters \<Rightarrow> ledger_counter \<Rightarrow> u64" where
  "counters_get self counter = (case bget self (raw_key counter) of None \<Rightarrow> 0 | Some v \<Rightarrow> v)"

definition raw_inc :: "16 word \<Rightarrow> u64 \<Rightarrow> ledger_counters \<Rightarrow> ledger_counters" where
  "raw_inc key amount self = binsert key ((case bget self key of None \<Rightarrow> 0 | Some v \<Rightarrow> v) + amount) self"

definition counters_inc :: "ledger_counter \<Rightarrow> u64 \<Rightarrow> ledger_counters \<Rightarrow> ledger_counters" where
  "counters_inc counter amount self = raw_inc (raw_key counter) amount self"

definition counters_bump :: "ledger_counters \<Rightarrow> ledger_counters \<Rightarrow> ledger_counters" where
  "counters_bump bumps self = fold (\<lambda>(key, value). raw_inc key value) (bentries bumps) self"

section \<open>Columns and batches\<close>

record 'p db_columns =
  col_ledger_info :: "(u64, ledger_info_with_signatures) btree_map"
  col_epoch_by_version :: "(version, u64) btree_map"
  col_event_accumulator :: "(version \<times> position, hash_value) btree_map"
  col_event_by_key :: "(event_key \<times> u64, version \<times> u64) btree_map"
  col_event :: "(version \<times> u64, contract_event) btree_map"
  col_ledger_counters :: "(version, ledger_counters) btree_map"
  col_transaction :: "(version, 'p transaction) btree_map"
  col_transaction_accumulator :: node_column
  col_transaction_by_account :: "(account_address \<times> u64, version) btree_map"
  col_transaction_info :: "(version, transaction_info) btree_map"

definition columns_empty :: "'p db_columns" where
  "columns_empty =
     \<lparr>col_ledger_info = bempty, col_epoch_by_version = bempty, col_event_accumulator = bempty, col_event_by_key = bempty,
      col_event = bempty, col_ledger_counters = bempty, col_transaction = bempty, col_transaction_accumulator = bempty,
      col_transaction_by_account = bempty, col_transaction_info = bempty\<rparr>"

text \<open>
  A batch has rows for each column family, a map from keys to values, in which a later write of a key
  replaces an earlier one.
\<close>

type_synonym 'p schema_batch = "'p db_columns"

definition write_rows :: "('k::linorder, 'v) btree_map \<Rightarrow> ('k, 'v) btree_map \<Rightarrow> ('k, 'v) btree_map" where
  "write_rows rows col = fold (\<lambda>(key, value). binsert key value) (bentries rows) col"

definition write_schemas :: "'p schema_batch \<Rightarrow> 'p db_columns \<Rightarrow> 'p db_columns" where
  "write_schemas batch db =
     \<lparr>col_ledger_info = write_rows (col_ledger_info batch) (col_ledger_info db),
      col_epoch_by_version = write_rows (col_epoch_by_version batch) (col_epoch_by_version db),
      col_event_accumulator = write_rows (col_event_accumulator batch) (col_event_accumulator db),
      col_event_by_key = write_rows (col_event_by_key batch) (col_event_by_key db),
      col_event = write_rows (col_event batch) (col_event db),
      col_ledger_counters = write_rows (col_ledger_counters batch) (col_ledger_counters db),
      col_transaction = write_rows (col_transaction batch) (col_transaction db),
      col_transaction_accumulator = write_rows (col_transaction_accumulator batch) (col_transaction_accumulator db),
      col_transaction_by_account = write_rows (col_transaction_by_account batch) (col_transaction_by_account db),
      col_transaction_info = write_rows (col_transaction_info batch) (col_transaction_info db)\<rparr>"

record 'p change_set =
  cs_batch :: "'p schema_batch"
  cs_counter_bumps :: ledger_counters

definition change_set_new :: "'p change_set" where
  "change_set_new = \<lparr>cs_batch = columns_empty, cs_counter_bumps = bempty\<rparr>"

text \<open>The rows of one column, and a batch of writes to it.\<close>

definition put_all :: "('k::linorder \<times> 'v) list \<Rightarrow> ('k, 'v) btree_map \<Rightarrow> ('k, 'v) btree_map" where
  "put_all es rows = fold (\<lambda>(key, value). binsert key value) es rows"

definition cs_bump :: "ledger_counter \<Rightarrow> u64 \<Rightarrow> 'p change_set \<Rightarrow> 'p change_set" where
  "cs_bump counter amount cs = cs\<lparr>cs_counter_bumps := counters_inc counter amount (cs_counter_bumps cs)\<rparr>"

definition batch_update :: "('p schema_batch \<Rightarrow> 'p schema_batch) \<Rightarrow> 'p change_set \<Rightarrow> 'p change_set" where
  "batch_update f cs = cs\<lparr>cs_batch := f (cs_batch cs)\<rparr>"

text \<open>A seek key that is a proper prefix of the keys: the last key before it.\<close>

definition bseek_before :: "('k::linorder, 'v) btree_map \<Rightarrow> 'k \<Rightarrow> ('k \<times> 'v) list" where
  "bseek_before m k =
     (case vec_pop (filter (\<lambda>e. fst e < k) (bentries m)) of
        None \<Rightarrow> []
      | Some (e, _) \<Rightarrow> bseek m (fst e))"

text \<open>A backward iterator: it starts at the first key at or after \<open>k\<close>.\<close>

definition brev_seek :: "('k::linorder, 'v) btree_map \<Rightarrow> 'k \<Rightarrow> ('k \<times> 'v) list" where
  "brev_seek m k =
     (case bseek m k of
        [] \<Rightarrow> []
      | e # _ \<Rightarrow> e # rev (filter (\<lambda>x. fst x < fst e) (bentries m)))"

text \<open>The range \<open>a..b\<close> of versions.\<close>

definition version_range :: "version \<Rightarrow> version \<Rightarrow> version list" where
  "version_range a b = map of_nat [unat a..<unat b]"

definition version_range_inclusive :: "version \<Rightarrow> version \<Rightarrow> version list" where
  "version_range_inclusive a b = map of_nat [unat a..<Suc (unat b)]"

definition zip_eq :: "'a list \<Rightarrow> 'b list \<Rightarrow> ('e, ('a \<times> 'b) list) result" where
  "zip_eq xs ys =
     rbind (assert_that (length xs = length ys) ''itertools: .zip_eq() reached end of one iterator before the other'') (\<lambda>_.
     Inr (zip xs ys))"

section \<open>The system store\<close>

definition bump_ledger_counters ::
    "'p db_columns \<Rightarrow> version \<Rightarrow> version \<Rightarrow> ledger_counters \<Rightarrow> 'p schema_batch \<Rightarrow> (ledger_counters \<times> 'p schema_batch) anyhow" where
  "bump_ledger_counters db first_version last_version bumps batch =
     rbind (assert_that (first_version \<le> last_version) ''assertion failed: first_version <= last_version'') (\<lambda>_.
     let counters = (if first_version > 0 then
                       (let base_version = first_version - 1
                        in case bget (col_ledger_counters db) base_version of
                             Some counters \<Rightarrow> counters
                           | None \<Rightarrow> bempty)
                     else bempty);
         counters = counters_bump bumps counters
     in Inr (counters, batch\<lparr>col_ledger_counters := binsert last_version counters (col_ledger_counters batch)\<rparr>))"

section \<open>Laws\<close>

lemma map_of_rev_sorted: "map_of (rev (bentries m)) = bget m"
proof
  fix k
  have "distinct (map fst (rev (bentries m)))" by (simp add: sorted_keys_distinct rev_map [symmetric])
  from map_of_eq_Some_iff [OF this] have "map_of (rev (bentries m)) k = Some v \<longleftrightarrow> bget m k = Some v" for v
    by (simp add: bget_Some_iff)
  then show "map_of (rev (bentries m)) k = bget m k" by (metis not_None_eq)
qed

lemma bget_write_rows: "bget (write_rows rows col) k = (case bget rows k of Some v \<Rightarrow> Some v | None \<Rightarrow> bget col k)"
  by (simp add: write_rows_def bget_fold_binsert map_of_rev_sorted map_add_def)

lemma bget_put_all_other: "k \<notin> fst ` set es \<Longrightarrow> bget (put_all es rows) k = bget rows k"
  unfolding put_all_def by (rule bget_fold_other)

lemma bget_put_all_mem: "(k, v) \<in> set es \<Longrightarrow> (\<And>v'. (k, v') \<in> set es \<Longrightarrow> v' = v) \<Longrightarrow> bget (put_all es rows) k = Some v"
  unfolding put_all_def by (rule bget_fold_mem)

lemma write_rows_put_all: "write_rows (put_all es bempty) col = put_all es col"
proof (rule btree_map_eqI)
  fix k
  show "bget (write_rows (put_all es bempty) col) k = bget (put_all es col) k"
    by (simp add: bget_write_rows) (simp add: put_all_def bget_fold_binsert map_add_def split: option.splits)
qed

lemma write_rows_bempty [simp]: "write_rows bempty col = col"
  by (simp add: write_rows_def)

section \<open>Columns with consecutive keys\<close>

definition dense :: "(u64, 'v) btree_map \<Rightarrow> 'v list \<Rightarrow> bool" where
  "dense col xs \<longleftrightarrow> length xs < 2 ^ 64 \<and> bentries col = map (\<lambda>i. (of_nat i, xs ! i)) [0..<length xs]"

lemma dense_bempty [simp]: "dense bempty []"
  by (simp add: dense_def)

lemma dense_bget:
  assumes "dense col xs"
  shows "bget col v = (if unat v < length xs then Some (xs ! unat v) else None)"
proof (cases "unat v < length xs")
  case True
  then have "(v, xs ! unat v) \<in> set (bentries col)" using assms by (auto simp: dense_def intro!: image_eqI [of _ _ "unat v"])
  with True show ?thesis by (simp add: bget_Some_iff)
next
  case False
  have "v \<notin> fst ` set (bentries col)"
  proof
    assume "v \<in> fst ` set (bentries col)"
    then obtain i where "i < length xs" "v = of_nat i" using assms by (auto simp: dense_def)
    then show False using False assms unat_of_nat_u64 [of i] by (simp add: dense_def)
  qed
  with False show ?thesis by (simp add: bget_def map_of_eq_None_iff)
qed

lemma dense_snoc:
  assumes "dense col xs" "Suc (length xs) < 2 ^ 64"
  shows "dense (binsert (of_nat (length xs)) y col) (xs @ [y])"
proof -
  have "ins_entry (of_nat (length xs)) y (bentries col) = bentries col @ [(of_nat (length xs), y)]"
  proof (rule ins_entry_last)
    fix e assume "e \<in> set (bentries col)"
    then obtain i where i: "i < length xs" "fst e = of_nat i" using assms(1) by (auto simp: dense_def)
    then show "fst e < of_nat (length xs)"
      using assms unat_of_nat_u64 [of i] unat_of_nat_u64 [of "length xs"] by (simp add: word_less_nat_alt)
  qed
  moreover have "bentries col = map (\<lambda>i. (of_nat i, xs ! i)) [0..<length xs]" using assms by (simp add: dense_def)
  ultimately show ?thesis using assms by (simp add: dense_def nth_append)
qed

lemma put_all_simps: "put_all [] col = col" "put_all (e # es) col = put_all es (binsert (fst e) (snd e) col)"
  by (simp_all add: put_all_def case_prod_unfold)

lemma dense_put_all:
  "dense col xs \<Longrightarrow> length xs + length ys < 2 ^ 64 \<Longrightarrow>
   dense (put_all (zip (map of_nat [length xs..<length xs + length ys]) ys) col) (xs @ ys)"
proof (induction ys arbitrary: col xs)
  case (Cons y ys)
  from dense_snoc [OF Cons.prems(1), of y] Cons.prems(2) have d: "dense (binsert (of_nat (length xs)) y col) (xs @ [y])" by simp
  have "[length xs..<length xs + length (y # ys)] = length xs # [length (xs @ [y])..<length (xs @ [y]) + length ys]"
    by (simp add: upt_rec)
  with Cons.IH [OF d] Cons.prems(2) show ?case by (simp add: put_all_simps del: upt_Suc)
qed (simp add: put_all_simps)

lemma filter_upt_ge: "filter (\<lambda>i. a \<le> i) [0..<n] = [a..<n]"
proof (cases "a \<le> n")
  case True
  have "filter (\<lambda>i. a \<le> i) [0..<a] = []" by (simp add: filter_empty_conv)
  moreover have "filter (\<lambda>i. a \<le> i) [a..<n] = [a..<n]" by (simp add: filter_id_conv)
  ultimately show ?thesis using upt_split [OF True] by simp
qed (simp add: filter_empty_conv)

lemma dense_bseek: "dense col xs \<Longrightarrow> bseek col s = map (\<lambda>i. (of_nat i, xs ! i)) [unat s..<length xs]"
proof -
  assume d: "dense col xs"
  have "filter (\<lambda>i. s \<le> of_nat i) [0..<length xs] = filter (\<lambda>i. unat s \<le> i) [0..<length xs]"
  proof (rule filter_cong)
    fix i assume "i \<in> set [0..<length xs]"
    then have "unat (of_nat i :: u64) = i" using d by (intro unat_of_nat_u64) (simp add: dense_def)
    then show "s \<le> of_nat i \<longleftrightarrow> unat s \<le> i" by (simp add: word_le_nat_alt)
  qed simp
  with d show ?thesis by (simp add: bseek_def dense_def filter_map comp_def filter_upt_ge)
qed

lemma dense_last:
  "dense col xs \<Longrightarrow> bseek_to_last col = (if xs = [] then [] else [(of_nat (length xs - 1), last xs)])"
  by (auto simp: bseek_to_last_def dense_def vec_pop_def last_map last_conv_nth)

lemma write_rows_put: "write_rows (put_all es rows) col = put_all es (write_rows rows col)"
proof (rule btree_map_eqI)
  fix k
  show "bget (write_rows (put_all es rows) col) k = bget (put_all es (write_rows rows col)) k"
    by (simp add: bget_write_rows)
      (simp add: put_all_def bget_fold_binsert bget_write_rows map_add_def split: option.splits)
qed

lemma write_rows_binsert: "write_rows (binsert k v rows) col = binsert k v (write_rows rows col)"
  using write_rows_put [of "[(k, v)]" rows col] by (simp add: put_all_simps)

lemma version_range_of_nat:
  assumes "n + m < 2 ^ 64"
  shows "version_range (of_nat n) (of_nat n + of_nat m) = map of_nat [n..<n + m]"
proof -
  have "unat (of_nat n :: u64) = n" "unat (of_nat n + of_nat m :: u64) = n + m"
    using assms unat_of_nat_u64 [of n] unat_of_nat_u64 [of "n + m"] by simp_all
  then show ?thesis by (simp add: version_range_def)
qed

end
