(* ===== verification/Ledger_Store.thy ===== *)
theory Ledger_Store
  imports Schema_Db
begin

text \<open>
  The ledger store (\<open>storage/libradb/src/ledger_store/mod.rs\<close>): ledger infos by epoch, transaction
  infos by ver and the transaction accumulator over them, with the transaction store
  (\<open>transaction_store/mod.rs\<close>). Reads go to the database and writes to a change set.
\<close>

section \<open>Operations\<close>

record 'p ledger_store =
  ls_db :: "'p db_columns"
  ls_latest_ledger_info :: "ledger_info_with_signatures option"

definition ledger_store_new :: "'p db_columns \<Rightarrow> 'p ledger_store" where
  "ledger_store_new db =
     \<lparr>ls_db = db,
      ls_latest_ledger_info = (case bseek_to_last (col_ledger_info db) of [] \<Rightarrow> None | (_, li) # _ \<Rightarrow> Some li)\<rparr>"

definition get_epoch :: "'p db_columns \<Rightarrow> version \<Rightarrow> u64 anyhow" where
  "get_epoch db ver =
     (case bseek_for_prev (col_epoch_by_version db) ver of
        [] \<Rightarrow> Inr 0
      | (epoch_end_version, epoch) # _ \<Rightarrow>
          rbind (ensure (epoch_end_version \<le> ver) ''DB corruption: looking for epoch for version'') (\<lambda>_.
          Inr (if epoch_end_version < ver then epoch + 1 else epoch)))"

definition get_epoch_ending_ledger_info :: "'p db_columns \<Rightarrow> version \<Rightarrow> ledger_info_with_signatures anyhow" where
  "get_epoch_ending_ledger_info db ver =
     rbind (ok_or (bget (col_ledger_info db) ver) ''Epoch change LedgerInfo not found.'') (\<lambda>li.
     rbind (ok_or (next_epoch_state (lis_ledger_info li)) ''Not an epoch change'') (\<lambda>_.
     Inr li))"

definition get_latest_ledger_info :: "'p ledger_store \<Rightarrow> ledger_info_with_signatures anyhow" where
  "get_latest_ledger_info self = ok_or (ls_latest_ledger_info self) ''Genesis LedgerInfo not found.''"

definition set_latest_ledger_info :: "ledger_info_with_signatures \<Rightarrow> 'p ledger_store \<Rightarrow> 'p ledger_store" where
  "set_latest_ledger_info li self = self\<lparr>ls_latest_ledger_info := Some li\<rparr>"

definition get_latest_ledger_info_in_epoch :: "'p db_columns \<Rightarrow> u64 \<Rightarrow> ledger_info_with_signatures anyhow" where
  "get_latest_ledger_info_in_epoch db epoch = ok_or (bget (col_ledger_info db) epoch) ''Last LedgerInfo of epoch not found.''"

definition get_epoch_state :: "'p db_columns \<Rightarrow> u64 \<Rightarrow> epoch_state anyhow" where
  "get_epoch_state db epoch =
     rbind (ensure (epoch > 0) ''EpochState only queryable for epoch >= 1.'') (\<lambda>_.
     rbind (ok_or (bget (col_ledger_info db) (epoch - 1)) ''Last LedgerInfo of epoch not found.'') (\<lambda>li.
     ok_or (next_epoch_state (lis_ledger_info li)) ''Last LedgerInfo in epoch must carry next_epoch_state.''))"

definition ledger_reader :: "'p db_columns \<Rightarrow> hash_reader" where
  "ledger_reader db = column_reader ''does not exist.'' (col_transaction_accumulator db)"

record tree_state =
  num_transactions :: leaf_count
  ledger_frozen_subtree_hashes :: "hash_value list"
  account_state_root_hash :: hash_value

definition tree_state_is_empty :: "tree_state \<Rightarrow> bool" where
  "tree_state_is_empty self \<longleftrightarrow> num_transactions self = 0 \<and> account_state_root_hash self = SPARSE_MERKLE_PLACEHOLDER_HASH"

definition get_tree_state :: "'p db_columns \<Rightarrow> leaf_count \<Rightarrow> transaction_info \<Rightarrow> tree_state anyhow" where
  "get_tree_state db n info =
     rbind (merkle_accumulator_get_frozen_subtree_hashes (ledger_reader db) n) (\<lambda>hashes.
     Inr \<lparr>num_transactions = n, ledger_frozen_subtree_hashes = hashes, account_state_root_hash = ti_state_root_hash info\<rparr>)"

definition get_transaction_info :: "'p db_columns \<Rightarrow> version \<Rightarrow> transaction_info anyhow" where
  "get_transaction_info db ver = ok_or (bget (col_transaction_info db) ver) ''No TransactionInfo at version''"

definition get_latest_transaction_info_option :: "'p db_columns \<Rightarrow> (version \<times> transaction_info) option" where
  "get_latest_transaction_info_option db = (case bseek_to_last (col_transaction_info db) of [] \<Rightarrow> None | e # _ \<Rightarrow> Some e)"

definition get_latest_transaction_info :: "'p db_columns \<Rightarrow> (version \<times> transaction_info) anyhow" where
  "get_latest_transaction_info db = ok_or (get_latest_transaction_info_option db) ''Genesis TransactionInfo. not found.''"

record startup_info =
  si_latest_ledger_info :: ledger_info_with_signatures
  si_latest_epoch_state :: "epoch_state option"
  si_committed_tree_state :: tree_state
  si_synced_tree_state :: "tree_state option"

definition startup_epoch_state :: "startup_info \<Rightarrow> epoch_state anyhow" where
  "startup_epoch_state self =
     (case next_epoch_state (lis_ledger_info (si_latest_ledger_info self)) of
        Some es \<Rightarrow> Inr es
      | None \<Rightarrow> expect (si_latest_epoch_state self) ''EpochState must exist'')"

definition get_startup_info :: "'p ledger_store \<Rightarrow> startup_info option anyhow" where
  "get_startup_info self =
     (case ls_latest_ledger_info self of
        None \<Rightarrow> Inr None
      | Some latest \<Rightarrow>
          rbind (case next_epoch_state (lis_ledger_info latest) of
                   Some _ \<Rightarrow> Inr None
                 | None \<Rightarrow> rbind (get_epoch_state (ls_db self) (li_epoch (lis_ledger_info latest))) (\<lambda>es. Inr (Some es))) (\<lambda>es_opt.
          let ver = li_version (lis_ledger_info latest) in
          rbind (get_latest_transaction_info (ls_db self)) (\<lambda>(latest_version, latest_txn_info).
          rbind (assert_that (latest_version \<ge> ver) ''assertion failed: latest_version >= li_version'') (\<lambda>_.
          rbind (if latest_version = ver then
                   rbind (get_tree_state (ls_db self) (latest_version + 1) latest_txn_info) (\<lambda>t. Inr (t, None))
                 else
                   rbind (get_transaction_info (ls_db self) ver) (\<lambda>info.
                   rbind (get_tree_state (ls_db self) (ver + 1) info) (\<lambda>t.
                   rbind (get_tree_state (ls_db self) (latest_version + 1) latest_txn_info) (\<lambda>t'.
                   Inr (t, Some t'))))) (\<lambda>(committed, synced).
          Inr (Some \<lparr>si_latest_ledger_info = latest, si_latest_epoch_state = es_opt,
                     si_committed_tree_state = committed, si_synced_tree_state = synced\<rparr>))))))"

text \<open>The iterators over transaction infos and transactions, which expect consecutive versions.\<close>

record 'v version_iter =
  vi_inner :: "(version \<times> 'v) list"
  vi_expected_next_version :: version
  vi_end_version :: version

definition version_iter_next :: "string \<Rightarrow> 'v version_iter \<Rightarrow> ('v option \<times> 'v version_iter) anyhow" where
  "version_iter_next msg self =
     (if vi_expected_next_version self \<ge> vi_end_version self then Inr (None, self)
      else case vi_inner self of
             (ver, item) # rest \<Rightarrow>
               rbind (ensure (ver = vi_expected_next_version self) msg) (\<lambda>_.
               Inr (Some item, self\<lparr>vi_inner := rest, vi_expected_next_version := vi_expected_next_version self + 1\<rparr>))
           | [] \<Rightarrow> Inr (None, self))"

text \<open>\<open>checked_add\<close> of the number of items.\<close>

definition version_iter_new :: "string \<Rightarrow> (version \<times> 'v) list \<Rightarrow> version \<Rightarrow> u64 \<Rightarrow> 'v version_iter anyhow" where
  "version_iter_new msg inner start n =
     rbind (ensure (unat start + unat n < 2 ^ 64) msg) (\<lambda>_.
     Inr \<lparr>vi_inner = inner, vi_expected_next_version = start, vi_end_version = start + n\<rparr>)"

definition transaction_info_iter_next :: "transaction_info version_iter \<Rightarrow> (transaction_info option \<times> transaction_info version_iter) anyhow" where
  "transaction_info_iter_next = version_iter_next ''Transaction info versions are not consecutive.''"

definition get_transaction_info_iter :: "'p db_columns \<Rightarrow> version \<Rightarrow> u64 \<Rightarrow> transaction_info version_iter anyhow" where
  "get_transaction_info_iter db start n =
     version_iter_new ''Too many transaction infos requested.'' (bseek (col_transaction_info db) start) start n"

definition transaction_iter_next :: "'p transaction version_iter \<Rightarrow> ('p transaction option \<times> 'p transaction version_iter) anyhow" where
  "transaction_iter_next = version_iter_next ''Transaction versions are not consecutive.''"

definition get_transaction_iter :: "'p db_columns \<Rightarrow> version \<Rightarrow> u64 \<Rightarrow> 'p transaction version_iter anyhow" where
  "get_transaction_iter db start n =
     version_iter_new ''Too many transactions requested.'' (bseek (col_transaction db) start) start n"

record epoch_ending_iter =
  ei_inner :: "(u64 \<times> ledger_info_with_signatures) list"
  ei_next_epoch :: u64
  ei_end_epoch :: u64

definition get_epoch_ending_ledger_info_iter :: "'p db_columns \<Rightarrow> u64 \<Rightarrow> u64 \<Rightarrow> epoch_ending_iter" where
  "get_epoch_ending_ledger_info_iter db start_epoch end_epoch =
     \<lparr>ei_inner = bseek (col_ledger_info db) start_epoch, ei_next_epoch = start_epoch, ei_end_epoch = end_epoch\<rparr>"

definition epoch_ending_iter_next :: "epoch_ending_iter \<Rightarrow> (ledger_info_with_signatures option \<times> epoch_ending_iter) anyhow" where
  "epoch_ending_iter_next self =
     (if ei_next_epoch self \<ge> ei_end_epoch self then Inr (None, self)
      else case ei_inner self of
             (epoch, li) # rest \<Rightarrow>
               (if \<not> ends_epoch (lis_ledger_info li) then Inr (None, self\<lparr>ei_inner := rest\<rparr>)
                else rbind (ensure (epoch = ei_next_epoch self) ''Epochs are not consecutive.'') (\<lambda>_.
                     Inr (Some li, self\<lparr>ei_inner := rest, ei_next_epoch := ei_next_epoch self + 1\<rparr>)))
           | [] \<Rightarrow> Inr (None, self))"

text \<open>\<open>collect::<Result<Vec<_>>>()\<close>: every item consumes an entry, so that the entries bound the calls.\<close>

primrec iter_collect :: "('i \<Rightarrow> ('v option \<times> 'i) anyhow) \<Rightarrow> nat \<Rightarrow> 'i \<Rightarrow> 'v list anyhow" where
  "iter_collect next 0 it = rbind (next it) (\<lambda>(item, _). case item of None \<Rightarrow> Inr [] | Some _ \<Rightarrow> Inl (Panic ''unbounded iterator''))"
| "iter_collect next (Suc n) it =
     rbind (next it) (\<lambda>(item, it').
     case item of None \<Rightarrow> Inr [] | Some v \<Rightarrow> rbind (iter_collect next n it') (\<lambda>vs. Inr (v # vs)))"

definition epoch_ending_iter_collect :: "epoch_ending_iter \<Rightarrow> ledger_info_with_signatures list anyhow" where
  "epoch_ending_iter_collect it = iter_collect epoch_ending_iter_next (length (ei_inner it)) it"

subsection \<open>Proofs\<close>

definition get_transaction_proof :: "'p proof_hashers \<Rightarrow> 'p db_columns \<Rightarrow> version \<Rightarrow> version \<Rightarrow> accumulator_proof anyhow" where
  "get_transaction_proof K db ver ledger_version =
     merkle_accumulator_get_proof (h_txn_accumulator K) (ledger_reader db) (ledger_version + 1) ver"

definition get_transaction_info_with_proof ::
    "'p proof_hashers \<Rightarrow> 'p db_columns \<Rightarrow> version \<Rightarrow> version \<Rightarrow> transaction_info_with_proof anyhow" where
  "get_transaction_info_with_proof K db ver ledger_version =
     rbind (get_transaction_proof K db ver ledger_version) (\<lambda>proof.
     rbind (get_transaction_info db ver) (\<lambda>info.
     Inr \<lparr>ledger_info_to_transaction_info_proof = proof, tip_transaction_info = info\<rparr>))"

definition get_transaction_range_proof ::
    "'p proof_hashers \<Rightarrow> 'p db_columns \<Rightarrow> version option \<Rightarrow> u64 \<Rightarrow> version \<Rightarrow> accumulator_range_proof anyhow" where
  "get_transaction_range_proof K db start_version num_txns ledger_version =
     merkle_accumulator_get_range_proof (h_txn_accumulator K) (ledger_reader db) (ledger_version + 1) start_version num_txns"

definition ledger_get_consistency_proof :: "'p db_columns \<Rightarrow> version \<Rightarrow> version \<Rightarrow> accumulator_consistency_proof anyhow" where
  "ledger_get_consistency_proof db client_known_version ledger_version =
     merkle_accumulator_get_consistency_proof (ledger_reader db) (ledger_version + 1) (client_known_version + 1)"

subsection \<open>Writes\<close>

definition put_transaction_infos ::
    "'p proof_hashers \<Rightarrow> 'p db_columns \<Rightarrow> version \<Rightarrow> transaction_info list \<Rightarrow> 'p change_set \<Rightarrow> (hash_value \<times> 'p change_set) anyhow" where
  "put_transaction_infos K db first_version txn_infos cs =
     rbind (zip_eq (version_range first_version (first_version + of_nat (length txn_infos))) txn_infos) (\<lambda>rows.
     let cs = batch_update (\<lambda>b. b\<lparr>col_transaction_info := put_all rows (col_transaction_info b)\<rparr>) cs;
         txn_hashes = map (h_transaction_info K) txn_infos
     in rbind (merkle_accumulator_append (h_txn_accumulator K) (ledger_reader db) first_version txn_hashes) (\<lambda>(root_hash, writes).
        Inr (root_hash, batch_update (\<lambda>b. b\<lparr>col_transaction_accumulator := put_all writes (col_transaction_accumulator b)\<rparr>) cs)))"

definition put_ledger_info :: "ledger_info_with_signatures \<Rightarrow> 'p change_set \<Rightarrow> 'p change_set" where
  "put_ledger_info li_sigs cs =
     (let ledger_info = lis_ledger_info li_sigs;
          cs = (if ends_epoch ledger_info then
                  batch_update (\<lambda>b. b\<lparr>col_epoch_by_version :=
                    binsert (li_version ledger_info) (li_epoch ledger_info) (col_epoch_by_version b)\<rparr>) cs
                else cs)
      in batch_update (\<lambda>b. b\<lparr>col_ledger_info := binsert (li_epoch ledger_info) li_sigs (col_ledger_info b)\<rparr>) cs)"

subsection \<open>The transaction store\<close>

definition lookup_transaction_by_account :: "'p db_columns \<Rightarrow> account_address \<Rightarrow> u64 \<Rightarrow> version \<Rightarrow> version option" where
  "lookup_transaction_by_account db address sequence_number ledger_version =
     (case bget (col_transaction_by_account db) (address, sequence_number) of
        Some ver \<Rightarrow> if ver \<le> ledger_version then Some ver else None
      | None \<Rightarrow> None)"

definition get_transaction :: "'p db_columns \<Rightarrow> version \<Rightarrow> 'p transaction anyhow" where
  "get_transaction db ver = ok_or (bget (col_transaction db) ver) ''Txn not found.''"

definition MAX_VERSIONS_TO_SEARCH :: nat where "MAX_VERSIONS_TO_SEARCH = 1000 * 3"

primrec block_metadata_loop :: "(version \<times> 'p transaction) list \<Rightarrow> (version \<times> 'p) option anyhow" where
  "block_metadata_loop [] = Inl (Err ''BlockMetadata preceding version not found.'')"
| "block_metadata_loop (e # rest) =
     (case snd e of
        BlockMetadata block_meta \<Rightarrow> Inr (Some (fst e, block_meta))
      | _ \<Rightarrow> if fst e = 0 then Inr None else block_metadata_loop rest)"

definition get_block_metadata :: "'p db_columns \<Rightarrow> version \<Rightarrow> (version \<times> 'p) option anyhow" where
  "get_block_metadata db ver = block_metadata_loop (take MAX_VERSIONS_TO_SEARCH (brev_seek (col_transaction db) ver))"

definition put_transaction :: "version \<Rightarrow> 'p transaction \<Rightarrow> 'p change_set \<Rightarrow> 'p change_set" where
  "put_transaction ver transaction cs =
     (let cs = (case transaction of
                  UserTransaction txn \<Rightarrow>
                    batch_update (\<lambda>b. b\<lparr>col_transaction_by_account :=
                      binsert (rt_sender (st_raw_txn txn), rt_sequence_number (st_raw_txn txn)) ver (col_transaction_by_account b)\<rparr>) cs
                | _ \<Rightarrow> cs)
      in batch_update (\<lambda>b. b\<lparr>col_transaction := binsert ver transaction (col_transaction b)\<rparr>) cs)"

section \<open>The transaction infos and their accumulator\<close>

definition ledger_rep :: "'p proof_hashers \<Rightarrow> 'p db_columns \<Rightarrow> transaction_info list \<Rightarrow> bool" where
  "ledger_rep K db infos \<longleftrightarrow>
     dense (col_transaction_info db) infos \<and>
     reads_frozen (h_txn_accumulator K) (map (h_transaction_info K) infos) (ledger_reader db)"

lemma ledger_rep_empty: "ledger_rep K columns_empty []"
  by (simp add: ledger_rep_def columns_empty_def reads_frozen_Nil)

definition info_rows :: "nat \<Rightarrow> transaction_info list \<Rightarrow> (version \<times> transaction_info) list" where
  "info_rows n infos = zip (map of_nat [n..<n + length infos]) infos"

definition info_nodes :: "'p proof_hashers \<Rightarrow> transaction_info list \<Rightarrow> transaction_info list \<Rightarrow> node list" where
  "info_nodes K xs ys =
     map (tree_node (h_txn_accumulator K) (map (h_transaction_info K) (xs @ ys)))
       (concat (map leaf_freezes [length xs..<length xs + length ys]))"

lemma put_transaction_infos_eq:
  assumes r: "ledger_rep K db xs" and n: "length xs + length ys \<le> 2 ^ 62"
  shows "put_transaction_infos K db (of_nat (length xs)) ys cs =
    Inr (tree_root (h_txn_accumulator K) (map (h_transaction_info K) (xs @ ys)),
         batch_update (\<lambda>b. b\<lparr>col_transaction_info := put_all (info_rows (length xs) ys) (col_transaction_info b),
           col_transaction_accumulator := put_all (info_nodes K xs ys) (col_transaction_accumulator b)\<rparr>) cs)"
proof -
  have rng: "version_range (of_nat (length xs)) (of_nat (length xs) + of_nat (length ys)) = map of_nat [length xs..<length xs + length ys]"
    using n by (intro version_range_of_nat) simp
  have "merkle_accumulator_append (h_txn_accumulator K) (ledger_reader db) (of_nat (length xs)) (map (h_transaction_info K) ys) =
      Inr (tree_root (h_txn_accumulator K) (map (h_transaction_info K) (xs @ ys)), info_nodes K xs ys)"
    using view_append_tree [of "h_txn_accumulator K" "map (h_transaction_info K) xs" "ledger_reader db" "map (h_transaction_info K) ys"] r n
      accumulator_view_tree [of "ledger_reader db" "map (h_transaction_info K) xs"]
    by (simp add: merkle_accumulator_append_def ledger_rep_def info_nodes_def)
  then show ?thesis
    by (simp add: put_transaction_infos_def zip_eq_def rng assert_that_def batch_update_def info_rows_def)
qed

lemma ledger_rep_put:
  assumes r: "ledger_rep K db xs" and n: "length xs + length ys \<le> 2 ^ 62"
    and i: "col_transaction_info db' = put_all (info_rows (length xs) ys) (col_transaction_info db)"
    and a: "col_transaction_accumulator db' = put_all (info_nodes K xs ys) (col_transaction_accumulator db)"
  shows "ledger_rep K db' (xs @ ys)"
proof -
  have "dense (col_transaction_info db') (xs @ ys)"
    unfolding i info_rows_def using r n by (intro dense_put_all) (simp_all add: ledger_rep_def)
  moreover have "put_all ns col = put_nodes ns col" for ns col by (simp add: put_all_def put_nodes_def)
  then have "reads_frozen (h_txn_accumulator K) (map (h_transaction_info K) (xs @ ys)) (ledger_reader db')"
    unfolding ledger_reader_def a info_nodes_def
    using reads_frozen_put_nodes [of "h_txn_accumulator K" "map (h_transaction_info K) xs" "''does not exist.''"
        "col_transaction_accumulator db" "map (h_transaction_info K) ys"] r n
    by (simp add: ledger_rep_def ledger_reader_def)
  ultimately show ?thesis by (simp add: ledger_rep_def)
qed

text \<open>Appending to the ledger: the batch of \<open>put_transaction_infos\<close> after the latest version is written.\<close>

definition next_version :: "'p db_columns \<Rightarrow> version" where
  "next_version db = (case get_latest_transaction_info_option db of None \<Rightarrow> 0 | Some (ver, _) \<Rightarrow> ver + 1)"

definition ledger_append ::
    "'p proof_hashers \<Rightarrow> 'p db_columns \<Rightarrow> transaction_info list \<Rightarrow> (hash_value \<times> 'p db_columns) anyhow" where
  "ledger_append K db infos =
     rbind (put_transaction_infos K db (next_version db) infos change_set_new) (\<lambda>(root_hash, cs).
     Inr (root_hash, write_schemas (cs_batch cs) db))"

lemma next_version_rep: "ledger_rep K db infos \<Longrightarrow> next_version db = of_nat (length infos)"
proof -
  assume "ledger_rep K db infos"
  then have d: "dense (col_transaction_info db) infos" by (simp add: ledger_rep_def)
  show ?thesis
  proof (cases "infos = []")
    case False
    then have "1 + (of_nat (length infos - Suc 0) :: u64) = of_nat (length infos)"
      by (metis One_nat_def Suc_pred length_greater_0_conv of_nat_Suc)
    with False d show ?thesis by (simp add: next_version_def get_latest_transaction_info_option_def dense_last add.commute)
  qed (use d in \<open>simp add: next_version_def get_latest_transaction_info_option_def dense_last\<close>)
qed

interpretation store_log: merkle_log "h_txn_accumulator K" "h_transaction_info K" "ledger_rep K" "Inr columns_empty" "ledger_append K" "2 ^ 62"
  for K :: "'p proof_hashers"
proof (unfold_locales, goal_cases)
  case 1
  show ?case by (simp add: ledger_rep_empty)
next
  case (2 db xs ys)
  then have r: "ledger_rep K db xs" and n: "length xs + length ys \<le> 2 ^ 62" by simp_all
  let ?cs = "batch_update (\<lambda>b. b\<lparr>col_transaction_info := put_all (info_rows (length xs) ys) (col_transaction_info b),
           col_transaction_accumulator := put_all (info_nodes K xs ys) (col_transaction_accumulator b)\<rparr>) change_set_new"
  have "ledger_rep K (write_schemas (cs_batch ?cs) db) (xs @ ys)"
    by (rule ledger_rep_put [OF r n])
      (simp_all add: write_schemas_def batch_update_def change_set_new_def columns_empty_def write_rows_put_all)
  then show ?case
    using put_transaction_infos_eq [OF r n, of change_set_new] by (simp add: ledger_append_def next_version_rep [OF r])
qed

interpretation two_logs: merkle_log_pair "h_txn_accumulator K" "\<lambda>h. h" "\<lambda>acc xs. acc = acc_of (h_txn_accumulator K) xs"
    "accumulator_default (h_txn_accumulator K)" "mem_log_append (h_txn_accumulator K)" "2 ^ 64 - 1"
    "h_transaction_info K" "ledger_rep K" "Inr columns_empty" "ledger_append K" "2 ^ 62"
  for K :: "'p proof_hashers"
  by unfold_locales

section \<open>Proofs towards a ledger info\<close>

text \<open>The ledger up to a version.\<close>

abbreviation infos_upto :: "transaction_info list \<Rightarrow> version \<Rightarrow> transaction_info list" where
  "infos_upto infos lv \<equiv> take (Suc (unat lv)) infos"

lemma ledger_view:
  assumes "unat lv < length infos"
  shows "accumulator_view_new reader (lv + 1) = tree_view reader (map h (infos_upto infos lv))"
proof -
  have "length (map h (infos_upto infos lv)) = Suc (unat lv)" using assms by simp
  moreover have "of_nat (Suc (unat lv)) = lv + 1" by (simp add: add.commute)
  ultimately show ?thesis using accumulator_view_tree [of reader "map h (infos_upto infos lv)"] by (simp add: add.commute)
qed

lemma ledger_rep_upto:
  "ledger_rep K db infos \<Longrightarrow>
   reads_frozen (h_txn_accumulator K) (map (h_transaction_info K) (infos_upto infos lv)) (ledger_reader db)"
  using reads_frozen_take [of "h_txn_accumulator K" "map (h_transaction_info K) infos"] by (simp add: ledger_rep_def take_map)

lemma get_transaction_info_rep:
  "ledger_rep K db infos \<Longrightarrow> unat v < length infos \<Longrightarrow> get_transaction_info db v = Inr (infos ! unat v)"
  by (simp add: get_transaction_info_def ledger_rep_def dense_bget [of _ infos])

lemma transaction_info_proof_generated:
  assumes r: "ledger_rep K db infos" and n: "length infos \<le> 2 ^ 62"
    and lv: "unat lv < length infos" "v \<le> lv" and c: "commits_to K li (infos_upto infos lv)"
  obtains pf where "get_transaction_info_with_proof K db v lv = Inr pf" "tip_transaction_info pf = infos ! unat v"
    "transaction_info_with_proof_verify K pf li v = Inr ()"
proof -
  let ?xs = "map (h_transaction_info K) (infos_upto infos lv)"
  have v: "unat v < length ?xs" "unat v < length infos" using lv by (simp_all add: word_le_nat_alt)
  have g: "get_transaction_proof K db v lv = Inr \<lparr>ap_siblings = tree_siblings (h_txn_accumulator K) ?xs (unat v)\<rparr>"
    using get_proof_tree [OF ledger_rep_upto [OF r] v(1)] n lv
    by (simp add: get_transaction_proof_def merkle_accumulator_get_proof_def ledger_view [where h = "h_transaction_info K"])
  have "v \<le> li_version li" using c lv by (simp add: commits_to_def word_le_nat_alt)
  moreover have "accumulator_proof_verify (h_txn_accumulator K) \<lparr>ap_siblings = tree_siblings (h_txn_accumulator K) ?xs (unat v)\<rparr>
      (transaction_accumulator_hash li) (?xs ! unat v) v = Inr ()"
    using proof_complete [OF v(1)] n c by (simp add: commits_to_def)
  moreover have "?xs ! unat v = h_transaction_info K (infos ! unat v)" using v by simp
  ultimately show thesis
    using that [of "\<lparr>ledger_info_to_transaction_info_proof = \<lparr>ap_siblings = tree_siblings (h_txn_accumulator K) ?xs (unat v)\<rparr>,
        tip_transaction_info = infos ! unat v\<rparr>"] g get_transaction_info_rep [OF r v(2)]
    by (simp add: get_transaction_info_with_proof_def transaction_info_with_proof_verify_def verify_transaction_info_def)
qed

lemma transaction_range_proof_generated:
  assumes r: "ledger_rep K db infos" and n: "length infos \<le> 2 ^ 62"
    and lv: "unat lv < length infos" and m: "0 < unat m" "unat s + unat m \<le> Suc (unat lv)"
    and c: "commits_to K li (infos_upto infos lv)"
  obtains rp where "get_transaction_range_proof K db (Some s) m lv = Inr rp"
    "accumulator_range_proof_verify (h_txn_accumulator K) rp (transaction_accumulator_hash li) (Some s)
       (map (h_transaction_info K) (take (unat m) (drop (unat s) infos))) = Inr ()"
proof -
  let ?xs = "map (h_transaction_info K) (infos_upto infos lv)" and ?H = "h_txn_accumulator K"
  let ?rp = "\<lparr>left_siblings = tree_left_siblings ?H ?xs 0 (unat s), right_siblings = tree_right_siblings ?H ?xs 0 (unat s + unat m - 1)\<rparr>"
  have l: "unat s + unat m \<le> length ?xs" using m lv by simp
  have "get_transaction_range_proof K db (Some s) m lv = Inr ?rp"
    using get_range_proof_tree [OF ledger_rep_upto [OF r] m(1) l] n lv
    by (simp add: get_transaction_range_proof_def merkle_accumulator_get_range_proof_def ledger_view [where h = "h_transaction_info K"])
  moreover have "take (unat m) (drop (unat s) ?xs) = map (h_transaction_info K) (take (unat m) (drop (unat s) infos))"
    using m(2) by (simp add: drop_map take_map drop_take min_absorb1)
  moreover have "accumulator_range_proof_verify ?H ?rp (tree_root ?H ?xs) (Some s) (take (unat m) (drop (unat s) ?xs)) = Inr ()"
    using m(1) l n lv by (intro range_proof_complete) simp_all
  moreover have "transaction_accumulator_hash li = tree_root ?H ?xs" using c by (simp add: commits_to_def)
  ultimately show thesis using that by simp
qed

definition example_later_li :: ledger_info_with_signatures where
  "example_later_li = example_li\<lparr>lis_ledger_info :=
     (lis_ledger_info example_li)\<lparr>commit_info := (commit_info (lis_ledger_info example_li))\<lparr>bi_version := 9\<rparr>\<rparr>\<rparr>"

section \<open>Properties\<close>

lemma info_nodes_postorder:
  assumes "length xs + length ys \<le> 2 ^ 62"
  shows "map (\<lambda>node. unat (to_postorder_index (fst node))) (info_nodes K xs ys) =
    [frozen_count (length xs)..<frozen_count (length xs + length ys)]"
proof -
  let ?fs = "concat (map leaf_freezes [length xs..<length xs + length ys])"
  have *: "unat (to_postorder_index (fst (tree_node H zs x))) = (case x of (l, p) \<Rightarrow> post_num l p)" if "x \<in> set ?fs" for H zs x
  proof -
    obtain l p where x: "x = (l, p)" by (cases x)
    have "(p + 1) * 2 ^ l \<le> length xs + length ys" using that batch_freezes_iff [OF assms] x by blast
    then have "valid_node l p" using assms by (intro node_in_tree_valid) simp
    then show ?thesis by (simp add: x) (simp add: tree_node_def to_postorder_index_def inorder_to_postorder_node)
  qed
  have "map (\<lambda>node. unat (to_postorder_index (fst node))) (info_nodes K xs ys) = map (\<lambda>(l, p). post_num l p) ?fs"
    unfolding info_nodes_def map_map comp_def using * by (intro map_cong refl)
  with batch_freezes_post_order [OF assms, of "length xs"] show ?thesis by simp
qed

text \<open>
  C30: The accumulator that the executor keeps in memory and the one in the database agree: for any
  batches of transaction infos, from an empty ledger, every append succeeds, both return the same
  root hashes, and at the end both represent all the infos.
\<close>

theorem ledger_roots_agree:
  "length (concat batches) \<le> 2 ^ 62 \<Longrightarrow>
   \<exists>roots db.
     rbind (accumulator_default (h_txn_accumulator K)) (\<lambda>acc.
       run_batches (mem_log_append (h_txn_accumulator K)) acc (map (map (h_transaction_info K)) batches)) =
       Inr (roots, acc_of (h_txn_accumulator K) (map (h_transaction_info K) (concat batches))) \<and>
     run_batches (ledger_append K) columns_empty batches = Inr (roots, db) \<and> ledger_rep K db (concat batches)"
proof -
  assume n: "length (concat batches) \<le> 2 ^ 62"
  have c: "concat (map (map f) bs) = map f (concat bs)" for f :: "transaction_info \<Rightarrow> hash_value" and bs
    by (simp add: map_concat)
  have "map (map (\<lambda>h. h)) (map (map (h_transaction_info K)) batches) = map (map (h_transaction_info K)) batches" by simp
  from two_logs.same_roots [OF this] n show ?thesis unfolding c by auto
qed

theorem ledger_roots_agree_witness:
  "\<exists>roots db. run_batches (ledger_append example_hashers) columns_empty [[example_info], [example_info, example_info]] = Inr (roots, db) \<and>
     ledger_rep example_hashers db [example_info, example_info, example_info]"
  using ledger_roots_agree [of "[[example_info], [example_info, example_info]]" example_hashers] by auto

text \<open>
  C32: Appending transaction infos to the ledger writes each node of the accumulator once and in
  order: the post-order indices of the nodes written are the numbers from the number of nodes
  frozen before to the number frozen after, and they are no more than the capacity that
  \<open>max_to_freeze\<close> reserves.
\<close>

theorem ledger_writes_in_order:
  "ledger_rep K db xs \<Longrightarrow> length xs + length ys \<le> 2 ^ 62 \<Longrightarrow>
   \<exists>nodes. merkle_accumulator_append (h_txn_accumulator K) (ledger_reader db) (of_nat (length xs)) (map (h_transaction_info K) ys) =
       Inr (tree_root (h_txn_accumulator K) (map (h_transaction_info K) (xs @ ys)), nodes) \<and>
     map (\<lambda>node. unat (to_postorder_index (fst node))) nodes = [frozen_count (length xs)..<frozen_count (length xs + length ys)] \<and>
     length nodes \<le> max_to_freeze (length ys) (root_level (length xs + length ys))"
proof -
  assume r: "ledger_rep K db xs" and n: "length xs + length ys \<le> 2 ^ 62"
  have "merkle_accumulator_append (h_txn_accumulator K) (ledger_reader db) (of_nat (length xs)) (map (h_transaction_info K) ys) =
      Inr (tree_root (h_txn_accumulator K) (map (h_transaction_info K) (xs @ ys)), info_nodes K xs ys)"
    using view_append_tree [of "h_txn_accumulator K" "map (h_transaction_info K) xs" "ledger_reader db" "map (h_transaction_info K) ys"] r n
      accumulator_view_tree [of "ledger_reader db" "map (h_transaction_info K) xs"]
    by (simp add: merkle_accumulator_append_def ledger_rep_def info_nodes_def)
  then show ?thesis using info_nodes_postorder [OF n] freezes_at_most [OF n]
    by (intro exI [of _ "info_nodes K xs ys"]) (simp add: info_nodes_def)
qed

theorem ledger_writes_in_order_witness:
  "\<exists>nodes. merkle_accumulator_append (h_txn_accumulator example_hashers) (ledger_reader (columns_empty :: unit db_columns)) 0
       (map (h_transaction_info example_hashers) [example_info, example_info]) =
       Inr (tree_root (h_txn_accumulator example_hashers) (map (h_transaction_info example_hashers) [example_info, example_info]), nodes) \<and>
     map (\<lambda>node. unat (to_postorder_index (fst node))) nodes = [frozen_count 0..<frozen_count (Suc (Suc 0))]"
proof -
  have "length ([] :: transaction_info list) + length [example_info, example_info] \<le> 2 ^ 62" by simp
  from ledger_writes_in_order [where db = "columns_empty :: unit db_columns", OF ledger_rep_empty this, of example_hashers] show ?thesis by auto
qed

text \<open>
  The ledger info at a version is looked up by epoch. After the ledger info that ends an epoch
  is put into the database, asking for the epoch ending ledger info at its version gives whatever
  the database has under the epoch with that number, and this ledger info is found under its epoch.
\<close>

theorem epoch_ending_ledger_info_by_epoch:
  "ends_epoch (lis_ledger_info li) \<Longrightarrow>
   get_epoch_ending_ledger_info (write_schemas (cs_batch (put_ledger_info li change_set_new)) db) (li_epoch (lis_ledger_info li)) = Inr li \<and>
   (li_version (lis_ledger_info li) \<noteq> li_epoch (lis_ledger_info li) \<longrightarrow>
    get_epoch_ending_ledger_info (write_schemas (cs_batch (put_ledger_info li change_set_new)) db) (li_version (lis_ledger_info li)) =
    get_epoch_ending_ledger_info db (li_version (lis_ledger_info li)))"
proof -
  assume e: "ends_epoch (lis_ledger_info li)"
  have "col_ledger_info (write_schemas (cs_batch (put_ledger_info li change_set_new)) db) = binsert (li_epoch (lis_ledger_info li)) li (col_ledger_info db)"
    by (simp add: put_ledger_info_def Let_def batch_update_def change_set_new_def write_schemas_def columns_empty_def write_rows_binsert)
  with e show ?thesis by (auto simp: get_epoch_ending_ledger_info_def ends_epoch_def)
qed

theorem epoch_ending_ledger_info_by_epoch_witness:
  "get_epoch_ending_ledger_info (write_schemas (cs_batch (put_ledger_info example_later_li change_set_new)) (columns_empty :: unit db_columns)) 0 = Inr example_later_li \<and>
   get_epoch_ending_ledger_info (write_schemas (cs_batch (put_ledger_info example_later_li change_set_new)) (columns_empty :: unit db_columns)) 9 =
     Inl (Err ''Epoch change LedgerInfo not found.'')"
proof -
  have li: "ends_epoch (lis_ledger_info example_later_li)" "li_epoch (lis_ledger_info example_later_li) = 0" "li_version (lis_ledger_info example_later_li) = 9"
    by (simp_all add: example_later_li_def example_li_def lis_genesis_def ledger_info_genesis_def block_info_genesis_def ends_epoch_def GENESIS_EPOCH_def)
  have "get_epoch_ending_ledger_info (columns_empty :: unit db_columns) 9 = Inl (Err ''Epoch change LedgerInfo not found.'')"
    by (simp add: get_epoch_ending_ledger_info_def columns_empty_def)
  with epoch_ending_ledger_info_by_epoch [OF li(1), of "columns_empty :: unit db_columns"] li(2,3) show ?thesis by simp
qed

end
