(* ===== verification/Event_Store.thy ===== *)
theory Event_Store
  imports Ledger_Store
begin

text \<open>
  The event store (\<open>storage/libradb/src/event_store/mod.rs\<close>): the events of each version with an
  accumulator of their own, and the index from the key and sequence number of an event to its
  version and its position there.
\<close>

section \<open>Operations\<close>

definition get_events_by_version :: "'p db_columns \<Rightarrow> version \<Rightarrow> contract_event list" where
  "get_events_by_version db ver = map snd (takeWhile (\<lambda>e. fst (fst e) = ver) (bseek (col_event db) (ver, 0)))"

definition event_hash_reader :: "'p db_columns \<Rightarrow> version \<Rightarrow> hash_reader" where
  "event_hash_reader db ver position = ok_or (bget (col_event_accumulator db) (ver, position)) ''Hash at position not found.''"

definition empty_reader :: hash_reader where
  "empty_reader position = Inl (Panic ''internal error: entered unreachable code'')"

definition get_event_with_proof_by_version_and_index ::
    "'p proof_hashers \<Rightarrow> 'p db_columns \<Rightarrow> version \<Rightarrow> u64 \<Rightarrow> (contract_event \<times> accumulator_proof) anyhow" where
  "get_event_with_proof_by_version_and_index K db ver index =
     rbind (ok_or (bget (col_event db) (ver, index)) ''Event of Txn not found.'') (\<lambda>event.
     rbind (case bseek_before (col_event db) (ver + 1, 0) of
              ((v, i), _) # _ \<Rightarrow> if v = ver then Inr (i + 1) else Inl (Panic ''internal error: entered unreachable code'')
            | [] \<Rightarrow> Inl (Panic ''internal error: entered unreachable code'')) (\<lambda>num_events.
     rbind (merkle_accumulator_get_proof (h_event_accumulator K) (event_hash_reader db ver) num_events index) (\<lambda>proof.
     Inr (event, proof))))"

definition get_txn_ver_by_seq_num :: "'p db_columns \<Rightarrow> event_key \<Rightarrow> u64 \<Rightarrow> version anyhow" where
  "get_txn_ver_by_seq_num db event_key seq_num =
     rbind (ok_or (bget (col_event_by_key db) (event_key, seq_num)) ''Index entry should exist for seq_num'') (\<lambda>(ver, _).
     Inr ver)"

text \<open>
  The search from the most recent end, for at most \<open>n\<close> tries: \<open>Inl\<close> is the sequence number found,
  \<open>Inr\<close> the one where the search gave up.
\<close>

primrec recent_loop :: "'p db_columns \<Rightarrow> version \<Rightarrow> event_key \<Rightarrow> nat \<Rightarrow> u64 \<Rightarrow> (u64 + u64) anyhow" where
  "recent_loop db ledger_version event_key 0 seq = Inr (Inr seq)"
| "recent_loop db ledger_version event_key (Suc n_try_recent) seq =
     (if seq > 0 then
        (let seq = seq - 1
         in rbind (get_txn_ver_by_seq_num db event_key seq) (\<lambda>ver.
            if ver \<le> ledger_version then Inr (Inl seq) else recent_loop db ledger_version event_key n_try_recent seq))
      else Inr (Inr seq))"

lemma binary_mid:
  fixes a b :: u64
  assumes "a < b"
  shows "a < b - (b - a) div 2" "b - (b - a) div 2 \<le> b" "unat (b - (b - a) div 2) = unat b - (unat b - unat a) div 2"
    "unat (b - (b - a) div 2 - 1) = unat (b - (b - a) div 2) - 1"
proof -
  have ab: "unat a < unat b" using assms by (simp add: word_less_nat_alt)
  have d: "unat (b - a) = unat b - unat a" using assms by (simp add: unat_sub_if' word_less_nat_alt)
  then have h: "unat ((b - a) div 2) = (unat b - unat a) div 2" by (simp add: unat_div_distrib)
  have "(unat b - unat a) div 2 \<le> unat b" by linarith
  then show m: "unat (b - (b - a) div 2) = unat b - (unat b - unat a) div 2" by (simp add: unat_sub_if' h)
  show lt: "a < b - (b - a) div 2" "b - (b - a) div 2 \<le> b" using ab by (simp_all add: word_less_nat_alt word_le_nat_alt m)
  from lt(1) have "b - (b - a) div 2 \<noteq> 0" by auto
  then show "unat (b - (b - a) div 2 - 1) = unat (b - (b - a) div 2) - 1" by (intro unat_minus_one)
qed

lemma binary_shrinks:
  fixes a b :: u64
  assumes "a < b"
  shows "unat b - unat (b - (b - a) div 2) < unat b - unat a" "unat (b - (b - a) div 2 - 1) - unat a < unat b - unat a"
proof -
  have "unat a < unat (b - (b - a) div 2)" "unat (b - (b - a) div 2) \<le> unat b"
    using binary_mid(1,2) [OF assms] by (simp_all only: word_less_nat_alt word_le_nat_alt)
  with binary_mid(4) [OF assms] show "unat b - unat (b - (b - a) div 2) < unat b - unat a"
    "unat (b - (b - a) div 2 - 1) - unat a < unat b - unat a" by linarith+
qed

function binary_search :: "'p db_columns \<Rightarrow> version \<Rightarrow> event_key \<Rightarrow> u64 \<Rightarrow> u64 \<Rightarrow> u64 anyhow" where
  "binary_search db ledger_version event_key lower upper =
     (if lower < upper then
        (let mid = upper - (upper - lower) div 2
         in rbind (get_txn_ver_by_seq_num db event_key mid) (\<lambda>ver.
            if ver \<le> ledger_version then binary_search db ledger_version event_key mid upper
            else binary_search db ledger_version event_key lower (mid - 1)))
      else Inr lower)"
  by pat_completeness auto

termination
  by (relation "measure (\<lambda>(db, lv, key, lower, upper). unat upper - unat lower)") (simp_all add: binary_shrinks)

declare binary_search.simps [simp del]

definition get_latest_sequence_number :: "'p db_columns \<Rightarrow> version \<Rightarrow> event_key \<Rightarrow> u64 option anyhow" where
  "get_latest_sequence_number db ledger_version event_key =
     (case bseek_for_prev (col_event_by_key db) (event_key, NOT 0) of
        ((key, seq), (ver, _)) # _ \<Rightarrow>
          (if key = event_key then
             (if ver \<le> ledger_version then Inr (Some seq)
              else rbind (recent_loop db ledger_version event_key 10 seq) (\<lambda>found.
                   case found of
                     Inl seq \<Rightarrow> Inr (Some seq)
                   | Inr seq \<Rightarrow> rbind (binary_search db ledger_version event_key 0 seq) (\<lambda>lower. Inr (Some lower))))
           else Inr None)
      | [] \<Rightarrow> Inr None)"

primrec lookup_loop ::
    "event_key \<Rightarrow> version \<Rightarrow> u64 \<Rightarrow> ((event_key \<times> u64) \<times> (version \<times> u64)) list \<Rightarrow> (u64 \<times> version \<times> u64) list anyhow" where
  "lookup_loop event_key ledger_version cur_seq [] = Inr []"
| "lookup_loop event_key ledger_version cur_seq (res # rest) =
     (let ((path, seq), (ver, idx)) = res
      in if path \<noteq> event_key \<or> ver > ledger_version then Inr []
         else rbind (ensure (seq = cur_seq) ''DB corrupt: Sequence number not continuous'') (\<lambda>_.
              rbind (lookup_loop event_key ledger_version (cur_seq + 1) rest) (\<lambda>result.
              Inr ((seq, ver, idx) # result))))"

definition lookup_events_by_key ::
    "'p db_columns \<Rightarrow> event_key \<Rightarrow> u64 \<Rightarrow> u64 \<Rightarrow> version \<Rightarrow> (u64 \<times> version \<times> u64) list anyhow" where
  "lookup_events_by_key db event_key start_seq_num limit ledger_version =
     lookup_loop event_key ledger_version start_seq_num
       (take (unat limit) (bseek (col_event_by_key db) (event_key, start_seq_num)))"

text \<open>The rows of the events of a version, in the event column and in the index.\<close>

definition event_rows :: "version \<Rightarrow> contract_event list \<Rightarrow> ((version \<times> u64) \<times> contract_event) list" where
  "event_rows ver events = map (\<lambda>(idx, event). ((ver, of_nat idx), event)) (enumerate 0 events)"

definition event_by_key_rows :: "version \<Rightarrow> contract_event list \<Rightarrow> ((event_key \<times> u64) \<times> (version \<times> u64)) list" where
  "event_by_key_rows ver events =
     map (\<lambda>(idx, event). ((ev_key event, ev_sequence_number event), (ver, of_nat idx))) (enumerate 0 events)"

definition put_events ::
    "'p proof_hashers \<Rightarrow> version \<Rightarrow> contract_event list \<Rightarrow> 'p change_set \<Rightarrow> (hash_value \<times> 'p change_set) anyhow" where
  "put_events K ver events cs =
     (let cs = cs_bump EventsCreated (of_nat (length events)) cs;
          cs = batch_update (\<lambda>b. b\<lparr>col_event := put_all (event_rows ver events) (col_event b),
                 col_event_by_key := put_all (event_by_key_rows ver events) (col_event_by_key b)\<rparr>) cs;
          event_hashes = map (h_event K) events
      in rbind (merkle_accumulator_append (h_event_accumulator K) empty_reader 0 event_hashes) (\<lambda>(root_hash, writes).
         Inr (root_hash, batch_update (\<lambda>b. b\<lparr>col_event_accumulator :=
           put_all (map (\<lambda>(pos, hash). ((ver, pos), hash)) writes) (col_event_accumulator b)\<rparr>) cs)))"

section \<open>The index of events by key\<close>

lemma bseek_for_prev_cases:
  obtains (none) "bseek_for_prev m k = []" "\<And>e. e \<in> set (bentries m) \<Longrightarrow> k < fst e"
  | (some) e rest where "bseek_for_prev m k = e # rest" "e \<in> set (bentries m)" "fst e \<le> k"
      "\<And>e'. e' \<in> set (bentries m) \<Longrightarrow> fst e' \<le> k \<Longrightarrow> fst e' \<le> fst e"
proof (cases "filter (\<lambda>e. fst e \<le> k) (bentries m) = []")
  case True
  then show thesis by (intro none) (auto simp: bseek_for_prev_def filter_empty_conv not_le)
next
  case False
  let ?f = "filter (\<lambda>e. fst e \<le> k) (bentries m)"
  obtain e where e: "e = last ?f" by simp
  have m: "e \<in> set ?f" unfolding e using False by (rule last_in_set)
  have s: "sorted_keys (butlast ?f @ [e])" using sorted_keys_filter [OF sorted_bentries, of "\<lambda>e. fst e \<le> k" m] False e by simp
  have le: "fst e' \<le> fst e" if "e' \<in> set ?f" for e'
  proof -
    have "e' \<in> set (butlast ?f @ [e])" using that False e by simp
    with s show ?thesis by (auto simp: sorted_keys_def sorted_wrt_append)
  qed
  have sk: "sorted_keys (bseek m (fst e))" unfolding bseek_def by (rule sorted_keys_filter) simp
  have "e \<in> set (bseek m (fst e))" using m by (simp add: bseek_def)
  then obtain e' rest where b: "bseek m (fst e) = e' # rest" by (cases "bseek m (fst e)") auto
  have "e' = e"
  proof (rule ccontr)
    assume "e' \<noteq> e"
    with b \<open>e \<in> set (bseek m (fst e))\<close> have "e \<in> set rest" by auto
    with sk b have "fst e' < fst e" by (auto simp: sorted_keys_def)
    moreover have "fst e \<le> fst e'" proof -
      have "e' \<in> set (bseek m (fst e))" using b by simp
      then show ?thesis by (simp add: bseek_def)
    qed
    ultimately show False by simp
  qed
  with b False e have "bseek_for_prev m k = e # rest" by (simp add: bseek_for_prev_def vec_pop_def)
  then show thesis using m le by (intro some [of e rest]) auto
qed

text \<open>\<open>vers\<close> are the versions of the events with a key, by sequence number.\<close>

definition key_index :: "'p db_columns \<Rightarrow> event_key \<Rightarrow> version list \<Rightarrow> bool" where
  "key_index db key vers \<longleftrightarrow>
     length vers < 2 ^ 64 \<and> sorted vers \<and>
     (\<forall>seq. map_option fst (bget (col_event_by_key db) (key, seq)) = (if unat seq < length vers then Some (vers ! unat seq) else None))"

definition visible :: "version \<Rightarrow> version list \<Rightarrow> nat" where
  "visible lv vers = length (takeWhile (\<lambda>v. v \<le> lv) vers)"

lemma visible_iff: "sorted vers \<Longrightarrow> i < length vers \<Longrightarrow> vers ! i \<le> lv \<longleftrightarrow> i < visible lv vers"
proof
  assume "sorted vers" "i < length vers" "vers ! i \<le> lv"
  show "i < visible lv vers"
  proof (rule ccontr)
    assume "\<not> i < visible lv vers"
    then have c: "visible lv vers \<le> i" "visible lv vers < length vers" using \<open>i < length vers\<close> by simp_all
    then have "\<not> vers ! visible lv vers \<le> lv" unfolding visible_def by (intro nth_length_takeWhile)
    moreover have "vers ! visible lv vers \<le> vers ! i" using \<open>sorted vers\<close> c \<open>i < length vers\<close> by (intro sorted_nth_mono)
    ultimately show False using \<open>vers ! i \<le> lv\<close> by simp
  qed
next
  assume "i < visible lv vers"
  then show "vers ! i \<le> lv" unfolding visible_def using takeWhile_nth [of i "\<lambda>v. v \<le> lv" vers] set_takeWhileD nth_mem by metis
qed

lemma visible_le: "visible lv vers \<le> length vers"
  by (simp add: visible_def length_takeWhile_le)

lemma get_txn_ver_index:
  assumes "key_index db key vers" "unat seq < length vers"
  shows "get_txn_ver_by_seq_num db key seq = Inr (vers ! unat seq)"
proof -
  have "map_option fst (bget (col_event_by_key db) (key, seq)) = Some (vers ! unat seq)" using assms by (simp add: key_index_def)
  then show ?thesis by (auto simp: get_txn_ver_by_seq_num_def)
qed

lemma recent_loop_eq:
  "key_index db key vers \<Longrightarrow> unat seq < length vers \<Longrightarrow> visible lv vers \<le> unat seq \<Longrightarrow>
   recent_loop db lv key n seq =
     Inr (if 0 < visible lv vers \<and> unat seq < visible lv vers + n then Inl (of_nat (visible lv vers - 1)) else Inr (of_nat (unat seq - n)))"
proof (induction n arbitrary: seq)
  case (Suc n)
  show ?case
  proof (cases "seq > 0")
    case True
    then have u: "unat (seq - 1) = unat seq - 1" "0 < unat seq" using unat_minus_one [of seq] by (auto simp: unat_gt_0)
    have g: "get_txn_ver_by_seq_num db key (seq - 1) = Inr (vers ! (unat seq - 1))"
      using get_txn_ver_index [OF Suc.prems(1), of "seq - 1"] Suc.prems(2) u by simp
    have iff: "vers ! (unat seq - 1) \<le> lv \<longleftrightarrow> unat seq - 1 < visible lv vers"
      using Suc.prems by (intro visible_iff) (auto simp: key_index_def)
    show ?thesis
    proof (cases "unat seq - 1 < visible lv vers")
      case in_: True
      then have "visible lv vers = unat seq" using Suc.prems(3) u by simp
      moreover have "of_nat (unat seq - 1) = seq - 1" using u(1) by (metis unat_word_inverse)
      ultimately show ?thesis using True g iff in_ u by (simp add: Let_def)
    next
      case out: False
      with Suc.IH [OF Suc.prems(1), of "seq - 1"] Suc.prems(2) u True g iff show ?thesis
        by (auto simp: Let_def)
    qed
  next
    case False
    then have "seq = 0" by (simp add: word_gt_0)
    with Suc.prems(3) show ?thesis by simp
  qed
qed simp

lemma binary_search_eq:
  "key_index db key vers \<Longrightarrow> lower \<le> upper \<Longrightarrow> unat upper < length vers \<Longrightarrow> unat lower < visible lv vers \<or> lower = 0 \<Longrightarrow>
   visible lv vers \<le> Suc (unat upper) \<Longrightarrow> binary_search db lv key lower upper = Inr (of_nat (visible lv vers - 1))"
proof (induction db lv key lower upper rule: binary_search.induct)
  case (1 db lv key lower upper)
  show ?case
  proof (cases "lower < upper")
    case True
    define mid where "mid = upper - (upper - lower) div 2"
    have mid: "lower < mid" "mid \<le> upper" "unat (mid - 1) = unat mid - 1" using binary_mid [OF True] by (simp_all add: mid_def)
    then have m: "unat lower < unat mid" "unat mid \<le> unat upper" by (simp_all add: word_less_nat_alt word_le_nat_alt)
    have ml: "unat mid < length vers" using m "1.prems"(3) by linarith
    have g: "get_txn_ver_by_seq_num db key mid = Inr (vers ! unat mid)" using "1.prems"(1) ml by (rule get_txn_ver_index)
    have iff: "vers ! unat mid \<le> lv \<longleftrightarrow> unat mid < visible lv vers"
      using "1.prems"(1) ml by (intro visible_iff) (auto simp: key_index_def)
    show ?thesis
    proof (cases "unat mid < visible lv vers")
      case in_: True
      have "binary_search db lv key mid upper = Inr (of_nat (visible lv vers - 1))"
        using "1.IH"(1) [OF True mid_def g] iff in_ mid "1.prems" by simp
      with True g iff in_ show ?thesis by (subst binary_search.simps) (simp add: mid_def [symmetric] Let_def)
    next
      case out: False
      have "lower \<le> mid - 1" using m mid(3) by (simp add: word_le_nat_alt)
      then have "binary_search db lv key lower (mid - 1) = Inr (of_nat (visible lv vers - 1))"
        using "1.IH"(2) [OF True mid_def g] iff out mid m ml "1.prems" by simp
      with True g iff out show ?thesis by (subst binary_search.simps) (simp add: mid_def [symmetric] Let_def)
    qed
  next
    case False
    then have e: "lower = upper" using "1.prems"(2) by simp
    have "unat upper = visible lv vers - 1" using "1.prems"(4,5) e by (auto simp: le_Suc_eq)
    with e have "of_nat (visible lv vers - 1) = lower" by (metis unat_word_inverse)
    with False show ?thesis by (subst binary_search.simps) simp
  qed
qed

lemma latest_sequence_number:
  assumes k: "key_index db key vers"
  shows "get_latest_sequence_number db lv key =
    Inr (if vers = [] then None else Some (of_nat (visible lv vers - 1)))"
proof (cases "vers = []")
  case True
  have "bget (col_event_by_key db) (key, seq) = None" for seq using k True by (simp add: key_index_def)
  then have no: "fst (fst e) \<noteq> key" if "e \<in> set (bentries (col_event_by_key db))" for e
    using that by (metis bget_Some_iff option.distinct(1) prod.collapse)
  show ?thesis
  proof (cases rule: bseek_for_prev_cases [of "col_event_by_key db" "(key, NOT 0)"])
    case (some e rest)
    with no [of e] True show ?thesis by (cases e) (auto simp: get_latest_sequence_number_def)
  qed (use True in \<open>simp add: get_latest_sequence_number_def\<close>)
next
  case False
  define n where "n = length vers - 1"
  have n: "n < length vers" using False by (simp add: n_def)
  moreover have "length vers < 2 ^ 64" using k by (simp add: key_index_def)
  ultimately have n: "n < length vers" "n < 2 ^ 64" by simp_all
  have un: "unat (of_nat n :: u64) = n" using n by (intro unat_of_nat_u64)
  have "map_option fst (bget (col_event_by_key db) (key, of_nat n)) = Some (vers ! n)" using k n un by (simp add: key_index_def)
  then obtain i where i: "((key, of_nat n), (vers ! n, i)) \<in> set (bentries (col_event_by_key db))"
    by (auto simp: bget_Some_iff)
  have le: "(key, seq) \<le> (key, NOT 0)" for seq :: u64 by simp
  have "\<exists>rest. bseek_for_prev (col_event_by_key db) (key, NOT 0) = ((key, of_nat n), (vers ! n, i)) # rest"
  proof (cases rule: bseek_for_prev_cases [of "col_event_by_key db" "(key, NOT 0)"])
    case none
    from none(2) [OF i] le [of "of_nat n"] show ?thesis by simp
  next
    case (some e rest)
    from some(4) [OF i] le have ge: "(key, of_nat n) \<le> fst e" by simp
    with some(3) have key: "fst (fst e) = key" by (cases e) auto
    have "bget (col_event_by_key db) (fst e) = Some (snd e)" using some(2) by (simp add: bget_Some_iff)
    then have "map_option fst (bget (col_event_by_key db) (key, snd (fst e))) \<noteq> None" using key by (metis option.map_disc_iff option.distinct(1) prod.collapse)
    then have "unat (snd (fst e)) < length vers" using k by (auto simp: key_index_def split: if_splits)
    moreover have "n \<le> unat (snd (fst e))" using ge key un by (cases e) (auto simp: word_le_nat_alt)
    ultimately have "snd (fst e) = of_nat n" by (metis One_nat_def Suc_leI diff_le_mono diff_Suc_1 le_antisym n_def unat_word_inverse)
    with key have "fst e = (key, of_nat n)" by (metis prod.collapse)
    with some(2) i have "e = ((key, of_nat n), (vers ! n, i))"
      by (metis bget_Some_iff option.inject prod.collapse)
    with some(1) show ?thesis by blast
  qed
  then obtain rest where b: "bseek_for_prev (col_event_by_key db) (key, NOT 0) = ((key, of_nat n), (vers ! n, i)) # rest" by blast
  have iff: "vers ! n \<le> lv \<longleftrightarrow> n < visible lv vers" using k n by (intro visible_iff) (auto simp: key_index_def)
  have vl: "visible lv vers \<le> Suc n" using visible_le [of lv vers] by (simp add: n_def)
  show ?thesis
  proof (cases "n < visible lv vers")
    case True
    then have "visible lv vers - 1 = n" using vl by simp
    with True b iff False show ?thesis by (simp add: get_latest_sequence_number_def)
  next
    case out: False
    have r: "recent_loop db lv key 10 (of_nat n) =
        Inr (if 0 < visible lv vers \<and> n < visible lv vers + 10 then Inl (of_nat (visible lv vers - 1)) else Inr (of_nat (n - 10)))"
      using recent_loop_eq [OF k, of "of_nat n" lv 10] n un out by simp
    have u10: "unat (of_nat (n - 10) :: u64) = n - 10" using n by (intro unat_of_nat_u64) simp
    have "binary_search db lv key 0 (of_nat (n - 10)) = Inr (of_nat (visible lv vers - 1))"
      if "\<not> (0 < visible lv vers \<and> n < visible lv vers + 10)"
      using that u10 n(1) by (intro binary_search_eq [OF k]) auto
    with b iff out False r show ?thesis by (simp add: get_latest_sequence_number_def)
  qed
qed

section \<open>The events of all versions\<close>

text \<open>What reading the database gives once the change set is written.\<close>

definition overlay :: "'p change_set \<Rightarrow> 'p db_columns \<Rightarrow> 'p db_columns" where
  "overlay cs db = write_schemas (cs_batch cs) db"

definition flat_events :: "contract_event list list \<Rightarrow> ((version \<times> u64) \<times> contract_event) list" where
  "flat_events evs = concat (map (\<lambda>v. event_rows (of_nat v) (evs ! v)) [0..<length evs])"

lemma flat_events_snoc: "flat_events (evs @ [es]) = flat_events evs @ event_rows (of_nat (length evs)) es"
proof -
  have "map (\<lambda>v. event_rows (of_nat v) ((evs @ [es]) ! v)) [0..<length evs] = map (\<lambda>v. event_rows (of_nat v) (evs ! v)) [0..<length evs]"
    by (rule map_cong) (simp_all add: nth_append)
  then have "concat (map (\<lambda>v. event_rows (of_nat v) ((evs @ [es]) ! v)) [0..<length evs]) = flat_events evs"
    by (simp only: flat_events_def)
  then show ?thesis by (simp add: flat_events_def [of "evs @ [es]"])
qed

definition positions_of :: "event_key \<Rightarrow> ((version \<times> u64) \<times> contract_event) list \<Rightarrow> (version \<times> u64) list" where
  "positions_of key flat = map fst (filter (\<lambda>e. ev_key (snd e) = key) flat)"

text \<open>Each event has the next sequence number of its key.\<close>

fun sequenced :: "((version \<times> u64) \<times> contract_event) list \<Rightarrow> ((version \<times> u64) \<times> contract_event) list \<Rightarrow> bool" where
  "sequenced old [] \<longleftrightarrow> True"
| "sequenced old (e # es) \<longleftrightarrow>
     unat (ev_sequence_number (snd e)) = length (positions_of (ev_key (snd e)) old) \<and> sequenced (old @ [e]) es"

definition index_rep :: "(event_key \<times> u64, version \<times> u64) btree_map \<Rightarrow> ((version \<times> u64) \<times> contract_event) list \<Rightarrow> bool" where
  "index_rep col flat \<longleftrightarrow>
     (\<forall>key seq. bget col (key, seq) =
        (if unat seq < length (positions_of key flat) then Some (positions_of key flat ! unat seq) else None))"

lemma sequenced_append: "sequenced old (xs @ ys) \<longleftrightarrow> sequenced old xs \<and> sequenced (old @ xs) ys"
  by (induction xs arbitrary: old) auto

lemma sequenced_position:
  "sequenced [] flat \<Longrightarrow> s < length (positions_of key flat) \<Longrightarrow>
   \<exists>e. (positions_of key flat ! s, e) \<in> set flat \<and> ev_key e = key \<and> unat (ev_sequence_number e) = s"
proof (induction flat rule: rev_induct)
  case (snoc x flat)
  have p: "positions_of key (flat @ [x]) = positions_of key flat @ (if ev_key (snd x) = key then [fst x] else [])"
    by (simp add: positions_of_def)
  from snoc.prems(1) have q: "sequenced [] flat" "unat (ev_sequence_number (snd x)) = length (positions_of (ev_key (snd x)) flat)"
    by (simp_all add: sequenced_append)
  show ?case
  proof (cases "s < length (positions_of key flat)")
    case True
    with snoc.IH [OF q(1)] p show ?thesis by (auto simp: nth_append)
  next
    case False
    with snoc.prems(2) p have "ev_key (snd x) = key" "s = length (positions_of key flat)" by (auto split: if_splits)
    with p q(2) show ?thesis by (intro exI [of _ "snd x"]) simp
  qed
qed (simp add: positions_of_def)

lemma index_rep_put:
  "index_rep col flat \<Longrightarrow> sequenced flat rows \<Longrightarrow>
   index_rep (put_all (map (\<lambda>(p, e). ((ev_key e, ev_sequence_number e), p)) rows) col) (flat @ rows)"
proof (induction rows arbitrary: col flat)
  case (Cons r rows)
  obtain p e where r: "r = (p, e)" by (cases r)
  have "index_rep (binsert (ev_key e, ev_sequence_number e) p col) (flat @ [r])"
    unfolding index_rep_def
  proof (intro allI)
    fix key seq
    have "bget col (key, seq) = (if unat seq < length (positions_of key flat) then Some (positions_of key flat ! unat seq) else None)"
      using Cons.prems(1) by (simp add: index_rep_def)
    moreover have "positions_of key (flat @ [r]) = positions_of key flat @ (if ev_key e = key then [p] else [])"
      by (simp add: positions_of_def r)
    moreover have "seq = ev_sequence_number e \<longleftrightarrow> unat seq = length (positions_of (ev_key e) flat)"
      using Cons.prems(2) r by (auto simp: word_unat_eq_iff)
    ultimately show "bget (binsert (ev_key e, ev_sequence_number e) p col) (key, seq) =
        (if unat seq < length (positions_of key (flat @ [r])) then Some (positions_of key (flat @ [r]) ! unat seq) else None)"
      by (auto simp: bget_binsert nth_append)
  qed
  from Cons.IH [OF this] Cons.prems(2) r show ?case by (simp add: put_all_simps)
qed (simp add: put_all_simps)

definition events_rep :: "'p proof_hashers \<Rightarrow> 'p db_columns \<Rightarrow> contract_event list list \<Rightarrow> bool" where
  "events_rep K db evs \<longleftrightarrow>
     length evs < 2 ^ 64 \<and> (\<forall>es \<in> set evs. length es \<le> 2 ^ 62) \<and>
     bentries (col_event db) = flat_events evs \<and>
     sequenced [] (flat_events evs) \<and> index_rep (col_event_by_key db) (flat_events evs) \<and>
     (\<forall>v < length evs. reads_frozen (h_event_accumulator K) (map (h_event K) (evs ! v)) (event_hash_reader db (of_nat v)))"

lemma events_rep_empty: "events_rep K columns_empty []"
  by (simp add: events_rep_def columns_empty_def flat_events_def index_rep_def positions_of_def)

lemma in_event_rows: "e \<in> set (event_rows ver es) \<longleftrightarrow> (\<exists>i < length es. e = ((ver, of_nat i), es ! i))"
  by (auto simp: event_rows_def in_set_enumerate_eq)

lemma in_flat_events: "e \<in> set (flat_events evs) \<longleftrightarrow> (\<exists>v < length evs. \<exists>i < length (evs ! v). e = ((of_nat v, of_nat i), evs ! v ! i))"
  by (auto simp: flat_events_def in_event_rows)

lemma put_all_append_greater:
  "sorted_keys rows \<Longrightarrow> (\<And>e r. e \<in> set (bentries col) \<Longrightarrow> r \<in> set rows \<Longrightarrow> fst e < fst r) \<Longrightarrow>
   bentries (put_all rows col) = bentries col @ rows"
proof (induction rows arbitrary: col)
  case (Cons r rows)
  have e: "bentries (binsert (fst r) (snd r) col) = bentries col @ [r]"
    using Cons.prems(2) by (simp add: ins_entry_last)
  have "bentries (put_all rows (binsert (fst r) (snd r) col)) = bentries (binsert (fst r) (snd r) col) @ rows"
  proof (rule Cons.IH)
    show "sorted_keys rows" using Cons.prems(1) by (simp add: sorted_keys_def)
    show "fst e < fst s" if "e \<in> set (bentries (binsert (fst r) (snd r) col))" "s \<in> set rows" for e s
    proof -
      have "e \<in> set (bentries col) \<or> e = r" using that(1) unfolding e by auto
      then show ?thesis using Cons.prems(1) Cons.prems(2) [of e s] that(2) by (auto simp: sorted_keys_def)
    qed
  qed
  with e show ?case by (simp add: put_all_simps)
qed (simp add: put_all_simps)

lemma sorted_event_rows: "length es \<le> 2 ^ 62 \<Longrightarrow> sorted_keys (event_rows ver es)"
proof -
  assume l: "length es \<le> 2 ^ 62"
  have "unat (of_nat i :: u64) < unat (of_nat j :: u64)" if "i < j" "j < length es" for i j
    using that l unat_of_nat_u64 [of i] unat_of_nat_u64 [of j] by simp
  then show ?thesis
    by (simp add: sorted_keys_def sorted_wrt_iff_nth_less event_rows_def nth_enumerate_eq word_less_nat_alt)
qed

lemma reads_frozen_mono:
  "reads_frozen H xs r \<Longrightarrow> (\<And>pos h. r pos = Inr h \<Longrightarrow> r' pos = Inr h) \<Longrightarrow> reads_frozen H xs r'"
  by (simp add: reads_frozen_def)

lemma event_nodes_read:
  fixes col :: "(version \<times> position, hash_value) btree_map"
  shows "bget (put_all (map (\<lambda>(pos, hash). ((ver, pos), hash)) writes) col) (ver, pos) =
     (case bget (put_nodes writes bempty) pos of Some h \<Rightarrow> Some h | None \<Rightarrow> bget col (ver, pos))"
    and "v \<noteq> ver \<Longrightarrow> bget (put_all (map (\<lambda>(pos, hash). ((ver, pos), hash)) writes) col) (v, pos) = bget col (v, pos)"
proof -
  have "map_of (map (\<lambda>(pos, hash). ((ver, pos), hash)) ws) (ver, pos) = map_of ws pos" for ws :: "node list"
    by (induction ws) auto
  then have "map_of (rev (map (\<lambda>(pos, hash). ((ver, pos), hash)) writes)) (ver, pos) = map_of (rev writes) pos"
    by (simp add: rev_map)
  then show "bget (put_all (map (\<lambda>(pos, hash). ((ver, pos), hash)) writes) col) (ver, pos) =
     (case bget (put_nodes writes bempty) pos of Some h \<Rightarrow> Some h | None \<Rightarrow> bget col (ver, pos))"
    by (simp add: put_all_def put_nodes_def bget_fold_binsert map_add_def split: option.split)
  show "v \<noteq> ver \<Longrightarrow> bget (put_all (map (\<lambda>(pos, hash). ((ver, pos), hash)) writes) col) (v, pos) = bget col (v, pos)"
    by (rule bget_put_all_other) auto
qed

lemma event_by_key_rows_eq:
  "event_by_key_rows ver es = map (\<lambda>(p, e). ((ev_key e, ev_sequence_number e), p)) (event_rows ver es)"
  by (simp add: event_by_key_rows_def event_rows_def comp_def case_prod_unfold)

text \<open>Batches that differ in the columns of the events.\<close>

definition events_only :: "'p schema_batch \<Rightarrow> 'p schema_batch \<Rightarrow> bool" where
  "events_only b b' \<longleftrightarrow>
     b' = b\<lparr>col_event := col_event b', col_event_by_key := col_event_by_key b', col_event_accumulator := col_event_accumulator b'\<rparr>"

lemma events_only_refl: "events_only b b"
  by (simp add: events_only_def)

lemma events_only_trans: "events_only a b \<Longrightarrow> events_only b c \<Longrightarrow> events_only a c"
  unfolding events_only_def by (cases a; cases b; cases c) simp

lemma put_events_rep:
  assumes r: "events_rep K (overlay cs db) evs" and l: "Suc (length evs) < 2 ^ 64" "length es \<le> 2 ^ 62"
    and q: "sequenced (flat_events evs) (event_rows (of_nat (length evs)) es)"
  obtains cs' where "put_events K (of_nat (length evs)) es cs = Inr (tree_root (h_event_accumulator K) (map (h_event K) es), cs')"
    "events_rep K (overlay cs' db) (evs @ [es])"
    "events_only (cs_batch cs) (cs_batch cs')"
proof -
  let ?v = "of_nat (length evs) :: version" and ?H = "h_event_accumulator K"
  let ?ns = "map (tree_node ?H (map (h_event K) es)) (concat (map leaf_freezes [0..<length es]))"
  let ?b = "\<lambda>b. b\<lparr>col_event := put_all (event_rows ?v es) (col_event b),
      col_event_by_key := put_all (event_by_key_rows ?v es) (col_event_by_key b),
      col_event_accumulator := put_all (map (\<lambda>(pos, hash). ((?v, pos), hash)) ?ns) (col_event_accumulator b)\<rparr>"
  define cs' where "cs' = batch_update ?b (cs_bump EventsCreated (of_nat (length es)) cs)"
  have "merkle_accumulator_append ?H empty_reader 0 (map (h_event K) es) = Inr (tree_root ?H (map (h_event K) es), ?ns)"
    using view_append_tree [OF reads_frozen_Nil, of "map (h_event K) es" ?H empty_reader] accumulator_view_tree [of empty_reader "[]"] l
    by (simp add: merkle_accumulator_append_def)
  then have p: "put_events K ?v es cs = Inr (tree_root ?H (map (h_event K) es), cs')"
    by (simp add: put_events_def Let_def cs'_def batch_update_def cs_bump_def)
  have cols: "col_event (overlay cs' db) = put_all (event_rows ?v es) (col_event (overlay cs db))"
    "col_event_by_key (overlay cs' db) = put_all (event_by_key_rows ?v es) (col_event_by_key (overlay cs db))"
    "col_event_accumulator (overlay cs' db) =
       put_all (map (\<lambda>(pos, hash). ((?v, pos), hash)) ?ns) (col_event_accumulator (overlay cs db))"
    by (simp_all add: overlay_def write_schemas_def cs'_def batch_update_def cs_bump_def write_rows_put)
  have "fst e < fst x" if "e \<in> set (flat_events evs)" "x \<in> set (event_rows ?v es)" for e x
  proof -
    obtain u i where u: "u < length evs" "e = ((of_nat u, of_nat i), evs ! u ! i)" using \<open>e \<in> _\<close> unfolding in_flat_events by blast
    obtain j where x: "x = ((?v, of_nat j), es ! j)" using \<open>x \<in> _\<close> unfolding in_event_rows by blast
    have "(of_nat u :: u64) < ?v" using u(1) l unat_of_nat_u64 [of u] unat_of_nat_u64 [of "length evs"] by (simp add: word_less_nat_alt)
    then show ?thesis by (simp add: u(2) x)
  qed
  then have e: "bentries (col_event (overlay cs' db)) = flat_events (evs @ [es])"
    unfolding cols flat_events_snoc
    using put_all_append_greater [OF sorted_event_rows [OF l(2)], of "col_event (overlay cs db)" ?v] r by (simp add: events_rep_def)
  have k: "index_rep (col_event_by_key (overlay cs' db)) (flat_events (evs @ [es]))"
    unfolding cols flat_events_snoc event_by_key_rows_eq using r q by (intro index_rep_put) (simp_all add: events_rep_def)
  have f: "reads_frozen ?H (map (h_event K) ((evs @ [es]) ! v)) (event_hash_reader (overlay cs' db) (of_nat v))" if "v < length (evs @ [es])" for v
  proof (cases "v = length evs")
    case True
    have "reads_frozen ?H ([] @ map (h_event K) es) (column_reader ''Hash at position not found.'' (put_nodes ?ns bempty))"
      using reads_frozen_put_nodes [OF reads_frozen_Nil, of "map (h_event K) es" ?H] l by simp
    then show ?thesis using True
      by (simp, elim reads_frozen_mono)
        (simp add: event_hash_reader_def column_reader_def cols event_nodes_read(1) ok_or_eq_Inr del: map_map)
  next
    case False
    then have v: "v < length evs" using that by simp
    then have "(of_nat v :: u64) \<noteq> ?v" using l unat_of_nat_u64 [of v] unat_of_nat_u64 [of "length evs"] by (metis Suc_lessD less_not_refl less_trans)
    then have "event_hash_reader (overlay cs' db) (of_nat v) = event_hash_reader (overlay cs db) (of_nat v)"
      by (simp add: event_hash_reader_def fun_eq_iff cols event_nodes_read(2) del: map_map)
    with r v show ?thesis by (simp add: events_rep_def nth_append)
  qed
  have "sequenced [] (flat_events (evs @ [es]))" using r q by (simp add: flat_events_snoc sequenced_append events_rep_def)
  then have "events_rep K (overlay cs' db) (evs @ [es])" using e k f r l by (simp add: events_rep_def)
  moreover have "cs_batch cs' = ?b (cs_batch cs)" by (simp add: cs'_def batch_update_def cs_bump_def)
  then have "events_only (cs_batch cs) (cs_batch cs')" by (simp add: events_only_def)
  ultimately show thesis using that p by blast
qed

section \<open>Reading events\<close>

lemma flat_events_split:
  assumes "v < length evs"
  obtains later where "flat_events evs = flat_events (take v evs) @ event_rows (of_nat v) (evs ! v) @ later"
    "\<And>e. e \<in> set later \<Longrightarrow> \<exists>u. v < u \<and> u < length evs \<and> fst (fst e) = of_nat u"
proof -
  let ?r = "\<lambda>u. event_rows (of_nat u) (evs ! u)"
  have "[0..<length evs] = [0..<v] @ v # [Suc v..<length evs]" using assms upt_split [of v "length evs"] upt_conv_Cons [of v] by simp
  then have f: "flat_events evs = concat (map ?r [0..<v]) @ ?r v @ concat (map ?r [Suc v..<length evs])"
    by (simp add: flat_events_def)
  have "map (\<lambda>u. event_rows (of_nat u) (take v evs ! u)) [0..<v] = map ?r [0..<v]"
    by (rule map_cong) simp_all
  then have "flat_events (take v evs) = concat (map ?r [0..<v])" using assms by (simp add: flat_events_def min_absorb2 del: map_eq_conv)
  with f have "flat_events evs = flat_events (take v evs) @ ?r v @ concat (map ?r [Suc v..<length evs])" by (simp only:)
  moreover have "\<exists>u. v < u \<and> u < length evs \<and> fst (fst e) = of_nat u" if "e \<in> set (concat (map ?r [Suc v..<length evs]))" for e
  proof -
    from that obtain u where "u \<in> {Suc v..<length evs}" "e \<in> set (?r u)" by auto
    then show ?thesis unfolding in_event_rows by (intro exI [of _ u]) auto
  qed
  ultimately show thesis by (rule that)
qed

lemma of_nat_less_u64: "i < j \<Longrightarrow> j < 2 ^ 64 \<Longrightarrow> (of_nat i :: u64) < of_nat j"
  using unat_of_nat_u64 [of i] unat_of_nat_u64 [of j] by (simp add: word_less_nat_alt)

lemma flat_events_less: "length evs < 2 ^ 64 \<Longrightarrow> v \<le> length evs \<Longrightarrow> e \<in> set (flat_events (take v evs)) \<Longrightarrow> fst (fst e) < of_nat v"
proof -
  assume l: "length evs < 2 ^ 64" "v \<le> length evs" and e: "e \<in> set (flat_events (take v evs))"
  from e obtain u i where u: "u < length (take v evs)" "e = ((of_nat u, of_nat i), take v evs ! u ! i)" unfolding in_flat_events by blast
  then have "u < v" by simp
  then have "(of_nat u :: u64) < of_nat v" using l by (intro of_nat_less_u64) simp_all
  with u show ?thesis by simp
qed

lemma later_rows:
  assumes "length evs < 2 ^ 64" "\<And>e. e \<in> set later \<Longrightarrow> \<exists>u. v < u \<and> u < length evs \<and> fst (fst e) = (of_nat u :: version)"
    and "e \<in> set later"
  shows "of_nat v < fst (fst e)"
proof -
  from assms(2) [OF assms(3)] obtain u where "v < u" "u < length evs" "fst (fst e) = of_nat u" by blast
  then show ?thesis using assms(1) of_nat_less_u64 [of v u] by simp
qed

lemma get_events_by_version_rep:
  assumes r: "events_rep K db evs" and v: "v < length evs"
  shows "get_events_by_version db (of_nat v) = evs ! v"
proof -
  have l: "length evs < 2 ^ 64" and b: "bentries (col_event db) = flat_events evs" using r by (simp_all add: events_rep_def)
  obtain later where f: "flat_events evs = flat_events (take v evs) @ event_rows (of_nat v) (evs ! v) @ later"
    and lt: "\<And>e. e \<in> set later \<Longrightarrow> \<exists>u. v < u \<and> u < length evs \<and> fst (fst e) = of_nat u"
    using flat_events_split [OF v] by blast
  note gt = later_rows [OF l lt]
  have z: "(of_nat v, 0) \<le> fst e \<longleftrightarrow> \<not> fst (fst e) < of_nat v" for e :: "(version \<times> u64) \<times> contract_event"
    by (cases e) auto
  have "filter (\<lambda>e. (of_nat v, 0) \<le> fst e) (flat_events (take v evs)) = []"
    using flat_events_less [OF l] v by (auto simp: filter_empty_conv z less_imp_le)
  moreover have "filter (\<lambda>e. (of_nat v, 0) \<le> fst e) (event_rows (of_nat v) (evs ! v)) = event_rows (of_nat v) (evs ! v)"
    by (auto simp: filter_id_conv z in_event_rows)
  moreover have "filter (\<lambda>e. (of_nat v, 0) \<le> fst e) later = later"
    using gt by (fastforce simp: filter_id_conv z)
  ultimately have "bseek (col_event db) (of_nat v, 0) = event_rows (of_nat v) (evs ! v) @ later"
    by (simp only: bseek_def b f filter_append append_Nil)
  moreover have "takeWhile (\<lambda>e. fst (fst e) = of_nat v) (event_rows (of_nat v) (evs ! v) @ later) = event_rows (of_nat v) (evs ! v)"
  proof (subst takeWhile_append2)
    show "fst (fst e) = of_nat v" if "e \<in> set (event_rows (of_nat v) (evs ! v))" for e using that by (auto simp: in_event_rows)
    have "takeWhile (\<lambda>e. fst (fst e) = of_nat v) later = []" using gt by (cases later) fastforce+
    then show "event_rows (of_nat v) (evs ! v) @ takeWhile (\<lambda>e. fst (fst e) = of_nat v) later = event_rows (of_nat v) (evs ! v)" by simp
  qed
  ultimately show ?thesis by (simp add: get_events_by_version_def event_rows_def comp_def case_prod_unfold)
qed

lemma last_event_row:
  assumes "es \<noteq> []"
  shows "last (event_rows ver es) = ((ver, of_nat (length es - 1)), last es)" "event_rows ver es \<noteq> []"
proof -
  have l: "length (event_rows ver es) = length es" by (simp add: event_rows_def)
  with assms show ne: "event_rows ver es \<noteq> []" by auto
  have "event_rows ver es ! (length es - 1) = ((ver, of_nat (length es - 1)), es ! (length es - 1))"
    using assms by (simp add: event_rows_def nth_enumerate_eq)
  with l show "last (event_rows ver es) = ((ver, of_nat (length es - 1)), last es)"
    using last_conv_nth [OF ne] last_conv_nth [OF assms] by simp
qed

lemma event_proof_generated_tree:
  assumes r: "events_rep K db evs" and v: "v < length evs" "Suc (length evs) < 2 ^ 64" and i: "i < length (evs ! v)"
  shows "get_event_with_proof_by_version_and_index K db (of_nat v) (of_nat i) =
    Inr (evs ! v ! i, \<lparr>ap_siblings = tree_siblings (h_event_accumulator K) (map (h_event K) (evs ! v)) i\<rparr>)"
proof -
  let ?es = "evs ! v" and ?v = "of_nat v :: version"
  have l: "length evs < 2 ^ 64" and b: "bentries (col_event db) = flat_events evs" using r by (simp_all add: events_rep_def)
  have n: "length ?es \<le> 2 ^ 62" using r v by (simp add: events_rep_def)
  have get: "bget (col_event db) (?v, of_nat i) = Some (?es ! i)"
    unfolding bget_Some_iff b in_flat_events using v i by blast
  obtain later where f: "flat_events evs = flat_events (take v evs) @ event_rows ?v ?es @ later"
    and lt: "\<And>e. e \<in> set later \<Longrightarrow> \<exists>u. v < u \<and> u < length evs \<and> fst (fst e) = of_nat u"
    using flat_events_split [OF v(1)] by blast
  note gt = later_rows [OF l lt]
  have v1: "?v + 1 = of_nat (Suc v)" by simp
  have uv: "unat (?v + 1) = Suc (unat ?v)" "unat ?v = v"
    unfolding v1 using v unat_of_nat_u64 [of v] unat_of_nat_u64 [of "Suc v"] by simp_all
  have z: "fst e < (?v + 1, 0) \<longleftrightarrow> \<not> ?v < fst (fst e)" for e :: "(version \<times> u64) \<times> contract_event"
    by (cases e) (auto simp: word_less_nat_alt uv)
  have "filter (\<lambda>e. fst e < (?v + 1, 0)) (flat_events (take v evs)) = flat_events (take v evs)"
    using flat_events_less [OF l, of v] v by (fastforce simp: filter_id_conv z)
  moreover have "filter (\<lambda>e. fst e < (?v + 1, 0)) (event_rows ?v ?es) = event_rows ?v ?es"
    by (auto simp: filter_id_conv z in_event_rows)
  moreover have "filter (\<lambda>e. fst e < (?v + 1, 0)) later = []" using gt by (simp add: filter_empty_conv z)
  ultimately have flt: "filter (\<lambda>e. fst e < (?v + 1, 0)) (bentries (col_event db)) = flat_events (take v evs) @ event_rows ?v ?es"
    by (simp only: b f filter_append append_Nil2)
  have ne: "?es \<noteq> []" using i by auto
  define e where "e = ((?v, of_nat (length ?es - 1)) :: version \<times> u64, last ?es)"
  have "vec_pop (flat_events (take v evs) @ event_rows ?v ?es) = Some (e, butlast (flat_events (take v evs) @ event_rows ?v ?es))"
    using last_event_row [OF ne, of ?v] by (simp add: vec_pop_def e_def)
  then have sb: "bseek_before (col_event db) (?v + 1, 0) = bseek (col_event db) (fst e)"
    unfolding bseek_before_def flt by simp
  have em: "e \<in> set (bentries (col_event db))"
    unfolding b f e_def using last_event_row [OF ne, of ?v] last_in_set [of "event_rows ?v ?es"] by simp
  have "\<exists>rest. bseek (col_event db) (fst e) = e # rest"
  proof -
    have m: "e \<in> set (bseek (col_event db) (fst e))" using em by (simp add: bseek_def)
    then obtain e' rest where h: "bseek (col_event db) (fst e) = e' # rest" by (cases "bseek (col_event db) (fst e)") auto
    have "e' \<in> set (bseek (col_event db) (fst e))" using h by simp
    then have ge: "fst e \<le> fst e'" by (simp add: bseek_def)
    have "sorted_keys (bseek (col_event db) (fst e))" unfolding bseek_def by (rule sorted_keys_filter) simp
    with h m ge have "e' = e" by (auto simp: sorted_keys_def)
    with h show ?thesis by blast
  qed
  then obtain rest where sb': "bseek_before (col_event db) (?v + 1, 0) = e # rest" using sb by auto
  have num: "1 + (of_nat (length ?es - Suc 0) :: u64) = of_nat (length ?es)"
    using ne by (metis One_nat_def Suc_pred length_greater_0_conv of_nat_Suc)
  have fr: "reads_frozen (h_event_accumulator K) (map (h_event K) ?es) (event_hash_reader db ?v)" using r v by (simp add: events_rep_def)
  have ui: "unat (of_nat i :: u64) = i" using i n by (intro unat_of_nat_u64) simp
  have "merkle_accumulator_get_proof (h_event_accumulator K) (event_hash_reader db ?v) (of_nat (length ?es)) (of_nat i) =
      Inr \<lparr>ap_siblings = tree_siblings (h_event_accumulator K) (map (h_event K) ?es) i\<rparr>"
    using get_proof_tree [OF fr, of "of_nat i"] ui i n accumulator_view_tree [of "event_hash_reader db ?v" "map (h_event K) ?es"]
    by (simp add: merkle_accumulator_get_proof_def)
  with get sb' num show ?thesis
    by (simp add: get_event_with_proof_by_version_and_index_def e_def add.commute)
qed

lemma sorted_split:
  "sorted_keys xs \<Longrightarrow> (\<And>x y. x \<in> set xs \<Longrightarrow> y \<in> set xs \<Longrightarrow> fst x < fst y \<Longrightarrow> P y \<Longrightarrow> P x) \<Longrightarrow>
   xs = filter P xs @ filter (\<lambda>x. \<not> P x) xs"
proof (induction xs)
  case (Cons x xs)
  have s: "sorted_keys xs" "\<And>y. y \<in> set xs \<Longrightarrow> fst x < fst y" using Cons.prems(1) by (auto simp: sorted_keys_def)
  have IH: "xs = filter P xs @ filter (\<lambda>x. \<not> P x) xs"
  proof (rule Cons.IH [OF s(1)])
    show "P a" if "a \<in> set xs" "b \<in> set xs" "fst a < fst b" "P b" for a b
      using Cons.prems(2) [of a b] that by simp
  qed
  show ?case
  proof (cases "P x")
    case False
    have "\<not> P y" if "y \<in> set xs" for y
      using Cons.prems(2) [of x y] that s(2) [OF that] False by auto
    then have "filter P xs = []" "filter (\<lambda>x. \<not> P x) xs = xs" by (auto simp: filter_empty_conv filter_id_conv)
    with False show ?thesis by simp
  qed (use IH in simp)
qed simp

lemma sorted_keys_set_eq: "sorted_keys xs \<Longrightarrow> sorted_keys ys \<Longrightarrow> set xs = set ys \<Longrightarrow> xs = ys"
  by (rule sorted_keys_ext) (auto intro!: map_of_inject_set [THEN iffD2] simp: sorted_keys_distinct)

lemma index_seek:
  assumes r: "index_rep col flat" and n: "length (positions_of key flat) < 2 ^ 64"
  obtains later where "bseek col (key, start) =
      map (\<lambda>s. ((key, of_nat s), positions_of key flat ! s)) [unat start..<length (positions_of key flat)] @ later"
    "\<And>e. e \<in> set later \<Longrightarrow> fst (fst e) \<noteq> key"
proof -
  let ?ps = "positions_of key flat"
  let ?l = "bseek col (key, start)" and ?P = "\<lambda>e :: (event_key \<times> u64) \<times> (version \<times> u64). fst (fst e) = key"
  let ?m = "map (\<lambda>s. ((key, of_nat s), ?ps ! s)) [unat start..<length ?ps] :: ((event_key \<times> u64) \<times> (version \<times> u64)) list"
  have s: "sorted_keys ?l" unfolding bseek_def by (rule sorted_keys_filter) simp
  have ge: "key \<le> fst (fst e)" if "e \<in> set ?l" for e
  proof -
    from that have "(key, start) \<le> fst e" by (simp add: bseek_def)
    then show ?thesis by (auto simp: less_eq_prod_def)
  qed
  have split: "?l = filter ?P ?l @ filter (\<lambda>x. \<not> ?P x) ?l"
  proof (rule sorted_split [OF s])
    show "?P x" if "x \<in> set ?l" "y \<in> set ?l" "fst x < fst y" "?P y" for x y
    proof -
      have "fst (fst x) \<le> fst (fst y)" using that(3) by (auto simp: less_prod_def')
      with ge [OF that(1)] that(4) show ?thesis by simp
    qed
  qed
  have sm: "sorted_keys ?m"
  proof -
    have "(of_nat i :: u64) < of_nat j" if "i < j" "j < length ?ps" for i j using that n by (intro of_nat_less_u64) simp_all
    then have "sorted_wrt (\<lambda>i j. (of_nat i :: u64) < of_nat j) [unat start..<length ?ps]"
      using sorted_wrt_mono_rel [OF _ sorted_wrt_upt, of "unat start" "length ?ps" "\<lambda>i j. (of_nat i :: u64) < of_nat j"] by simp
    then show ?thesis by (simp add: sorted_keys_def sorted_wrt_map comp_def)
  qed
  have "set (filter ?P ?l) = set ?m"
  proof (rule set_eqI)
    fix e :: "(event_key \<times> u64) \<times> (version \<times> u64)"
    obtain k q p where e: "e = ((k, q), p)" by (cases e) auto
    have "e \<in> set (filter ?P ?l) \<longleftrightarrow> k = key \<and> start \<le> q \<and> bget col (key, q) = Some p"
      by (auto simp: e bseek_def bget_Some_iff)
    also have "\<dots> \<longleftrightarrow> k = key \<and> start \<le> q \<and> unat q < length ?ps \<and> p = ?ps ! unat q"
      using r by (auto simp: index_rep_def)
    also have "\<dots> \<longleftrightarrow> e \<in> set ?m"
    proof
      assume a: "k = key \<and> start \<le> q \<and> unat q < length ?ps \<and> p = ?ps ! unat q"
      then have "e = (\<lambda>s. ((key, of_nat s), ?ps ! s)) (unat q)" "unat q \<in> set [unat start..<length ?ps]"
        by (simp_all add: e word_le_nat_alt)
      then show "e \<in> set ?m" unfolding set_map by (rule image_eqI)
    next
      assume "e \<in> set ?m"
      then obtain t where "unat start \<le> t" "t < length ?ps" "e = ((key, of_nat t), ?ps ! t)" by auto
      then show "k = key \<and> start \<le> q \<and> unat q < length ?ps \<and> p = ?ps ! unat q"
        using n unat_of_nat_u64 [of t] by (simp add: e word_le_nat_alt)
    qed
    finally show "e \<in> set (filter ?P ?l) \<longleftrightarrow> e \<in> set ?m" .
  qed
  moreover have "sorted_keys (filter ?P ?l)" using s by (rule sorted_keys_filter)
  ultimately have "filter ?P ?l = ?m" using sm sorted_keys_set_eq by blast
  with split have "?l = ?m @ filter (\<lambda>x. \<not> ?P x) ?l" by simp
  then show thesis by (rule that) simp
qed

lemma lookup_loop_eq:
  assumes "sorted (map fst ps)" "\<And>e. e \<in> set later \<Longrightarrow> fst (fst e) \<noteq> key"
  shows "lookup_loop key lv (of_nat a) (take n (map (\<lambda>s. ((key, of_nat s), ps ! s)) [a..<length ps] @ later)) =
    Inr (map (\<lambda>s. (of_nat s, ps ! s)) [a..<min (a + n) (visible lv (map fst ps))])"
proof (induction n arbitrary: a)
  case (Suc n)
  let ?c = "visible lv (map fst ps)"
  have c: "?c \<le> length ps" using visible_le [of lv "map fst ps"] by simp
  show ?case
  proof (cases "a < length ps")
    case True
    have iff: "fst (ps ! a) \<le> lv \<longleftrightarrow> a < ?c" using visible_iff [OF assms(1), of a lv] True by simp
    have u: "[a..<length ps] = a # [Suc a..<length ps]" using True by (simp add: upt_conv_Cons)
    show ?thesis
    proof (cases "a < ?c")
      case in_: True
      then have "[a..<min (a + Suc n) ?c] = a # [Suc a..<min (Suc a + n) ?c]" by (simp add: upt_conv_Cons)
      then show ?thesis using Suc.IH [of "Suc a"] in_ iff
        by (simp add: u case_prod_unfold Let_def not_less add.commute del: upt_Suc)
    next
      case False
      then show ?thesis using iff by (simp add: u case_prod_unfold Let_def not_less not_le del: upt_Suc)
    qed
  next
    case False
    then have "lookup_loop key lv (of_nat a) (take (Suc n) later) = Inr []"
      using assms(2) by (cases later) (auto simp: Let_def case_prod_unfold)
    with False c show ?thesis by simp
  qed
qed simp

lemma positions_sorted: "events_rep K db evs \<Longrightarrow> sorted (map fst (positions_of key (flat_events evs)))"
proof -
  assume "events_rep K db evs"
  then have "sorted_keys (flat_events evs)" by (metis events_rep_def sorted_bentries)
  then have "sorted_keys (filter (\<lambda>e. ev_key (snd e) = key) (flat_events evs))" by (rule sorted_keys_filter)
  then have "sorted_wrt (\<lambda>x y. fst (fst x) \<le> fst (fst y)) (filter (\<lambda>e. ev_key (snd e) = key) (flat_events evs))"
    unfolding sorted_keys_def sorted_wrt_map by (rule sorted_wrt_mono_rel [rotated]) (auto simp: less_prod_def')
  then show ?thesis by (simp add: positions_of_def sorted_map comp_def)
qed

lemma lookup_events_eq:
  assumes r: "events_rep K db evs" and n: "length (positions_of key (flat_events evs)) < 2 ^ 64"
  shows "lookup_events_by_key db key start limit lv =
    (let ps = positions_of key (flat_events evs)
     in Inr (map (\<lambda>s. (of_nat s, ps ! s)) [unat start..<min (unat start + unat limit) (visible lv (map fst ps))]))"
proof -
  let ?ps = "positions_of key (flat_events evs)"
  have ir: "index_rep (col_event_by_key db) (flat_events evs)" using r by (simp add: events_rep_def)
  obtain later where b: "bseek (col_event_by_key db) (key, start) =
      map (\<lambda>s. ((key, of_nat s), ?ps ! s)) [unat start..<length ?ps] @ later" and l: "\<And>e. e \<in> set later \<Longrightarrow> fst (fst e) \<noteq> key"
    using index_seek [OF ir n, of start] by blast
  from lookup_loop_eq [OF positions_sorted [OF r] l, where a = "unat start" and n = "unat limit"] b
  show ?thesis by (simp add: lookup_events_by_key_def Let_def)
qed

section \<open>Properties\<close>



end
