(* ===== verification/Libra_Db.thy ===== *)
theory Libra_Db
  imports Event_Store
begin

text \<open>
  LibraDB (\<open>storage/libradb/src/lib.rs\<close>): saving transactions and answering queries with proofs.
  The state store enters through its two operations: \<open>state_put\<close> returns the roots of the account
  states after each transaction and the counters to bump, \<open>state_get\<close> an account with its proof.
\<close>

section \<open>Operations\<close>

definition MAX_LIMIT :: u64 where "MAX_LIMIT = 1000"
definition MAX_NUM_EPOCH_ENDING_LEDGER_INFO :: nat where "MAX_NUM_EPOCH_ENDING_LEDGER_INFO = 100"

definition error_if_too_many_requested :: "u64 \<Rightarrow> u64 \<Rightarrow> unit anyhow" where
  "error_if_too_many_requested num_requested max_allowed =
     (if num_requested > max_allowed then Inl (Err ''Too many items requested'') else Inr ())"

definition get_epoch_ending_ledger_infos_impl ::
    "'p ledger_store \<Rightarrow> u64 \<Rightarrow> u64 \<Rightarrow> nat \<Rightarrow> (ledger_info_with_signatures list \<times> bool) anyhow" where
  "get_epoch_ending_ledger_infos_impl self start_epoch end_epoch limit =
     rbind (ensure (start_epoch \<le> end_epoch) ''Bad epoch range'') (\<lambda>_.
     rbind (get_latest_ledger_info self) (\<lambda>latest.
     let latest_epoch = next_block_epoch (commit_info (lis_ledger_info latest)) in
     rbind (ensure (end_epoch \<le> latest_epoch) ''Unable to provide epoch change ledger info for still open epoch.'') (\<lambda>_.
     let (paging_epoch, more) = (if end_epoch - start_epoch > of_nat limit then (start_epoch + of_nat limit, True) else (end_epoch, False)) in
     rbind (epoch_ending_iter_collect (get_epoch_ending_ledger_info_iter (ls_db self) start_epoch paging_epoch)) (\<lambda>lis.
     rbind (ensure (length lis = unat (paging_epoch - start_epoch)) ''DB corruption: missing epoch ending ledger info'') (\<lambda>_.
     Inr (lis, more))))))"

definition get_epoch_ending_ledger_infos :: "'p ledger_store \<Rightarrow> u64 \<Rightarrow> u64 \<Rightarrow> (ledger_info_with_signatures list \<times> bool) anyhow" where
  "get_epoch_ending_ledger_infos self start_epoch end_epoch =
     get_epoch_ending_ledger_infos_impl self start_epoch end_epoch MAX_NUM_EPOCH_ENDING_LEDGER_INFO"

definition get_transaction_with_proof ::
    "'p proof_hashers \<Rightarrow> 'p db_columns \<Rightarrow> version \<Rightarrow> version \<Rightarrow> bool \<Rightarrow> 'p transaction_with_proof anyhow" where
  "get_transaction_with_proof K db ver ledger_version fetch_events =
     rbind (get_transaction_info_with_proof K db ver ledger_version) (\<lambda>proof.
     rbind (get_transaction db ver) (\<lambda>transaction.
     Inr \<lparr>twp_version = ver, twp_transaction = transaction,
          twp_events = (if fetch_events then Some (get_events_by_version db ver) else None), twp_proof = proof\<rparr>))"

definition get_txn_by_account ::
    "'p proof_hashers \<Rightarrow> 'p db_columns \<Rightarrow> account_address \<Rightarrow> u64 \<Rightarrow> version \<Rightarrow> bool \<Rightarrow> 'p transaction_with_proof option anyhow" where
  "get_txn_by_account K db address seq_num ledger_version fetch_events =
     (case lookup_transaction_by_account db address seq_num ledger_version of
        None \<Rightarrow> Inr None
      | Some ver \<Rightarrow> rbind (get_transaction_with_proof K db ver ledger_version fetch_events) (\<lambda>t. Inr (Some t)))"

definition get_transactions ::
    "'p proof_hashers \<Rightarrow> 'p db_columns \<Rightarrow> version \<Rightarrow> u64 \<Rightarrow> version \<Rightarrow> bool \<Rightarrow> 'p transaction_list_with_proof anyhow" where
  "get_transactions K db start_version limit ledger_version fetch_events =
     rbind (error_if_too_many_requested limit MAX_LIMIT) (\<lambda>_.
     if start_version > ledger_version \<or> limit = 0 then Inr transaction_list_with_proof_new_empty
     else
       let limit = min limit (ledger_version - start_version + 1);
           versions = version_range start_version (start_version + limit)
       in rbind (rmap (get_transaction db) versions) (\<lambda>txns.
          rbind (rmap (get_transaction_info db) versions) (\<lambda>txn_infos.
          let events = (if fetch_events then Some (map (get_events_by_version db) versions) else None) in
          rbind (get_transaction_range_proof K db (Some start_version) limit ledger_version) (\<lambda>range_proof.
          Inr \<lparr>tlw_transactions = txns, tlw_events = events, tlw_first_transaction_version = Some start_version,
               tlw_proof = \<lparr>ledger_info_to_transaction_infos_proof = range_proof, tlp_transaction_infos = txn_infos\<rparr>\<rparr>))))"

definition get_first_seq_num_and_limit :: "bool \<Rightarrow> u64 \<Rightarrow> u64 \<Rightarrow> (u64 \<times> u64) anyhow" where
  "get_first_seq_num_and_limit ascending cursor limit =
     rbind (ensure (limit > 0) ''limit should > 0'') (\<lambda>_.
     Inr (if ascending then (cursor, limit)
          else if limit \<le> cursor then (cursor - limit + 1, limit)
          else (0, cursor + 1)))"

definition event_with_proof_at ::
    "'p proof_hashers \<Rightarrow> 'p db_columns \<Rightarrow> version \<Rightarrow> u64 \<times> version \<times> u64 \<Rightarrow> event_with_proof anyhow" where
  "event_with_proof_at K db ledger_version = (\<lambda>(seq, ver, idx).
     rbind (get_event_with_proof_by_version_and_index K db ver idx) (\<lambda>(event, event_proof).
     rbind (ensure (seq = ev_sequence_number event) ''Index broken'') (\<lambda>_.
     rbind (get_transaction_info_with_proof K db ver ledger_version) (\<lambda>txn_info_with_proof.
     Inr \<lparr>ewp_transaction_version = ver, ewp_event_index = idx, ewp_event = event,
          ewp_proof = \<lparr>ep_transaction_info_with_proof = txn_info_with_proof, transaction_info_to_event_proof = event_proof\<rparr>\<rparr>))))"

definition get_events_by_event_key ::
    "'p proof_hashers \<Rightarrow> 'p db_columns \<Rightarrow> event_key \<Rightarrow> u64 \<Rightarrow> bool \<Rightarrow> u64 \<Rightarrow> version \<Rightarrow> event_with_proof list anyhow" where
  "get_events_by_event_key K db event_key start_seq_num ascending limit ledger_version =
     rbind (error_if_too_many_requested limit MAX_LIMIT) (\<lambda>_.
     let get_latest = (\<not> ascending \<and> start_seq_num = NOT 0) in
     rbind (if get_latest then
              rbind (get_latest_sequence_number db ledger_version event_key) (\<lambda>seq.
              Inr (case seq of None \<Rightarrow> 0 | Some s \<Rightarrow> s))
            else Inr start_seq_num) (\<lambda>cursor.
     rbind (get_first_seq_num_and_limit ascending cursor limit) (\<lambda>(first_seq, real_limit).
     rbind (lookup_events_by_key db event_key first_seq real_limit ledger_version) (\<lambda>event_keys.
     let event_keys = (if \<not> ascending \<and> event_keys \<noteq> [] \<and> fst (last event_keys) < cursor then [] else event_keys) in
     rbind (rmap (event_with_proof_at K db ledger_version) event_keys) (\<lambda>events_with_proof.
     Inr (if \<not> ascending then rev events_with_proof else events_with_proof))))))"

definition get_events ::
    "'p proof_hashers \<Rightarrow> 'p ledger_store \<Rightarrow> event_key \<Rightarrow> u64 \<Rightarrow> bool \<Rightarrow> u64 \<Rightarrow> (version \<times> contract_event) list anyhow" where
  "get_events K self event_key start ascending limit =
     rbind (get_latest_ledger_info self) (\<lambda>latest.
     rbind (get_events_by_event_key K (ls_db self) event_key start ascending limit (li_version (lis_ledger_info latest))) (\<lambda>events.
     Inr (map (\<lambda>e. (ewp_transaction_version e, ewp_event e)) events)))"

definition get_state_proof_with_ledger_info ::
    "'p ledger_store \<Rightarrow> version \<Rightarrow> ledger_info_with_signatures \<Rightarrow> (epoch_change_proof \<times> accumulator_consistency_proof) anyhow" where
  "get_state_proof_with_ledger_info self known_version ledger_info_with_sigs =
     (let ledger_info = lis_ledger_info ledger_info_with_sigs;
          next_epoch = next_block_epoch (commit_info ledger_info)
      in rbind (get_epoch (ls_db self) known_version) (\<lambda>known_epoch.
         rbind (if known_epoch < next_epoch then
                  rbind (get_epoch_ending_ledger_infos self known_epoch next_epoch) (\<lambda>(lis, more).
                  Inr \<lparr>ecp_ledger_infos = lis, ecp_more = more\<rparr>)
                else Inr \<lparr>ecp_ledger_infos = [], ecp_more = False\<rparr>) (\<lambda>epoch_change_proof.
         rbind (ledger_get_consistency_proof (ls_db self) known_version (li_version ledger_info)) (\<lambda>consistency_proof.
         Inr (epoch_change_proof, consistency_proof)))))"

definition get_state_proof ::
    "'p ledger_store \<Rightarrow> version \<Rightarrow> (ledger_info_with_signatures \<times> epoch_change_proof \<times> accumulator_consistency_proof) anyhow" where
  "get_state_proof self known_version =
     rbind (get_latest_ledger_info self) (\<lambda>latest.
     rbind (get_state_proof_with_ledger_info self known_version latest) (\<lambda>(epoch_change_proof, consistency_proof).
     Inr (latest, epoch_change_proof, consistency_proof)))"

definition get_latest_version :: "'p ledger_store \<Rightarrow> version anyhow" where
  "get_latest_version self = rbind (get_latest_ledger_info self) (\<lambda>latest. Inr (li_version (lis_ledger_info latest)))"

type_synonym state_get = "account_address \<Rightarrow> version \<Rightarrow> (account_state_blob option \<times> sparse_merkle_proof) anyhow"

definition get_account_state_with_proof ::
    "'p proof_hashers \<Rightarrow> state_get \<Rightarrow> 'p ledger_store \<Rightarrow> account_address \<Rightarrow> version \<Rightarrow> version \<Rightarrow> account_state_with_proof anyhow" where
  "get_account_state_with_proof K state_get self address ver ledger_version =
     rbind (ensure (ver \<le> ledger_version) ''The queried version should be equal to or older than ledger version.'') (\<lambda>_.
     rbind (get_latest_version self) (\<lambda>latest_version.
     rbind (ensure (ledger_version \<le> latest_version) ''The ledger version is greater than the latest version currently in ledger'') (\<lambda>_.
     rbind (get_transaction_info_with_proof K (ls_db self) ver ledger_version) (\<lambda>txn_info_with_proof.
     rbind (state_get address ver) (\<lambda>(blob, proof).
     Inr \<lparr>asw_version = ver, asw_blob = blob,
          asw_proof = \<lparr>asp_transaction_info_with_proof = txn_info_with_proof, transaction_info_to_account_proof = proof\<rparr>\<rparr>)))))"

definition get_latest_account_state :: "state_get \<Rightarrow> 'p ledger_store \<Rightarrow> account_address \<Rightarrow> account_state_blob option anyhow" where
  "get_latest_account_state state_get self address =
     rbind (get_latest_ledger_info self) (\<lambda>latest.
     rbind (state_get address (li_version (lis_ledger_info latest))) (\<lambda>(blob, _).
     Inr blob))"

definition get_latest_state_root :: "'p db_columns \<Rightarrow> (version \<times> hash_value) anyhow" where
  "get_latest_state_root db =
     rbind (get_latest_transaction_info db) (\<lambda>(ver, txn_info). Inr (ver, ti_state_root_hash txn_info))"

definition get_latest_tree_state :: "(version \<Rightarrow> hash_value option) \<Rightarrow> 'p db_columns \<Rightarrow> tree_state anyhow" where
  "get_latest_tree_state get_root_hash_option db =
     (case get_latest_transaction_info_option db of
        Some (ver, txn_info) \<Rightarrow> get_tree_state db (ver + 1) txn_info
      | None \<Rightarrow> Inr \<lparr>num_transactions = 0, ledger_frozen_subtree_hashes = [],
          account_state_root_hash = (case get_root_hash_option (NOT 0) of None \<Rightarrow> SPARSE_MERKLE_PLACEHOLDER_HASH | Some h \<Rightarrow> h)\<rparr>)"

subsection \<open>Saving transactions\<close>

record 'p transaction_to_commit =
  ttc_transaction :: "'p transaction"
  ttc_account_states :: "(account_address \<times> account_state_blob) list"
  ttc_events :: "contract_event list"
  ttc_gas_used :: u64
  ttc_major_status :: u64

type_synonym state_put = "(account_address \<times> account_state_blob) list list \<Rightarrow> version \<Rightarrow> (hash_value list \<times> ledger_counters) anyhow"

primrec put_events_all ::
    "'p proof_hashers \<Rightarrow> (version \<times> 'p transaction_to_commit) list \<Rightarrow> 'p change_set \<Rightarrow> (hash_value list \<times> 'p change_set) anyhow" where
  "put_events_all K [] cs = Inr ([], cs)"
| "put_events_all K (row # rows) cs =
     rbind (put_events K (fst row) (ttc_events (snd row)) cs) (\<lambda>(root, cs).
     rbind (put_events_all K rows cs) (\<lambda>(roots, cs).
     Inr (root # roots, cs)))"

definition seal_change_set ::
    "'p db_columns \<Rightarrow> version \<Rightarrow> u64 \<Rightarrow> 'p change_set \<Rightarrow> ('p schema_batch \<times> ledger_counters option) anyhow" where
  "seal_change_set db first_version num_txns cs =
     (if num_txns > 0 then
        rbind (bump_ledger_counters db first_version (first_version + num_txns - 1) (cs_counter_bumps cs) (cs_batch cs)) (\<lambda>(counters, batch).
        Inr (batch, Some counters))
      else Inr (cs_batch cs, None))"

definition save_transactions_impl ::
    "'p proof_hashers \<Rightarrow> state_put \<Rightarrow> 'p db_columns \<Rightarrow> 'p transaction_to_commit list \<Rightarrow> version \<Rightarrow> 'p change_set
       \<Rightarrow> (hash_value \<times> 'p change_set) anyhow" where
  "save_transactions_impl K state_put db txns_to_commit first_version cs =
     (let last_version = first_version + of_nat (length txns_to_commit) - 1 in
      rbind (state_put (map ttc_account_states txns_to_commit) first_version) (\<lambda>(state_root_hashes, bumps).
      let cs = cs\<lparr>cs_counter_bumps := counters_bump bumps (cs_counter_bumps cs)\<rparr> in
      rbind (zip_eq (version_range_inclusive first_version last_version) txns_to_commit) (\<lambda>rows.
      rbind (put_events_all K rows cs) (\<lambda>(event_root_hashes, cs).
      let cs = fold (\<lambda>(ver, txn). put_transaction ver (ttc_transaction txn)) rows cs;
          txn_infos = map (\<lambda>(t, s, e). \<lparr>ti_transaction_hash = h_transaction K (ttc_transaction t), ti_state_root_hash = s,
                         ti_event_root_hash = e, ti_gas_used = ttc_gas_used t, ti_major_status = ttc_major_status t\<rparr>)
                        (zip txns_to_commit (zip state_root_hashes event_root_hashes))
      in rbind (assert_that (length txn_infos = length txns_to_commit) ''assertion failed: txn_infos.len() == txns_to_commit.len()'') (\<lambda>_.
         put_transaction_infos K db first_version txn_infos cs)))))"

definition save_transactions ::
    "'p proof_hashers \<Rightarrow> state_put \<Rightarrow> 'p ledger_store \<Rightarrow> 'p transaction_to_commit list \<Rightarrow> version
       \<Rightarrow> ledger_info_with_signatures option \<Rightarrow> 'p ledger_store anyhow" where
  "save_transactions K state_put self txns_to_commit first_version ledger_info_with_sigs =
     (let num_txns = of_nat (length txns_to_commit) in
      rbind (ensure (ledger_info_with_sigs \<noteq> None \<or> num_txns > 0) ''txns_to_commit is empty while ledger_info_with_sigs is None.'') (\<lambda>_.
      rbind (case ledger_info_with_sigs of
               Some x \<Rightarrow> ensure (li_version (lis_ledger_info x) + 1 = first_version + num_txns) ''Transaction batch not applicable''
             | None \<Rightarrow> Inr ()) (\<lambda>_.
      rbind (save_transactions_impl K state_put (ls_db self) txns_to_commit first_version change_set_new) (\<lambda>(new_root_hash, cs).
      rbind (case ledger_info_with_sigs of
               Some x \<Rightarrow>
                 rbind (ensure (new_root_hash = transaction_accumulator_hash (lis_ledger_info x)) ''Root hash calculated doesn't match expected.'') (\<lambda>_.
                 Inr (put_ledger_info x cs))
             | None \<Rightarrow> Inr cs) (\<lambda>cs.
      rbind (seal_change_set (ls_db self) first_version num_txns cs) (\<lambda>(batch, counters).
      let self = self\<lparr>ls_db := write_schemas batch (ls_db self)\<rparr>;
          self = (case ledger_info_with_sigs of Some x \<Rightarrow> set_latest_ledger_info x self | None \<Rightarrow> self)
      in if num_txns > 0 then
           rbind (expect counters ''Counters should be bumped with transactions being saved.'') (\<lambda>_. Inr self)
         else Inr self))))))"

section \<open>What the database represents\<close>

text \<open>
  A database with the transaction infos, transactions and events of the versions \<open>0, 1, ...\<close>, in
  which each transaction info has the hash of its transaction and the root over its events.
\<close>

definition db_rep ::
    "'p proof_hashers \<Rightarrow> 'p db_columns \<Rightarrow> transaction_info list \<Rightarrow> 'p transaction list \<Rightarrow> contract_event list list \<Rightarrow> bool" where
  "db_rep K db infos txns evs \<longleftrightarrow>
     ledger_rep K db infos \<and> dense (col_transaction db) txns \<and> events_rep K db evs \<and>
     length txns = length infos \<and> length evs = length infos \<and>
     map ti_transaction_hash infos = map (h_transaction K) txns \<and>
     map ti_event_root_hash infos = map (\<lambda>es. tree_root (h_event_accumulator K) (map (h_event K) es)) evs"

lemma db_rep_empty: "db_rep K columns_empty [] [] []"
  by (simp add: db_rep_def ledger_rep_empty events_rep_empty) (simp add: columns_empty_def)

lemma map_versions:
  assumes "a + m \<le> length xs" "length xs < 2 ^ 64"
  shows "map (\<lambda>v. xs ! unat v) (map of_nat [a..<a + m] :: u64 list) = take m (drop a xs)"
proof -
  have "map (\<lambda>v. xs ! unat v) (map of_nat [a..<a + m] :: u64 list) = map ((!) xs) [a..<a + m]"
    unfolding map_map comp_def using assms by (intro map_cong) (simp_all add: unat_of_nat_u64)
  also have "\<dots> = take m (drop a xs)" using assms(1) by (intro nth_equalityI) simp_all
  finally show ?thesis .
qed

lemma rmap_versions:
  assumes "a + m \<le> length xs" "length xs < 2 ^ 64" "\<And>v. unat v < length xs \<Longrightarrow> f v = Inr (xs ! unat v)"
  shows "rmap f (map of_nat [a..<a + m] :: u64 list) = Inr (take m (drop a xs))"
proof -
  have "rmap f (map of_nat [a..<a + m] :: u64 list) = Inr (map (\<lambda>v. xs ! unat v) (map of_nat [a..<a + m] :: u64 list))"
  proof (rule rmap_total)
    fix v :: u64 assume "v \<in> set (map of_nat [a..<a + m])"
    then obtain i where "i < a + m" "v = of_nat i" by auto
    then have "unat v < length xs" using assms(1,2) by (simp add: unat_of_nat_u64)
    then show "f v = Inr (xs ! unat v)" by (rule assms(3))
  qed
  with map_versions [OF assms(1,2)] show ?thesis by simp
qed

lemma event_root_checked:
  "length es < 2 ^ 64 \<Longrightarrow> check_event_root K es (tree_root (h_event_accumulator K) (map (h_event K) es)) msg = Inr ()"
  by (simp add: check_event_root_def from_leaves_tree) (simp add: acc_of_def)

lemma db_rep_get:
  assumes "db_rep K db infos txns evs" "unat v < length infos"
  shows "get_transaction db v = Inr (txns ! unat v)" "get_transaction_info db v = Inr (infos ! unat v)"
    "get_events_by_version db v = evs ! unat v"
proof -
  show "get_transaction db v = Inr (txns ! unat v)"
    using assms by (simp add: db_rep_def get_transaction_def dense_bget [of _ txns])
  show "get_transaction_info db v = Inr (infos ! unat v)"
    using assms get_transaction_info_rep [of K db infos v] by (simp add: db_rep_def)
  show "get_events_by_version db v = evs ! unat v"
    using assms get_events_by_version_rep [of K db evs "unat v"] by (simp add: db_rep_def)
qed

lemma zip_map_hashes:
  "map f xs = map g ys \<Longrightarrow> (\<forall>(h, y) \<in> set (zip (map f xs) ys). h = g y) \<and> length xs = length ys"
proof -
  assume e: "map f xs = map g ys"
  then have "length xs = length ys" by (metis length_map)
  moreover have "\<forall>(h, y) \<in> set (zip (map g ys) ys). h = g y" by (induction ys) auto
  ultimately show ?thesis using e by simp
qed

lemma transactions_verified:
  assumes r: "db_rep K db infos txns evs" and n: "length infos \<le> 2 ^ 62"
    and lv: "unat lv < length infos" and c: "commits_to K li (infos_upto infos lv)"
    and q: "start \<le> lv" "0 < limit" "limit \<le> MAX_LIMIT"
  defines "m \<equiv> min (unat limit) (Suc (unat lv) - unat start)"
  shows "\<exists>tl. get_transactions K db start limit lv fetch = Inr tl \<and>
     transaction_list_with_proof_verify K tl li (Some start) = Inr () \<and>
     tlw_transactions tl = take m (drop (unat start) txns) \<and>
     tlw_events tl = (if fetch then Some (take m (drop (unat start) evs)) else None)"
proof -
  let ?limit = "min limit (lv - start + 1)" and ?s = "unat start"
  have sl: "?s \<le> unat lv" using q(1) by (simp add: word_le_nat_alt)
  have u: "unat (lv - start) = unat lv - ?s" using q(1) sl by (simp add: unat_sub_if')
  have "unat lv < 2 ^ 62" using lv n by linarith
  then have "unat (lv - start + 1) = Suc (unat lv) - ?s" using u sl unat_add_u64 [of "lv - start" 1] by simp
  then have ul: "unat ?limit = m" by (simp add: m_def min_def word_le_nat_alt)
  have m: "?s + m \<le> Suc (unat lv)" "0 < m" "?s + m \<le> length infos"
    using sl q(2) lv by (auto simp: m_def word_less_nat_alt)
  have lens: "length txns = length infos" "length evs = length infos" "length infos < 2 ^ 64" using r n by (simp_all add: db_rep_def)
  have "start + ?limit = of_nat (?s + m)" using ul by (metis of_nat_add unat_word_inverse)
  then have vs: "version_range start (start + ?limit) = map of_nat [?s..<?s + m]"
    using version_range_of_nat [of ?s m] m lens(3) by simp
  note get = db_rep_get [OF r]
  have tx: "rmap (get_transaction db) (map of_nat [?s..<?s + m]) = Inr (take m (drop ?s txns))"
    using m lens get(1) by (intro rmap_versions) simp_all
  have ti: "rmap (get_transaction_info db) (map of_nat [?s..<?s + m]) = Inr (take m (drop ?s infos))"
    using m lens get(2) by (intro rmap_versions) simp_all
  have "rmap (\<lambda>v. Inr (get_events_by_version db v)) (map of_nat [?s..<?s + m]) = (Inr (take m (drop ?s evs)) :: _ anyhow)"
    using m lens get(3) by (intro rmap_versions) simp_all
  moreover have "rmap (\<lambda>v. Inr (g v)) vs = (Inr (map g vs) :: _ anyhow)" for g :: "version \<Rightarrow> contract_event list" and vs
    by (rule rmap_total) simp
  ultimately have ev: "map (get_events_by_version db) (map of_nat [?s..<?s + m]) = take m (drop ?s evs)" by simp
  obtain rp where rp: "get_transaction_range_proof K db (Some start) ?limit lv = Inr rp"
    "accumulator_range_proof_verify (h_txn_accumulator K) rp (transaction_accumulator_hash li) (Some start)
       (map (h_transaction_info K) (take m (drop ?s infos))) = Inr ()"
    using transaction_range_proof_generated [OF _ n lv, of K db ?limit start li] r c m ul by (auto simp: db_rep_def)
  define tl where "tl = \<lparr>tlw_transactions = take m (drop ?s txns), tlw_events = (if fetch then Some (take m (drop ?s evs)) else None),
      tlw_first_transaction_version = Some start,
      tlw_proof = \<lparr>ledger_info_to_transaction_infos_proof = rp, tlp_transaction_infos = take m (drop ?s infos)\<rparr>\<rparr>"
  have "get_transactions K db start limit lv fetch = Inr tl"
    using q rp tx ti ev vs by (simp add: get_transactions_def error_if_too_many_requested_def not_less tl_def Let_def word_gt_0)
  moreover have "transaction_list_with_proof_verify K tl li (Some start) = Inr ()"
  proof -
    have "map (h_transaction K) (take m (drop ?s txns)) = map ti_transaction_hash (take m (drop ?s infos))"
      using r by (simp add: db_rep_def take_map [symmetric] drop_map [symmetric])
    from zip_map_hashes [OF this] have z: "\<forall>(h, i) \<in> set (zip (map (h_transaction K) (take m (drop ?s txns))) (take m (drop ?s infos))). h = ti_transaction_hash i"
      and zl: "length (take m (drop ?s txns)) = length (take m (drop ?s infos))" by blast+
    have pf: "transaction_list_proof_verify K (tlw_proof tl) li (Some start) (map (h_transaction K) (tlw_transactions tl)) = Inr ()"
      using z zl rp(2) by (simp add: transaction_list_proof_verify_def tl_def) (auto simp: result_simps case_prod_unfold)
    have "map (\<lambda>es. tree_root (h_event_accumulator K) (map (h_event K) es)) (take m (drop ?s evs)) = map ti_event_root_hash (take m (drop ?s infos))"
      using r by (simp add: db_rep_def take_map [symmetric] drop_map [symmetric])
    from zip_map_hashes [OF this]
    have el: "length (take m (drop ?s evs)) = length (take m (drop ?s infos))" by blast
    have "check_event_root K es (ti_event_root_hash i) msg = Inr ()"
      if "(es, i) \<in> set (zip (take m (drop ?s evs)) (take m (drop ?s infos)))" for es i msg
    proof -
      from that obtain k where k: "k < length (take m (drop ?s evs))" "es = take m (drop ?s evs) ! k" "i = take m (drop ?s infos) ! k"
        by (auto simp: in_set_zip)
      then have kk: "?s + k < length infos" "es = evs ! (?s + k)" "i = infos ! (?s + k)" using lens by auto
      have "map ti_event_root_hash infos ! (?s + k) = map (\<lambda>es. tree_root (h_event_accumulator K) (map (h_event K) es)) evs ! (?s + k)"
        using r by (simp add: db_rep_def)
      then have "ti_event_root_hash i = tree_root (h_event_accumulator K) (map (h_event K) es)" using kk lens by simp
      moreover have "es \<in> set evs" using kk lens by simp
      then have "length es \<le> 2 ^ 62" using r by (simp add: db_rep_def events_rep_def)
      ultimately show ?thesis using event_root_checked [of es K msg] by simp
    qed
    then show ?thesis
      using pf el zl by (simp add: transaction_list_with_proof_verify_def) (auto simp: tl_def result_simps)
  qed
  ultimately show ?thesis by (intro exI [of _ tl]) (simp add: tl_def)
qed

section \<open>Saving transactions extends the ledger\<close>

text \<open>The columns a change set has not written.\<close>

lemma events_rep_cong:
  "col_event db' = col_event db \<Longrightarrow> col_event_by_key db' = col_event_by_key db \<Longrightarrow>
   col_event_accumulator db' = col_event_accumulator db \<Longrightarrow> events_rep K db' evs = events_rep K db evs"
  by (simp add: events_rep_def event_hash_reader_def [abs_def])

lemma flat_events_prefix: "flat_events (evs @ xs) = flat_events evs @ drop (length (flat_events evs)) (flat_events (evs @ xs))"
proof (induction xs rule: rev_induct)
  case (snoc x xs)
  have "flat_events (evs @ xs @ [x]) = flat_events (evs @ xs) @ event_rows (of_nat (length (evs @ xs))) x"
    using flat_events_snoc [of "evs @ xs" x] by simp
  with snoc show ?case by (metis append.assoc append_eq_conv_conj)
qed simp

lemma put_events_all_rep:
  "events_rep K (overlay cs db) evs \<Longrightarrow> length evs + length ts < 2 ^ 63 \<Longrightarrow>
   (\<And>t. t \<in> set ts \<Longrightarrow> length (ttc_events t) \<le> 2 ^ 62) \<Longrightarrow>
   sequenced [] (flat_events (evs @ map ttc_events ts)) \<Longrightarrow>
   \<exists>cs'. put_events_all K (zip (map of_nat [length evs..<length evs + length ts]) ts) cs =
       Inr (map (\<lambda>t. tree_root (h_event_accumulator K) (map (h_event K) (ttc_events t))) ts, cs') \<and>
     events_rep K (overlay cs' db) (evs @ map ttc_events ts) \<and> events_only (cs_batch cs) (cs_batch cs')"
proof (induction ts arbitrary: cs evs)
  case Nil
  then show ?case by (simp add: events_only_refl)
next
  case (Cons t ts)
  let ?e = "ttc_events t"
  have u: "[length evs..<length evs + length (t # ts)] = length evs # [length (evs @ [?e])..<length (evs @ [?e]) + length ts]"
    by (simp add: upt_rec)
  have q: "sequenced [] (flat_events ((evs @ [?e]) @ map ttc_events ts))" using Cons.prems(4) by simp
  then have "sequenced [] (flat_events (evs @ [?e]))"
    using flat_events_prefix [of "evs @ [?e]" "map ttc_events ts"] sequenced_append by metis
  then have q1: "sequenced (flat_events evs) (event_rows (of_nat (length evs)) ?e)"
    by (simp add: flat_events_snoc sequenced_append)
  have l: "Suc (length evs) < 2 ^ 64" "length ?e \<le> 2 ^ 62" using Cons.prems(2,3) by simp_all
  obtain cs1 where c1: "put_events K (of_nat (length evs)) ?e cs =
      Inr (tree_root (h_event_accumulator K) (map (h_event K) ?e), cs1)"
    "events_rep K (overlay cs1 db) (evs @ [?e])" "events_only (cs_batch cs) (cs_batch cs1)"
    using put_events_rep [OF Cons.prems(1) l q1] by blast
  have "length (evs @ [?e]) + length ts < 2 ^ 63" using Cons.prems(2) by simp
  from Cons.IH [OF c1(2) this Cons.prems(3) q] obtain cs2 where
    c2: "put_events_all K (zip (map of_nat [length (evs @ [?e])..<length (evs @ [?e]) + length ts]) ts) cs1 =
       Inr (map (\<lambda>t. tree_root (h_event_accumulator K) (map (h_event K) (ttc_events t))) ts, cs2)"
    "events_rep K (overlay cs2 db) ((evs @ [?e]) @ map ttc_events ts)" "events_only (cs_batch cs1) (cs_batch cs2)" by auto
  with c1 u events_only_trans [OF c1(3) c2(3)] show ?case by (simp del: upt_Suc)
qed

lemma put_transactions_batch:
  "\<exists>acc. cs_batch (fold (\<lambda>(ver, txn). put_transaction ver (ttc_transaction txn)) rows cs) =
     (cs_batch cs)\<lparr>col_transaction := put_all (map (\<lambda>(ver, t). (ver, ttc_transaction t)) rows) (col_transaction (cs_batch cs)),
       col_transaction_by_account := acc\<rparr>"
proof (induction rows arbitrary: cs)
  case Nil
  show ?case by (rule exI [of _ "col_transaction_by_account (cs_batch cs)"]) (simp add: put_all_simps)
next
  case (Cons r rows)
  obtain ver t where r: "r = (ver, t)" by (cases r)
  have "\<exists>acc. cs_batch (put_transaction ver (ttc_transaction t) cs) =
      (cs_batch cs)\<lparr>col_transaction := binsert ver (ttc_transaction t) (col_transaction (cs_batch cs)), col_transaction_by_account := acc\<rparr>"
    by (rule exI [of _ "col_transaction_by_account (cs_batch (put_transaction ver (ttc_transaction t) cs))"])
      (cases "ttc_transaction t"; simp add: put_transaction_def batch_update_def)
  then obtain acc where a: "cs_batch (put_transaction ver (ttc_transaction t) cs) =
      (cs_batch cs)\<lparr>col_transaction := binsert ver (ttc_transaction t) (col_transaction (cs_batch cs)), col_transaction_by_account := acc\<rparr>" ..
  from Cons.IH [of "put_transaction ver (ttc_transaction t) cs"] show ?case by (simp add: r a put_all_simps)
qed

text \<open>The transaction infos of the transactions to commit.\<close>

definition new_infos :: "'p proof_hashers \<Rightarrow> 'p transaction_to_commit list \<Rightarrow> hash_value list \<Rightarrow> transaction_info list" where
  "new_infos K ts roots =
     map2 (\<lambda>t s. \<lparr>ti_transaction_hash = h_transaction K (ttc_transaction t), ti_state_root_hash = s,
        ti_event_root_hash = tree_root (h_event_accumulator K) (map (h_event K) (ttc_events t)),
        ti_gas_used = ttc_gas_used t, ti_major_status = ttc_major_status t\<rparr>) ts roots"

lemma new_infos_zip:
  "length roots = length ts \<Longrightarrow>
   map (\<lambda>(t, s, e). \<lparr>ti_transaction_hash = h_transaction K (ttc_transaction t), ti_state_root_hash = s,
        ti_event_root_hash = e, ti_gas_used = ttc_gas_used t, ti_major_status = ttc_major_status t\<rparr>)
     (zip ts (zip roots (map (\<lambda>t. tree_root (h_event_accumulator K) (map (h_event K) (ttc_events t))) ts))) = new_infos K ts roots"
  by (induction roots ts rule: list_induct2) (simp_all add: new_infos_def)

lemma new_infos_props:
  assumes "length roots = length ts"
  shows "length (new_infos K ts roots) = length ts"
    "map ti_transaction_hash (new_infos K ts roots) = map (h_transaction K) (map ttc_transaction ts)"
    "map ti_event_root_hash (new_infos K ts roots) = map (\<lambda>es. tree_root (h_event_accumulator K) (map (h_event K) es)) (map ttc_events ts)"
  using assms by (induction roots ts rule: list_induct2) (simp_all add: new_infos_def)

lemma version_range_inclusive_of_nat:
  assumes "n + m \<le> 2 ^ 62" "0 < n + m"
  shows "version_range_inclusive (of_nat n) (of_nat n + of_nat m - 1) = map of_nat [n..<n + m]"
proof -
  have "1 \<le> n + m" using assms(2) by linarith
  from of_nat_diff [OF this, where 'a = "64 word"] have "of_nat n + of_nat m - 1 = (of_nat (n + m - 1) :: u64)"
    by (simp only: of_nat_add of_nat_1)
  moreover have "unat (of_nat n :: u64) = n" "unat (of_nat (n + m - 1) :: u64) = n + m - 1"
    using assms by (simp_all add: unat_of_nat_u64)
  ultimately show ?thesis using assms(2) by (simp add: version_range_inclusive_def)
qed

lemma save_impl_rep:
  fixes K :: "'p proof_hashers"
  assumes r: "db_rep K db infos txns evs" and n: "length infos + length ts \<le> 2 ^ 62" "0 < length infos + length ts"
    and ev: "\<And>t. t \<in> set ts \<Longrightarrow> length (ttc_events t) \<le> 2 ^ 62" and q: "sequenced [] (flat_events (evs @ map ttc_events ts))"
    and sp: "state_put (map ttc_account_states ts) (of_nat (length infos)) = Inr (roots, bumps)" "length roots = length ts"
  obtains cs where "save_transactions_impl K state_put db ts (of_nat (length infos)) change_set_new =
      Inr (tree_root (h_txn_accumulator K) (map (h_transaction_info K) (infos @ new_infos K ts roots)), cs)"
    "\<And>batch. batch = (cs_batch cs)\<lparr>col_ledger_info := col_ledger_info batch, col_epoch_by_version := col_epoch_by_version batch,
        col_ledger_counters := col_ledger_counters batch\<rparr> \<Longrightarrow>
      db_rep K (write_schemas batch db) (infos @ new_infos K ts roots) (txns @ map ttc_transaction ts) (evs @ map ttc_events ts)"
proof -
  let ?n = "of_nat (length infos) :: version"
  have lens: "length evs = length infos" "length txns = length infos" using r by (simp_all add: db_rep_def)
  have vr: "version_range_inclusive ?n (?n + of_nat (length ts) - 1) = map of_nat [length infos..<length infos + length ts]"
    by (rule version_range_inclusive_of_nat [OF n])
  define rows where "rows = zip (map of_nat [length infos..<length infos + length ts] :: version list) ts"
  define cs0 :: "'p change_set" where "cs0 = change_set_new\<lparr>cs_counter_bumps := counters_bump bumps (cs_counter_bumps (change_set_new :: 'p change_set))\<rparr>"
  have b0: "cs_batch cs0 = columns_empty" by (simp add: cs0_def change_set_new_def)
  have o: "overlay cs0 db = db" by (cases db) (simp add: overlay_def b0 write_schemas_def columns_empty_def)
  have er: "events_rep K (overlay cs0 db) evs" using r by (simp add: o db_rep_def)
  have "length evs + length ts < 2 ^ 63" using n lens by simp
  from put_events_all_rep [OF er this ev q] obtain cs1 where
    c1: "put_events_all K rows cs0 = Inr (map (\<lambda>t. tree_root (h_event_accumulator K) (map (h_event K) (ttc_events t))) ts, cs1)"
    "events_rep K (overlay cs1 db) (evs @ map ttc_events ts)" "events_only columns_empty (cs_batch cs1)"
    unfolding rows_def lens b0 by blast
  define cs2 where "cs2 = fold (\<lambda>(ver, txn). put_transaction ver (ttc_transaction txn)) rows cs1"
  obtain acc where c2: "cs_batch cs2 = (cs_batch cs1)\<lparr>col_transaction := put_all (map (\<lambda>(ver, t). (ver, ttc_transaction t)) rows) (col_transaction (cs_batch cs1)),
       col_transaction_by_account := acc\<rparr>" using put_transactions_batch [of rows cs1] unfolding cs2_def by blast
  let ?new = "new_infos K ts roots"
  have ln: "length ?new = length ts" using new_infos_props(1) [OF sp(2)] .
  have lr: "ledger_rep K db infos" using r by (simp add: db_rep_def)
  have n': "length infos + length ?new \<le> 2 ^ 62" using n ln by simp
  define cs3 where "cs3 = batch_update (\<lambda>b. b\<lparr>col_transaction_info := put_all (info_rows (length infos) ?new) (col_transaction_info b),
           col_transaction_accumulator := put_all (info_nodes K infos ?new) (col_transaction_accumulator b)\<rparr>) cs2"
  have pi: "put_transaction_infos K db ?n ?new cs2 =
      Inr (tree_root (h_txn_accumulator K) (map (h_transaction_info K) (infos @ ?new)), cs3)"
    unfolding cs3_def by (rule put_transaction_infos_eq [OF lr n'])
  have "save_transactions_impl K state_put db ts ?n change_set_new =
      Inr (tree_root (h_txn_accumulator K) (map (h_transaction_info K) (infos @ ?new)), cs3)"
    using pi ln by (simp add: save_transactions_impl_def sp(1) Let_def vr zip_eq_def assert_that_def rows_def [symmetric]
        c1(1) [unfolded cs0_def] sp(2) new_infos_zip [OF sp(2)] cs2_def [symmetric])
  moreover have "db_rep K (write_schemas batch db) (infos @ ?new) (txns @ map ttc_transaction ts) (evs @ map ttc_events ts)"
    if b: "batch = (cs_batch cs3)\<lparr>col_ledger_info := col_ledger_info batch, col_epoch_by_version := col_epoch_by_version batch,
        col_ledger_counters := col_ledger_counters batch\<rparr>" for batch
  proof -
    have b3: "cs_batch cs3 = (cs_batch cs2)\<lparr>col_transaction_info := put_all (info_rows (length infos) ?new) (col_transaction_info (cs_batch cs2)),
           col_transaction_accumulator := put_all (info_nodes K infos ?new) (col_transaction_accumulator (cs_batch cs2))\<rparr>"
      by (simp add: cs3_def batch_update_def)
    have b1: "cs_batch cs1 = columns_empty\<lparr>col_event := col_event (cs_batch cs1), col_event_by_key := col_event_by_key (cs_batch cs1),
        col_event_accumulator := col_event_accumulator (cs_batch cs1)\<rparr>" using c1(3) by (simp add: events_only_def)
    have e1: "col_transaction_info (cs_batch cs1) = bempty" "col_transaction_accumulator (cs_batch cs1) = bempty" "col_transaction (cs_batch cs1) = bempty"
      by (subst b1, simp add: columns_empty_def)+
    have cols: "col_transaction_info batch = put_all (info_rows (length infos) ?new) bempty"
      "col_transaction_accumulator batch = put_all (info_nodes K infos ?new) bempty"
      "col_transaction batch = put_all (map (\<lambda>(ver, t). (ver, ttc_transaction t)) rows) bempty"
      "col_event batch = col_event (cs_batch cs1)" "col_event_by_key batch = col_event_by_key (cs_batch cs1)"
      "col_event_accumulator batch = col_event_accumulator (cs_batch cs1)"
      by (subst b, simp add: b3 c2 e1)+
    have "ledger_rep K (write_schemas batch db) (infos @ ?new)"
      by (rule ledger_rep_put [OF lr n']) (simp_all add: write_schemas_def cols write_rows_put_all)
    moreover have "events_rep K (write_schemas batch db) (evs @ map ttc_events ts) = events_rep K (overlay cs1 db) (evs @ map ttc_events ts)"
      by (rule events_rep_cong) (simp_all add: overlay_def write_schemas_def cols)
    moreover have "map (\<lambda>(ver, t). (ver, ttc_transaction t)) rows =
        zip (map of_nat [length txns..<length txns + length (map ttc_transaction ts)]) (map ttc_transaction ts)"
      by (simp add: rows_def lens zip_map2)
    then have "dense (col_transaction (write_schemas batch db)) (txns @ map ttc_transaction ts)"
      using dense_put_all [of "col_transaction db" txns "map ttc_transaction ts"] r n lens
      by (simp add: write_schemas_def cols write_rows_put_all db_rep_def)
    ultimately show ?thesis using c1(2) r new_infos_props [OF sp(2), of K] by (simp add: db_rep_def)
  qed
  ultimately show thesis by (rule that)
qed

lemma commits_to_iff:
  assumes "0 < length infos" "length infos \<le> 2 ^ 62"
  shows "commits_to K li infos \<longleftrightarrow>
    li_version li + 1 = of_nat (length infos) \<and> tree_root (h_txn_accumulator K) (map (h_transaction_info K) infos) = transaction_accumulator_hash li"
proof -
  have "unat (li_version li) + 1 = length infos \<longleftrightarrow> li_version li + 1 = of_nat (length infos)"
  proof
    assume "unat (li_version li) + 1 = length infos"
    then show "li_version li + 1 = of_nat (length infos)" by (metis of_nat_1 of_nat_add unat_word_inverse)
  next
    assume e: "li_version li + 1 = of_nat (length infos)"
    have "unat (of_nat (length infos) :: u64) = length infos" using assms(2) by (intro unat_of_nat_u64) simp
    with e have u: "unat (li_version li + 1) = length infos" by simp
    then have "li_version li + 1 \<noteq> 0" using assms(1) by auto
    then have "unat (li_version li) = length infos - 1" using u unat_minus_one [of "li_version li + 1"] by simp
    with assms(1) show "unat (li_version li) + 1 = length infos" by simp
  qed
  then show ?thesis by (auto simp: commits_to_def)
qed

lemma save_transactions_rep:
  fixes K :: "'p proof_hashers" and roots :: "hash_value list"
  assumes r: "db_rep K (ls_db st) infos txns evs" and n: "length infos + length ts \<le> 2 ^ 62" "0 < length infos + length ts"
    and ev: "\<And>t. t \<in> set ts \<Longrightarrow> length (ttc_events t) \<le> 2 ^ 62" and q: "sequenced [] (flat_events (evs @ map ttc_events ts))"
    and sp: "state_put (map ttc_account_states ts) (of_nat (length infos)) = Inr (roots, bumps)" "length roots = length ts"
  defines "infos' \<equiv> infos @ new_infos K ts roots"
  shows "if (case li of None \<Rightarrow> ts \<noteq> [] | Some x \<Rightarrow> commits_to K (lis_ledger_info x) infos')
    then \<exists>st'. save_transactions K state_put st ts (of_nat (length infos)) li = Inr st' \<and>
      db_rep K (ls_db st') infos' (txns @ map ttc_transaction ts) (evs @ map ttc_events ts) \<and>
      ls_latest_ledger_info st' = (case li of None \<Rightarrow> ls_latest_ledger_info st | Some x \<Rightarrow> Some x)
    else \<exists>e. save_transactions K state_put st ts (of_nat (length infos)) li = Inl (Err e)"
proof -
  let ?n = "of_nat (length infos) :: version" and ?m = "of_nat (length ts) :: u64"
  have len: "length infos' = length infos + length ts" using new_infos_props(1) [OF sp(2)] by (simp add: infos'_def)
  have um: "unat ?m = length ts" using n by (intro unat_of_nat_u64) simp
  then have m0: "?m > 0 \<longleftrightarrow> ts \<noteq> []" by (simp add: word_less_nat_alt)
  obtain cs where i: "save_transactions_impl K state_put (ls_db st) ts ?n change_set_new =
      Inr (tree_root (h_txn_accumulator K) (map (h_transaction_info K) infos'), cs)"
    and w: "\<And>batch. batch = (cs_batch cs)\<lparr>col_ledger_info := col_ledger_info batch, col_epoch_by_version := col_epoch_by_version batch,
        col_ledger_counters := col_ledger_counters batch\<rparr> \<Longrightarrow>
      db_rep K (write_schemas batch (ls_db st)) infos' (txns @ map ttc_transaction ts) (evs @ map ttc_events ts)"
    using save_impl_rep [where state_put = state_put, OF r n ev q sp] unfolding infos'_def by blast
  have first: "?n \<le> ?n + ?m - 1" if "ts \<noteq> []"
  proof -
    have "unat ?n = length infos" using n by (intro unat_of_nat_u64) simp
    moreover have "?n + ?m - 1 = of_nat (length infos + (length ts - 1))" using that by (cases ts) simp_all
    moreover have "unat (of_nat (length infos + (length ts - 1)) :: u64) = length infos + (length ts - 1)" using n by (intro unat_of_nat_u64) simp
    ultimately show ?thesis by (simp only: word_le_nat_alt le_add1)
  qed
  have seal: "\<exists>batch counters. seal_change_set (ls_db st) ?n ?m cs' = Inr (batch, counters) \<and> (ts \<noteq> [] \<longrightarrow> counters \<noteq> None) \<and>
      batch = (cs_batch cs')\<lparr>col_ledger_counters := col_ledger_counters batch\<rparr>" for cs' :: "'p change_set"
  proof (cases "ts = []")
    case True
    then show ?thesis by (simp add: seal_change_set_def)
  next
    case False
    then show ?thesis using m0 first by (simp add: seal_change_set_def bump_ledger_counters_def assert_that_def Let_def)
  qed
  show ?thesis
  proof (cases li)
    case None
    show ?thesis
    proof (cases "ts = []")
      case True
      with None show ?thesis by (simp add: save_transactions_def)
    next
      case False
      obtain batch counters where b: "seal_change_set (ls_db st) ?n ?m cs = Inr (batch, counters)" "counters \<noteq> None"
        "batch = (cs_batch cs)\<lparr>col_ledger_counters := col_ledger_counters batch\<rparr>" using seal [of cs] False by auto
      have "db_rep K (write_schemas batch (ls_db st)) infos' (txns @ map ttc_transaction ts) (evs @ map ttc_events ts)"
      proof (rule w)
        have "col_ledger_info batch = col_ledger_info (cs_batch cs)" "col_epoch_by_version batch = col_epoch_by_version (cs_batch cs)"
          by (subst b(3), simp)+
        then show "batch = (cs_batch cs)\<lparr>col_ledger_info := col_ledger_info batch, col_epoch_by_version := col_epoch_by_version batch,
            col_ledger_counters := col_ledger_counters batch\<rparr>" using b(3) by simp
      qed
      with None False m0 i b show ?thesis by (auto simp: save_transactions_def Let_def)
    qed
  next
    case (Some x)
    have "0 < length infos'" "length infos' \<le> 2 ^ 62" using n len by simp_all
    note ct = commits_to_iff [OF this, of K "lis_ledger_info x"]
    have vl: "li_version (lis_ledger_info x) + 1 = ?n + ?m \<longleftrightarrow> li_version (lis_ledger_info x) + 1 = of_nat (length infos')" by (simp add: len)
    define cs2 where "cs2 = put_ledger_info x cs"
    obtain batch counters where b: "seal_change_set (ls_db st) ?n ?m cs2 = Inr (batch, counters)" "ts \<noteq> [] \<longrightarrow> counters \<noteq> None"
        "batch = (cs_batch cs2)\<lparr>col_ledger_counters := col_ledger_counters batch\<rparr>" using seal [of cs2] by blast
    have c2: "cs_batch cs2 = (cs_batch cs)\<lparr>col_ledger_info := col_ledger_info (cs_batch cs2), col_epoch_by_version := col_epoch_by_version (cs_batch cs2)\<rparr>"
      by (simp add: cs2_def put_ledger_info_def batch_update_def Let_def)
    have "db_rep K (write_schemas batch (ls_db st)) infos' (txns @ map ttc_transaction ts) (evs @ map ttc_events ts)"
    proof (rule w)
      have "col_ledger_info batch = col_ledger_info (cs_batch cs2)" "col_epoch_by_version batch = col_epoch_by_version (cs_batch cs2)"
        by (subst b(3), simp)+
      then have "batch = (cs_batch cs)\<lparr>col_ledger_info := col_ledger_info (cs_batch cs2), col_epoch_by_version := col_epoch_by_version (cs_batch cs2),
          col_ledger_counters := col_ledger_counters batch\<rparr>"
        by (subst b(3), subst c2) simp
      then show "batch = (cs_batch cs)\<lparr>col_ledger_info := col_ledger_info batch, col_epoch_by_version := col_epoch_by_version batch,
          col_ledger_counters := col_ledger_counters batch\<rparr>"
        using \<open>col_ledger_info batch = _\<close> \<open>col_epoch_by_version batch = _\<close> by simp
    qed
    with Some i b ct vl show ?thesis
      by (cases "ts = []"; cases "commits_to K (lis_ledger_info x) infos'")
        (auto simp: save_transactions_def Let_def m0 cs2_def [symmetric] set_latest_ledger_info_def ensure_def)
  qed
qed

section \<open>Events are returned with proofs\<close>

lemma event_at_verified:
  assumes r: "db_rep K db infos txns evs" and n: "length infos \<le> 2 ^ 62"
    and lv: "unat lv < length infos" and c: "commits_to K li (infos_upto infos lv)"
    and s: "s < visible lv (map fst (positions_of key (flat_events evs)))"
  defines "p \<equiv> positions_of key (flat_events evs) ! s"
  shows "\<exists>e. event_with_proof_at K db lv (of_nat s, p) = Inr e \<and> ev_sequence_number (ewp_event e) = of_nat s \<and>
    event_with_proof_verify K e li key (of_nat s) (ewp_transaction_version e) (ewp_event_index e) = Inr ()"
proof -
  let ?ps = "positions_of key (flat_events evs)"
  have er: "events_rep K db evs" and lens: "length evs = length infos" using r by (simp_all add: db_rep_def)
  have sl: "s < length ?ps" using s visible_le [of lv "map fst ?ps"] by simp
  obtain ev where ev: "(p, ev) \<in> set (flat_events evs)" "ev_key ev = key" "unat (ev_sequence_number ev) = s"
    using sequenced_position [of "flat_events evs" s key] er sl by (auto simp: events_rep_def p_def)
  obtain v i where vi: "v < length evs" "i < length (evs ! v)" "p = (of_nat v, of_nat i)" "ev = evs ! v ! i"
    using ev(1) unfolding in_flat_events by blast
  have seq: "ev_sequence_number ev = of_nat s" using ev(3) by (metis unat_word_inverse)
  have uv: "unat (of_nat v :: u64) = v" using vi(1) lens n by (intro unat_of_nat_u64) simp
  have esl: "length (evs ! v) \<le> 2 ^ 62" using er vi(1) by (simp add: events_rep_def)
  then have ui: "unat (of_nat i :: u64) = i" using vi(2) by (intro unat_of_nat_u64) simp
  have "fst p \<le> lv" using visible_iff [OF positions_sorted [OF er, of key], of s lv] s sl by (simp add: p_def)
  then have vlv: "(of_nat v :: version) \<le> lv" by (simp add: vi(3))
  obtain pf where pf: "get_transaction_info_with_proof K db (of_nat v) lv = Inr pf" "tip_transaction_info pf = infos ! v"
    "transaction_info_with_proof_verify K pf li (of_nat v) = Inr ()"
    using transaction_info_proof_generated [OF _ n lv vlv c, of db] r uv by (auto simp: db_rep_def)
  let ?ap = "\<lparr>ap_siblings = tree_siblings (h_event_accumulator K) (map (h_event K) (evs ! v)) i\<rparr>"
  have g: "get_event_with_proof_by_version_and_index K db (of_nat v) (of_nat i) = Inr (ev, ?ap)"
    using event_proof_generated_tree [OF er vi(1) _ vi(2)] lens n by (simp add: vi(4))
  have "map ti_event_root_hash infos ! v = map (\<lambda>es. tree_root (h_event_accumulator K) (map (h_event K) es)) evs ! v"
    using r by (simp add: db_rep_def)
  then have root: "ti_event_root_hash (infos ! v) = tree_root (h_event_accumulator K) (map (h_event K) (evs ! v))" using vi(1) lens by simp
  have av: "accumulator_proof_verify (h_event_accumulator K) ?ap (tree_root (h_event_accumulator K) (map (h_event K) (evs ! v))) (h_event K ev) (of_nat i) = Inr ()"
    using proof_complete [of "of_nat i" "map (h_event K) (evs ! v)" "h_event_accumulator K"] ui vi esl by simp
  show ?thesis
    using g pf av seq ev(2) root
    by (simp add: event_with_proof_at_def vi(3) event_with_proof_verify_def event_proof_verify_def)
qed

lemma rmap_ex:
  "(\<And>x. x \<in> set xs \<Longrightarrow> \<exists>y. f x = Inr y \<and> P x y) \<Longrightarrow> \<exists>ys. rmap f xs = Inr ys \<and> list_all2 P xs ys"
proof (induction xs)
  case (Cons x xs)
  obtain y where "f x = Inr y" "P x y" using Cons.prems [of x] by auto
  moreover obtain ys where "rmap f xs = Inr ys" "list_all2 P xs ys" using Cons by auto
  ultimately show ?case by simp
qed simp

text \<open>The events with the sequence numbers \<open>seqs\<close>, each accepted by the verifier of the client.\<close>

definition verified_events ::
    "'p proof_hashers \<Rightarrow> ledger_info \<Rightarrow> event_key \<Rightarrow> nat list \<Rightarrow> event_with_proof list \<Rightarrow> bool" where
  "verified_events K li key seqs es \<longleftrightarrow>
     list_all2 (\<lambda>s e. ev_sequence_number (ewp_event e) = of_nat s \<and>
       event_with_proof_verify K e li key (of_nat s) (ewp_transaction_version e) (ewp_event_index e) = Inr ()) seqs es"

lemma events_at_verified:
  assumes r: "db_rep K db infos txns evs" and n: "length infos \<le> 2 ^ 62"
    and lv: "unat lv < length infos" and c: "commits_to K li (infos_upto infos lv)"
    and s: "\<And>s. s \<in> set seqs \<Longrightarrow> s < visible lv (map fst (positions_of key (flat_events evs)))"
  shows "\<exists>es. rmap (event_with_proof_at K db lv) (map (\<lambda>s. (of_nat s, positions_of key (flat_events evs) ! s)) seqs) = Inr es \<and>
    verified_events K li key seqs es"
proof -
  have "\<exists>es. rmap (\<lambda>s. event_with_proof_at K db lv (of_nat s, positions_of key (flat_events evs) ! s)) seqs = Inr es \<and>
    verified_events K li key seqs es"
    unfolding verified_events_def using event_at_verified [OF r n lv c s] by (intro rmap_ex) blast
  then show ?thesis by (simp add: rmap_map comp_def)
qed

lemma events_ascending:
  assumes r: "db_rep K db infos txns evs" and n: "length infos \<le> 2 ^ 62" "length (positions_of key (flat_events evs)) < 2 ^ 63"
    and lv: "unat lv < length infos" and c: "commits_to K li (infos_upto infos lv)" and q: "0 < limit" "limit \<le> MAX_LIMIT"
  shows "\<exists>es. get_events_by_event_key K db key start True limit lv = Inr es \<and>
    verified_events K li key [unat start..<min (unat start + unat limit) (visible lv (map fst (positions_of key (flat_events evs))))] es"
proof -
  let ?ps = "positions_of key (flat_events evs)"
  let ?seqs = "[unat start..<min (unat start + unat limit) (visible lv (map fst ?ps))]"
  have er: "events_rep K db evs" using r by (simp add: db_rep_def)
  obtain es where es: "rmap (event_with_proof_at K db lv) (map (\<lambda>s. (of_nat s, ?ps ! s)) ?seqs) = Inr es" "verified_events K li key ?seqs es"
    using events_at_verified [OF r n(1) lv c, of ?seqs key] by auto
  have "get_events_by_event_key K db key start True limit lv = Inr es"
    using q es(1) lookup_events_eq [OF er, of key start limit lv] n(2)
    by (simp add: get_events_by_event_key_def error_if_too_many_requested_def not_less get_first_seq_num_and_limit_def Let_def)
  with es(2) show ?thesis by blast
qed

lemma events_latest:
  assumes r: "db_rep K db infos txns evs" and n: "length infos \<le> 2 ^ 62" "length (positions_of key (flat_events evs)) < 2 ^ 63"
    and lv: "unat lv < length infos" and c: "commits_to K li (infos_upto infos lv)" and q: "0 < limit" "limit \<le> MAX_LIMIT"
  defines "m \<equiv> visible lv (map fst (positions_of key (flat_events evs)))"
  shows "\<exists>es. get_events_by_event_key K db key (NOT 0) False limit lv = Inr es \<and> verified_events K li key (rev [m - unat limit..<m]) es"
proof -
  let ?ps = "positions_of key (flat_events evs)" and ?seqs = "[m - unat limit..<m]"
  have er: "events_rep K db evs" using r by (simp add: db_rep_def)
  have ml: "m \<le> length ?ps" using visible_le [of lv "map fst ?ps"] by (simp add: m_def)
  have ki: "key_index db key (map fst ?ps)"
    using er positions_sorted [OF er, of key] n(2) by (auto simp: key_index_def events_rep_def index_rep_def)
  define cursor where "cursor = (of_nat (m - 1) :: u64)"
  have uc: "unat cursor = m - 1" unfolding cursor_def using ml n(2) by (intro unat_of_nat_u64) simp
  have cur: "rbind (get_latest_sequence_number db lv key) (\<lambda>seq. Inr (case seq of None \<Rightarrow> 0 | Some s \<Rightarrow> s)) = (Inr cursor :: _ anyhow)"
    using latest_sequence_number [OF ki, of lv] ml by (auto simp: cursor_def m_def [symmetric])
  obtain es where es: "rmap (event_with_proof_at K db lv) (map (\<lambda>s. (of_nat s, ?ps ! s)) ?seqs) = Inr es" "verified_events K li key ?seqs es"
    using events_at_verified [OF r n(1) lv c, of ?seqs key] by (auto simp: m_def)
  define first where "first = (if limit \<le> cursor then cursor - limit + 1 else 0)"
  define real where "real = (if limit \<le> cursor then limit else cursor + 1)"
  have fl: "get_first_seq_num_and_limit False cursor limit = Inr (first, real)"
    using q by (simp add: get_first_seq_num_and_limit_def first_def real_def)
  have l0: "0 < unat limit" using q(1) by (simp add: word_less_nat_alt)
  have rng: "[unat first..<min (unat first + unat real) m] = ?seqs"
  proof (cases "limit \<le> cursor")
    case True
    then have le: "unat limit \<le> m - 1" using uc by (simp add: word_le_nat_alt)
    have "unat (cursor - limit) = m - 1 - unat limit" using True uc le by (simp add: unat_sub_if')
    moreover have "m - 1 - unat limit + 1 < 2 ^ 64" using ml n(2) by simp
    ultimately have "unat first = m - unat limit" using True le l0 unat_add_u64 [of "cursor - limit" 1] by (simp add: first_def)
    with True le l0 show ?thesis by (simp add: real_def)
  next
    case False
    then have gt: "m - 1 < unat limit" using uc by (simp add: word_le_nat_alt not_le)
    have "m - 1 + 1 < 2 ^ 64" using ml n(2) by simp
    then have "unat (cursor + 1) = m - 1 + 1" using uc unat_add_u64 [of cursor 1] by simp
    with False gt show ?thesis by (auto simp: first_def real_def)
  qed
  have lk: "lookup_events_by_key db key first real lv = Inr (map (\<lambda>s. (of_nat s, ?ps ! s)) ?seqs)"
    using lookup_events_eq [OF er, of key first real lv] n(2) rng by (simp add: Let_def m_def)
  have last: "\<not> fst (last (map (\<lambda>s. (of_nat s :: u64, ?ps ! s)) ?seqs)) < cursor" if "?seqs \<noteq> []"
  proof -
    have "last ?seqs = m - 1" using that by (simp add: last_conv_nth)
    with that have "fst (last (map (\<lambda>s. (of_nat s :: u64, ?ps ! s)) ?seqs)) = cursor" by (simp add: last_map cursor_def)
    then show ?thesis by simp
  qed
  have "get_events_by_event_key K db key (NOT 0) False limit lv = Inr (rev es)"
    using q es(1) cur fl lk last
    by (simp add: get_events_by_event_key_def error_if_too_many_requested_def not_less Let_def) (cases "?seqs = []"; auto dest: leD)
  moreover have "verified_events K li key (rev ?seqs) (rev es)" using es(2) by (simp add: verified_events_def)
  ultimately show ?thesis by blast
qed

text \<open>A database with one transaction that emits one event, for the examples.\<close>

definition example_commit :: "unit transaction_to_commit" where
  "example_commit =
     \<lparr>ttc_transaction = WaypointWriteSet (), ttc_account_states = [], ttc_events = [example_event\<lparr>ev_sequence_number := 0\<rparr>],
      ttc_gas_used = 0, ttc_major_status = 0\<rparr>"

definition example_state_put :: state_put where
  "example_state_put sets ver = Inr (replicate (length sets) 7, bempty)"

definition example_empty :: "unit ledger_store" where
  "example_empty = \<lparr>ls_db = columns_empty, ls_latest_ledger_info = None\<rparr>"

definition example_lis :: ledger_info_with_signatures where
  "example_lis = \<lparr>lis_ledger_info = example_ledger, lis_signatures = bempty\<rparr>"

definition example_store :: "unit ledger_store" where
  "example_store =
     (case save_transactions example_hashers example_state_put example_empty [example_commit] 0 (Some example_lis) of
        Inr st \<Rightarrow> st | Inl _ \<Rightarrow> example_empty)"

lemma example_sequenced: "sequenced [] (flat_events [[example_event\<lparr>ev_sequence_number := 0\<rparr>]])"
  by (simp add: flat_events_def event_rows_def positions_of_def)

lemma example_new_infos: "commits_to example_hashers example_ledger (new_infos example_hashers [example_commit] [7])"
  by (simp add: commits_to_def new_infos_def example_ledger_def example_hashers_def block_info_empty_def single_leaf_pairs)

lemma example_save_conditions:
  "db_rep example_hashers (ls_db example_empty) [] [] []"
  "\<And>t. t \<in> set [example_commit] \<Longrightarrow> length (ttc_events t) \<le> 2 ^ 62"
  "sequenced [] (flat_events ([] @ map ttc_events [example_commit]))"
  "example_state_put (map ttc_account_states [example_commit]) (of_nat (length ([] :: transaction_info list))) = Inr ([7], bempty)"
  by (simp_all add: example_empty_def db_rep_empty example_commit_def example_sequenced example_state_put_def)

lemma example_store_rep:
  "db_rep example_hashers (ls_db example_store) (new_infos example_hashers [example_commit] [7]) [WaypointWriteSet ()]
     [[example_event\<lparr>ev_sequence_number := 0\<rparr>]]"
proof -
  have "length ([] :: transaction_info list) + length [example_commit] \<le> 2 ^ 62" "0 < length ([] :: transaction_info list) + length [example_commit]"
    "length [7 :: hash_value] = length [example_commit]" by simp_all
  from save_transactions_rep [where state_put = example_state_put and li = "Some example_lis",
      OF example_save_conditions(1) this(1,2) example_save_conditions(2-4) this(3)]
  have "\<exists>st'. save_transactions example_hashers example_state_put example_empty [example_commit] 0 (Some example_lis) = Inr st' \<and>
      db_rep example_hashers (ls_db st') (new_infos example_hashers [example_commit] [7]) [ttc_transaction example_commit] [ttc_events example_commit]"
    by (simp add: example_lis_def example_new_infos) blast
  then obtain st where "save_transactions example_hashers example_state_put example_empty [example_commit] 0 (Some example_lis) = Inr st"
      "db_rep example_hashers (ls_db st) (new_infos example_hashers [example_commit] [7]) [ttc_transaction example_commit] [ttc_events example_commit]" by blast
  then show ?thesis by (simp add: example_store_def) (simp add: example_commit_def)
qed

lemma example_upto: "infos_upto (new_infos example_hashers [example_commit] [7]) 0 = new_infos example_hashers [example_commit] [7]"
  "length (new_infos example_hashers [example_commit] [7]) = 1"
  by (simp_all add: new_infos_def)

section \<open>Properties\<close>

text \<open>
  C11: Saving transactions extends the ledger. In a database with the transaction infos \<open>infos\<close> of the
  versions from 0, saving the next transactions with a ledger info that commits to the extended
  ledger, or with none, succeeds: the database then has the extended infos, transactions and events
  and their accumulators, and the ledger info is the latest. With a ledger info that does not commit
  to the extended ledger, or without transactions and ledger info, it returns an error.
\<close>

theorem save_transactions_extends:
  "db_rep K (ls_db st) infos txns evs \<Longrightarrow> length infos + length ts \<le> 2 ^ 62 \<Longrightarrow> 0 < length infos + length ts \<Longrightarrow>
   (\<And>t. t \<in> set ts \<Longrightarrow> length (ttc_events t) \<le> 2 ^ 62) \<Longrightarrow> sequenced [] (flat_events (evs @ map ttc_events ts)) \<Longrightarrow>
   state_put (map ttc_account_states ts) (of_nat (length infos)) = Inr (roots, bumps) \<Longrightarrow> length roots = length ts \<Longrightarrow>
   (let infos' = infos @ new_infos K ts roots
    in if (case li of None \<Rightarrow> ts \<noteq> [] | Some x \<Rightarrow> commits_to K (lis_ledger_info x) infos')
       then \<exists>st'. save_transactions K state_put st ts (of_nat (length infos)) li = Inr st' \<and>
         db_rep K (ls_db st') infos' (txns @ map ttc_transaction ts) (evs @ map ttc_events ts) \<and>
         ls_latest_ledger_info st' = (case li of None \<Rightarrow> ls_latest_ledger_info st | Some x \<Rightarrow> Some x)
       else \<exists>e. save_transactions K state_put st ts (of_nat (length infos)) li = Inl (Err e))"
  unfolding Let_def by (rule save_transactions_rep)

theorem save_transactions_extends_witness:
  "\<exists>st'. save_transactions example_hashers example_state_put example_empty [example_commit] 0 (Some example_lis) = Inr st' \<and>
     ls_latest_ledger_info st' = Some example_lis"
proof -
  have "length ([] :: transaction_info list) + length [example_commit] \<le> 2 ^ 62" "0 < length ([] :: transaction_info list) + length [example_commit]"
    "length [7 :: hash_value] = length [example_commit]" by simp_all
  from save_transactions_extends [where state_put = example_state_put and li = "Some example_lis",
      OF example_save_conditions(1) this(1,2) example_save_conditions(2-4) this(3)]
  show ?thesis by (simp add: example_lis_def example_new_infos) blast
qed

text \<open>
  C13: What \<open>get_transactions\<close> serves is accepted by the client. For a ledger version of the database
  and a ledger info that commits to the ledger up to it, a request for at most 1000 transactions
  returns the transactions and events of the versions asked for, with a proof that
  \<open>TransactionListWithProof::verify\<close> accepts.
\<close>

theorem get_transactions_verified:
  "db_rep K db infos txns evs \<Longrightarrow> length infos \<le> 2 ^ 62 \<Longrightarrow> unat lv < length infos \<Longrightarrow>
   commits_to K li (infos_upto infos lv) \<Longrightarrow> start \<le> lv \<Longrightarrow> 0 < limit \<Longrightarrow> limit \<le> MAX_LIMIT \<Longrightarrow>
   (let m = min (unat limit) (Suc (unat lv) - unat start)
    in \<exists>tl. get_transactions K db start limit lv fetch = Inr tl \<and>
       transaction_list_with_proof_verify K tl li (Some start) = Inr () \<and>
       tlw_transactions tl = take m (drop (unat start) txns) \<and>
       tlw_events tl = (if fetch then Some (take m (drop (unat start) evs)) else None))"
  unfolding Let_def by (rule transactions_verified)

theorem get_transactions_verified_witness:
  "\<exists>tl. get_transactions example_hashers (ls_db example_store) 0 1 0 True = Inr tl \<and>
     transaction_list_with_proof_verify example_hashers tl example_ledger (Some 0) = Inr () \<and>
     tlw_transactions tl = [WaypointWriteSet ()]"
  using get_transactions_verified [OF example_store_rep, of 0 example_ledger 0 1 True] example_new_infos
  by (auto simp: example_upto MAX_LIMIT_def)



end
