(* ===== verification/State_Proof.thy ===== *)
theory State_Proof
  imports Libra_Db
begin

text \<open>
  State proofs of LibraDB and the clients that verify them: what the columns of ledger infos and
  epochs represent, and that a client who is at most 100 epochs behind is brought to the latest
  ledger info by one state proof.
\<close>

abbreviation ver_of :: "ledger_info_with_signatures \<Rightarrow> version" where
  "ver_of li \<equiv> li_version (lis_ledger_info li)"

text \<open>
  The database has the ledger infos \<open>closed\<close> that ended the epochs \<open>0, 1, ...\<close> and, if the current
  epoch has one that does not end it, the latest of these.
\<close>

definition epochs_rep :: "'p ledger_store \<Rightarrow> ledger_info_with_signatures list \<Rightarrow> ledger_info_with_signatures list \<Rightarrow> bool" where
  "epochs_rep st closed open_li \<longleftrightarrow>
     length closed < 2 ^ 62 \<and> length open_li \<le> 1 \<and> closed @ open_li \<noteq> [] \<and>
     dense (col_ledger_info (ls_db st)) (closed @ open_li) \<and>
     bentries (col_epoch_by_version (ls_db st)) = map (\<lambda>e. (ver_of (closed ! e), of_nat e)) [0..<length closed] \<and>
     ls_latest_ledger_info st = Some (last (closed @ open_li)) \<and>
     (\<forall>e < length closed. li_epoch (lis_ledger_info (closed ! e)) = of_nat e \<and>
        (\<exists>es. next_epoch_state (lis_ledger_info (closed ! e)) = Some es \<and> es_epoch es = of_nat (Suc e))) \<and>
     (\<forall>li \<in> set open_li. li_epoch (lis_ledger_info li) = of_nat (length closed) \<and> \<not> ends_epoch (lis_ledger_info li))"

section \<open>Epochs\<close>

lemma versions_sorted: "epochs_rep st closed open_li \<Longrightarrow> sorted_wrt (<) (map ver_of closed)"
proof -
  assume "epochs_rep st closed open_li"
  then have b: "bentries (col_epoch_by_version (ls_db st)) = map (\<lambda>e. (ver_of (closed ! e), of_nat e)) [0..<length closed]"
    by (simp add: epochs_rep_def)
  have "sorted_keys (map (\<lambda>e. (ver_of (closed ! e), of_nat e :: u64)) [0..<length closed])"
    unfolding b [symmetric] by (rule sorted_bentries)
  moreover have "map fst (map (\<lambda>e. (ver_of (closed ! e), of_nat e :: u64)) [0..<length closed]) = map ver_of closed"
    by (rule nth_equalityI) simp_all
  ultimately show ?thesis by (simp only: sorted_keys_def)
qed

lemma filter_upto:
  "(\<And>i. i < n \<Longrightarrow> P i \<longleftrightarrow> i < k) \<Longrightarrow> k \<le> n \<Longrightarrow> filter P [0..<n] = [0..<k]"
proof -
  assume P: "\<And>i. i < n \<Longrightarrow> P i \<longleftrightarrow> i < k" and k: "k \<le> n"
  have "filter P [0..<k] = [0..<k]" using P k by (simp add: filter_id_conv)
  moreover have "filter P [k..<n] = []" using P by (simp add: filter_empty_conv)
  ultimately show ?thesis using upt_split [OF k] by simp
qed

lemma get_epoch_eq:
  assumes r: "epochs_rep st closed open_li" and k: "k \<le> length closed"
    and lt: "\<And>e. e < k \<Longrightarrow> ver_of (closed ! e) < v" and ge: "\<And>e. k \<le> e \<Longrightarrow> e < length closed \<Longrightarrow> v \<le> ver_of (closed ! e)"
  shows "get_epoch (ls_db st) v = Inr (of_nat k)"
proof -
  let ?col = "col_epoch_by_version (ls_db st)"
  have b: "bentries ?col = map (\<lambda>e. (ver_of (closed ! e), of_nat e)) [0..<length closed]" using r by (simp add: epochs_rep_def)
  define m where "m = (if k < length closed \<and> ver_of (closed ! k) = v then Suc k else k)"
  have s: "ver_of (closed ! i) < ver_of (closed ! j)" if "i < j" "j < length closed" for i j
    using versions_sorted [OF r] that by (auto simp: sorted_wrt_iff_nth_less)
  have mem: "ver_of (closed ! e) \<le> v \<longleftrightarrow> e < m" if "e < length closed" for e
  proof (cases e k rule: linorder_cases)
    case less
    then show ?thesis using lt [of e] by (auto simp: m_def)
  next
    case equal
    then show ?thesis using ge [of e] that by (auto simp: m_def)
  next
    case greater
    then have "ver_of (closed ! k) < ver_of (closed ! e)" "v \<le> ver_of (closed ! k)" using s [of k e] ge [of k] that by auto
    then show ?thesis using greater by (auto simp: m_def)
  qed
  have "filter (\<lambda>e. fst e \<le> v) (bentries ?col) = map (\<lambda>e. (ver_of (closed ! e), of_nat e)) (filter (\<lambda>e. ver_of (closed ! e) \<le> v) [0..<length closed])"
    unfolding b filter_map comp_def by simp
  also have "filter (\<lambda>e. ver_of (closed ! e) \<le> v) [0..<length closed] = [0..<m]"
    using mem k by (intro filter_upto) (auto simp: m_def)
  finally have f: "filter (\<lambda>e. fst e \<le> v) (bentries ?col) = map (\<lambda>e. (ver_of (closed ! e), of_nat e)) [0..<m]" .
  show ?thesis
  proof (cases m)
    case 0
    then have "bseek_for_prev ?col v = []" by (simp add: bseek_for_prev_def f)
    moreover have "k = 0" using 0 by (auto simp: m_def split: if_splits)
    ultimately show ?thesis by (simp add: get_epoch_def)
  next
    case (Suc i)
    let ?e = "(ver_of (closed ! i), of_nat i :: u64)"
    have il: "i < length closed" using Suc k by (auto simp: m_def split: if_splits)
    obtain rest where sk: "bseek_for_prev ?col v = ?e # rest"
    proof (cases rule: bseek_for_prev_cases [of ?col v])
      case none
      from none(2) [of ?e] b il mem [OF il] Suc show thesis by auto
    next
      case (some x rest)
      from some(2) b obtain j where j: "j < length closed" "x = (ver_of (closed ! j), of_nat j)" by auto
      have "j < m" using mem [OF j(1)] some(3) j(2) by simp
      moreover have "ver_of (closed ! i) \<le> ver_of (closed ! j)" using some(4) [of ?e] b il mem [OF il] Suc j(2) by auto
      then have "i \<le> j" using s [of j i] il by (metis leD not_le_imp_less)
      ultimately have "j = i" using Suc by simp
      with some(1) j(2) show thesis by (intro that) simp
    qed
    have "ver_of (closed ! i) \<le> v" using mem [OF il] Suc by simp
    moreover have "(if ver_of (closed ! i) < v then of_nat i + 1 else of_nat i) = (of_nat k :: u64)"
      using Suc lt [of i] by (auto simp: m_def split: if_splits)
    ultimately show ?thesis by (simp add: get_epoch_def sk)
  qed
qed

lemma latest_epoch:
  assumes r: "epochs_rep st closed open_li"
  shows "next_block_epoch (commit_info (lis_ledger_info (last (closed @ open_li)))) = of_nat (length closed)"
proof (cases "open_li = []")
  case True
  then have "closed \<noteq> []" using r by (simp add: epochs_rep_def)
  then have "length closed - 1 < length closed" "Suc (length closed - 1) = length closed" by simp_all
  with r True obtain es where "next_epoch_state (lis_ledger_info (last closed)) = Some es" "es_epoch es = of_nat (length closed)"
    unfolding epochs_rep_def by (metis last_conv_nth \<open>closed \<noteq> []\<close>)
  with True show ?thesis by (simp add: next_block_epoch_def)
next
  case False
  then obtain li where "open_li = [li]" using r by (cases open_li) (auto simp: epochs_rep_def)
  with r show ?thesis by (auto simp: epochs_rep_def next_block_epoch_def ends_epoch_def)
qed

lemma closed_ends: "epochs_rep st closed open_li \<Longrightarrow> e < length closed \<Longrightarrow> ends_epoch (lis_ledger_info (closed ! e))"
  by (auto simp: epochs_rep_def ends_epoch_def)

lemma epoch_iter_step:
  assumes "a < length xs" "(of_nat a :: u64) < of_nat b" "ends_epoch (lis_ledger_info (xs ! a))"
  shows "epoch_ending_iter_next \<lparr>ei_inner = map (\<lambda>i. (of_nat i, xs ! i)) [a..<length xs], ei_next_epoch = of_nat a, ei_end_epoch = of_nat b\<rparr> =
    Inr (Some (xs ! a), \<lparr>ei_inner = map (\<lambda>i. (of_nat i, xs ! i)) [Suc a..<length xs], ei_next_epoch = of_nat (Suc a), ei_end_epoch = of_nat b\<rparr>)"
proof -
  have "map (\<lambda>i. (of_nat i :: u64, xs ! i)) [a..<length xs] = (of_nat a, xs ! a) # map (\<lambda>i. (of_nat i, xs ! i)) [Suc a..<length xs]"
    using assms(1) by (simp add: upt_conv_Cons del: upt_Suc)
  with assms show ?thesis by (simp add: epoch_ending_iter_next_def add.commute del: upt_Suc)
qed

lemma iter_collect_eq:
  assumes "\<And>e. e < b \<Longrightarrow> ends_epoch (lis_ledger_info (xs ! e))" "b \<le> length xs" "b < 2 ^ 64"
  shows "a \<le> b \<Longrightarrow> b - a \<le> n \<Longrightarrow>
    iter_collect epoch_ending_iter_next n
      \<lparr>ei_inner = map (\<lambda>i. (of_nat i, xs ! i)) [a..<length xs], ei_next_epoch = of_nat a, ei_end_epoch = of_nat b\<rparr> =
    Inr (take (b - a) (drop a xs))"
proof (induction n arbitrary: a)
  case 0
  then show ?case by (simp add: epoch_ending_iter_next_def)
next
  case (Suc n)
  show ?case
  proof (cases "a = b")
    case True
    then show ?thesis by (simp add: epoch_ending_iter_next_def)
  next
    case False
    then have ab: "a < b" using Suc.prems by simp
    then have al: "a < length xs" using assms(2) by simp
    have w: "(of_nat a :: u64) < of_nat b" using ab assms(3) by (rule of_nat_less_u64)
    have "take (b - a) (drop a xs) = xs ! a # take (b - Suc a) (drop (Suc a) xs)"
      using ab al by (simp add: Cons_nth_drop_Suc [symmetric] take_Cons')
    moreover have "Suc a \<le> b" "b - Suc a \<le> n" using ab Suc.prems by simp_all
    ultimately show ?thesis
      using Suc.IH [of "Suc a"] epoch_iter_step [OF al w assms(1) [OF ab]] by (simp del: upt_Suc of_nat_Suc)
  qed
qed

lemma epoch_ending_infos_eq:
  assumes r: "epochs_rep st closed open_li" and ab: "a \<le> b" "b \<le> length closed" and lim: "limit < 2 ^ 62"
  shows "get_epoch_ending_ledger_infos_impl st (of_nat a) (of_nat b) limit =
    Inr (take (min limit (b - a)) (drop a closed), limit < b - a)"
proof -
  have l: "length closed < 2 ^ 62" using r by (simp add: epochs_rep_def)
  have u: "unat (of_nat a :: u64) = a" "unat (of_nat b :: u64) = b" "unat (of_nat limit :: u64) = limit"
    "unat (of_nat (length closed) :: u64) = length closed"
    using ab l lim by (simp_all add: unat_of_nat_u64)
  have le: "(of_nat a :: u64) \<le> of_nat b" "(of_nat b :: u64) \<le> of_nat (length closed)" using ab by (simp_all add: word_le_nat_alt u)
  have d: "unat (of_nat b - of_nat a :: u64) = b - a" using le(1) ab by (simp add: unat_sub_if' u)
  have more: "(of_nat limit :: u64) < of_nat b - of_nat a \<longleftrightarrow> limit < b - a" by (simp add: word_less_nat_alt d u)
  define c where "c = (if limit < b - a then a + limit else b)"
  have c: "a \<le> c" "c \<le> length closed" "c - a = min limit (b - a)" using ab by (auto simp: c_def)
  have pe: "(if limit < b - a then (of_nat a + of_nat limit :: u64, True) else (of_nat b, False)) = (of_nat c, limit < b - a)" by (simp add: c_def)
  have "bseek (col_ledger_info (ls_db st)) (of_nat a) = map (\<lambda>i. (of_nat i, (closed @ open_li) ! i)) [a..<length (closed @ open_li)]"
    using r dense_bseek [of _ "closed @ open_li" "of_nat a"] u(1) by (simp add: epochs_rep_def)
  then have it: "get_epoch_ending_ledger_info_iter (ls_db st) (of_nat a) (of_nat c) =
      \<lparr>ei_inner = map (\<lambda>i. (of_nat i, (closed @ open_li) ! i)) [a..<length (closed @ open_li)], ei_next_epoch = of_nat a, ei_end_epoch = of_nat c\<rparr>"
    by (simp only: get_epoch_ending_ledger_info_iter_def)
  have ends: "ends_epoch (lis_ledger_info ((closed @ open_li) ! e))" if "e < c" for e
    using closed_ends [OF r, of e] that c(2) by (simp add: nth_append)
  have "take (c - a) (drop a (closed @ open_li)) = take (c - a) (drop a closed)" using c by simp
  then have col: "epoch_ending_iter_collect (get_epoch_ending_ledger_info_iter (ls_db st) (of_nat a) (of_nat c)) = Inr (take (c - a) (drop a closed))"
    unfolding it epoch_ending_iter_collect_def using iter_collect_eq [where xs = "closed @ open_li" and b = c and a = a and n = "length (closed @ open_li) - a", OF ends] c l by simp
  have "unat (of_nat c - of_nat a :: u64) = c - a"
  proof -
    have "unat (of_nat c :: u64) = c" using c l by (simp add: unat_of_nat_u64)
    with c u(1) show ?thesis by (simp add: unat_sub_if')
  qed
  moreover have "length (take (c - a) (drop a closed)) = c - a" using c by simp
  moreover have "get_latest_ledger_info st = Inr (last (closed @ open_li))" using r by (simp add: get_latest_ledger_info_def epochs_rep_def)
  ultimately show ?thesis
    using col le latest_epoch [OF r] by (simp add: get_epoch_ending_ledger_infos_impl_def Let_def more pe c(3))
qed

section \<open>State proofs\<close>

lemma state_proof_eq:
  assumes r: "epochs_rep st closed open_li" and k: "k \<le> length closed" "length closed \<le> k + 100"
    and lt: "\<And>e. e < k \<Longrightarrow> ver_of (closed ! e) < v" and ge: "\<And>e. k \<le> e \<Longrightarrow> e < length closed \<Longrightarrow> v \<le> ver_of (closed ! e)"
    and l: "ledger_rep K (ls_db st) infos" "length infos \<le> 2 ^ 62" "unat (ver_of (last (closed @ open_li))) < length infos" "v \<le> ver_of (last (closed @ open_li))"
  shows "\<exists>cp. get_state_proof st v = Inr (last (closed @ open_li), \<lparr>ecp_ledger_infos = drop k closed, ecp_more = False\<rparr>, cp)"
proof -
  let ?li = "last (closed @ open_li)" and ?lv = "ver_of (last (closed @ open_li))"
  let ?xs = "map (h_transaction_info K) (infos_upto infos ?lv)"
  have n: "length closed < 2 ^ 62" using r by (simp add: epochs_rep_def)
  have ge: "get_epoch (ls_db st) v = Inr (of_nat k)" by (rule get_epoch_eq [OF r k(1) lt ge])
  have kl: "(of_nat k :: u64) < of_nat (length closed) \<longleftrightarrow> k < length closed"
    using k n unat_of_nat_u64 [of k] unat_of_nat_u64 [of "length closed"] by (simp add: word_less_nat_alt)
  have ei: "get_epoch_ending_ledger_infos st (of_nat k) (of_nat (length closed)) = Inr (drop k closed, False)"
    using epoch_ending_infos_eq [OF r k(1) order_refl, of 100] k
    by (simp add: get_epoch_ending_ledger_infos_def MAX_NUM_EPOCH_ENDING_LEDGER_INFO_def min_absorb2)
  have vl: "Suc (unat v) \<le> length ?xs" using l by (simp add: word_le_nat_alt)
  have "v + 1 = of_nat (Suc (unat v))" by (simp add: add.commute)
  then have "ledger_get_consistency_proof (ls_db st) v ?lv =
      Inr \<lparr>acp_subtrees = map (\<lambda>(l, p). thash (h_txn_accumulator K) ?xs l p) (sibling_nodes (Suc (unat v)) (length ?xs - Suc (unat v)))\<rparr>"
    using get_consistency_proof_tree [OF ledger_rep_upto [OF l(1)] vl] l(2)
    by (simp add: ledger_get_consistency_proof_def merkle_accumulator_get_consistency_proof_def ledger_view [OF l(3), where h = "h_transaction_info K"] del: of_nat_Suc)
  moreover have "get_latest_ledger_info st = Inr ?li" using r by (simp add: get_latest_ledger_info_def epochs_rep_def)
  ultimately show ?thesis
    using ge ei kl k latest_epoch [OF r]
    by (cases "k < length closed") (simp_all add: get_state_proof_def get_state_proof_with_ledger_info_def Let_def)
qed

text \<open>Each ledger info is signed by a quorum of the epoch that the one before it opened.\<close>

definition chain_ok :: "ledger_info sig_scheme \<Rightarrow> ledger_info_with_signatures list \<Rightarrow> bool" where
  "chain_ok S lis \<longleftrightarrow> (\<forall>e. Suc e < length lis \<longrightarrow> jump S (lis ! e) (lis ! Suc e))"

lemma fresh_closed:
  assumes r: "epochs_rep st closed open_li" and j: "Suc j < length closed" and es: "es_epoch es = of_nat (Suc j)" and k: "k = j \<or> k = Suc j"
  shows "fresh (EpochStateVerifier es) \<lparr>ecp_ledger_infos = drop k closed, ecp_more = False\<rparr> = drop (Suc j) closed"
proof -
  have n: "length closed < 2 ^ 62" using r by (simp add: epochs_rep_def)
  have stale: "is_ledger_info_stale (EpochStateVerifier es) (lis_ledger_info (closed ! e)) \<longleftrightarrow> e < Suc j" if "e < length closed" for e
  proof -
    have "li_epoch (lis_ledger_info (closed ! e)) = of_nat e" using r that by (simp add: epochs_rep_def)
    moreover have "unat (of_nat e :: u64) = e" "unat (of_nat (Suc j) :: u64) = Suc j" using that j n by (simp_all add: unat_of_nat_u64 del: of_nat_Suc)
    ultimately show ?thesis by (simp add: es word_less_nat_alt del: of_nat_Suc)
  qed
  have "drop (Suc j) closed = closed ! Suc j # drop (Suc (Suc j)) closed" using j by (simp add: Cons_nth_drop_Suc)
  then have d: "dropWhile (\<lambda>li. is_ledger_info_stale (EpochStateVerifier es) (lis_ledger_info li)) (drop (Suc j) closed) = drop (Suc j) closed"
    using stale [of "Suc j"] j by simp
  have "drop j closed = closed ! j # drop (Suc j) closed" using j by (simp add: Cons_nth_drop_Suc)
  with k d stale [of j] j show ?thesis by (auto simp: fresh_def simp del: is_ledger_info_stale.simps)
qed

lemma state_proof_accepted:
  assumes r: "epochs_rep st closed open_li" and ch: "chain_ok S (closed @ open_li)" and j: "j < length closed"
    and es: "next_epoch_state (lis_ledger_info (closed ! j)) = Some es" and v: "ts_verifier ts = EpochStateVerifier es"
    and old: "ver_of (closed ! j) \<le> latest_version ts" "latest_version ts \<le> ver_of (last (closed @ open_li))"
    and same: "latest_version ts = ver_of (last (closed @ open_li)) \<Longrightarrow> verified_state ts = waypoint_new_any hw (lis_ledger_info (last (closed @ open_li)))"
    and k: "k = j \<or> k = Suc j"
  shows "\<exists>c. verify_and_ratchet S hw ts (last (closed @ open_li)) \<lparr>ecp_ledger_infos = drop k closed, ecp_more = False\<rparr> = Inr c \<and>
    (case c of NoChange \<Rightarrow> latest_version ts = ver_of (last (closed @ open_li))
     | VersionChange ts' \<Rightarrow> latest_version ts' = ver_of (last (closed @ open_li))
     | EpochChange ts' _ \<Rightarrow> latest_version ts' = ver_of (last (closed @ open_li)))"
proof -
  let ?li = "last (closed @ open_li)" and ?pf = "\<lparr>ecp_ledger_infos = drop k closed, ecp_more = False\<rparr>"
  have n: "length closed < 2 ^ 62" using r by (simp add: epochs_rep_def)
  have ee: "es_epoch es = of_nat (Suc j)" using r j es by (auto simp: epochs_rep_def)
  have jmp: "jump S ((closed @ open_li) ! e) ((closed @ open_li) ! Suc e)" if "Suc e < length (closed @ open_li)" for e
    using ch that by (simp add: chain_ok_def)
  have u: "unat (of_nat (Suc j) :: u64) = Suc j" "unat (of_nat (length closed) :: u64) = length closed"
    using j n by (simp_all add: unat_of_nat_u64 del: of_nat_Suc)
  have req: "epoch_change_verification_required (ts_verifier ts) (next_block_epoch (commit_info (lis_ledger_info ?li))) \<longleftrightarrow> Suc j < length closed"
    by (simp add: v latest_epoch [OF r] ee word_less_nat_alt u del: of_nat_Suc)
  show ?thesis
  proof (cases "Suc j < length closed")
    case True
    have ne: "closed \<noteq> []" using j by auto
    have f: "fresh (ts_verifier ts) ?pf = drop (Suc j) closed" unfolding v by (rule fresh_closed [OF r True ee k])
    have c1: "drop (Suc j) closed = closed ! Suc j # drop (Suc (Suc j)) closed" using True by (simp add: Cons_nth_drop_Suc)
    have "jump S (closed ! j) (closed ! Suc j)" using jmp [of j] True by (simp add: nth_append)
    then have chk: "verifier_check S hw (ts_verifier ts) (closed ! Suc j) = Inr ()" using es by (simp add: v jump_def)
    have jl: "jump S ((closed ! Suc j # drop (Suc (Suc j)) closed) ! i) (drop (Suc (Suc j)) closed ! i)" if "i < length (drop (Suc (Suc j)) closed)" for i
    proof -
      have "Suc (Suc (j + i)) < length closed" using that by simp
      with jmp [of "Suc (j + i)"] show ?thesis unfolding c1 [symmetric] by (simp add: nth_append)
    qed
    have last: "last (drop (Suc j) closed) = last closed" using True by (simp add: last_drop)
    obtain es' where es': "next_epoch_state (lis_ledger_info (last closed)) = Some es'"
      using closed_ends [OF r, of "length closed - 1"] ne last_conv_nth [OF ne] by (auto simp: ends_epoch_def)
    have vj: "verify_jumps S hw (ts_verifier ts) (drop (Suc j) closed) = Inr ()"
      unfolding c1 verify_jumps_Cons using chk jl es' last c1 by (simp add: ends_epoch_def)
    have ns: "\<not> is_ledger_info_stale (ts_verifier ts) (lis_ledger_info (last closed))"
    proof -
      have "length closed - 1 < length closed" using j by simp
      then have "li_epoch (lis_ledger_info (closed ! (length closed - 1))) = of_nat (length closed - 1)" using r unfolding epochs_rep_def by blast
      then have "li_epoch (lis_ledger_info (last closed)) = of_nat (length closed - 1)" using last_conv_nth [OF ne] by simp
      moreover have "unat (of_nat (length closed - 1) :: u64) = length closed - 1" using n by (intro unat_of_nat_u64) simp
      ultimately show ?thesis using True by (simp add: v ee word_less_nat_alt u del: of_nat_Suc)
    qed
    have ev: "epoch_change_proof_verify S hw ?pf (ts_verifier ts) = Inr (last closed)"
      unfolding epoch_change_proof_verify_eq f using vj ns last True by simp
    have "epoch_state_verify S es' ?li = Inr ()" if "last closed \<noteq> ?li"
    proof -
      from that obtain x where x: "open_li = [x]" using r by (cases open_li) (auto simp: epochs_rep_def)
      have "(closed @ [x]) ! (length closed - 1) = last closed" "(closed @ [x]) ! Suc (length closed - 1) = x"
        using ne by (simp_all add: nth_append last_conv_nth)
      with jmp [of "length closed - 1"] x ne have "jump S (last closed) x" by simp
      with es' x show ?thesis by (simp add: jump_def)
    qed
    then show ?thesis using old(2) req True ev es'
      by (simp add: verify_and_ratchet_def Let_def latest_version_def)
  next
    case False
    then have jl: "Suc j = length closed" using j by simp
    then have lc: "last closed = closed ! j" using j by (metis diff_Suc_1 last_conv_nth length_0_conv not_less_zero)
    show ?thesis
    proof (cases "latest_version ts = ver_of ?li")
      case True
      with same old(2) req False show ?thesis
        by (simp add: verify_and_ratchet_def Let_def latest_version_def)
    next
      case ne: False
      have "open_li \<noteq> []"
      proof
        assume "open_li = []"
        with lc old ne show False by simp
      qed
      then obtain x where x: "open_li = [x]" using r by (cases open_li) (auto simp: epochs_rep_def)
      have "jump S (closed ! j) x" using jmp [of j] jl x by (simp add: nth_append)
      then have "epoch_state_verify S es ?li = Inr ()" using es x by (simp add: jump_def)
      then show ?thesis using old(2) req False ne
        by (simp add: verify_and_ratchet_def Let_def latest_version_def v)
    qed
  qed
qed

text \<open>A database with two transactions, an ended epoch and a ledger info of the next, for the example.\<close>

definition example_closed :: ledger_info_with_signatures where
  "example_closed =
     \<lparr>lis_ledger_info = \<lparr>commit_info = block_info_empty\<lparr>bi_next_epoch_state := Some \<lparr>es_epoch = 1, es_verifier = verifier_new bempty\<rparr>\<rparr>,
        consensus_data_hash = 0\<rparr>, lis_signatures = bempty\<rparr>"

definition example_open :: ledger_info_with_signatures where
  "example_open =
     \<lparr>lis_ledger_info = \<lparr>commit_info = block_info_empty\<lparr>bi_epoch := 1, bi_version := 1\<rparr>, consensus_data_hash = 0\<rparr>, lis_signatures = bempty\<rparr>"

definition example_two :: "unit db_columns" where
  "example_two = (case ledger_append example_hashers columns_empty [example_info, example_info] of Inr (_, db) \<Rightarrow> db | Inl _ \<Rightarrow> columns_empty)"

definition example_epochs :: "unit ledger_store" where
  "example_epochs =
     \<lparr>ls_db = example_two\<lparr>col_ledger_info := binsert 0 example_closed (binsert 1 example_open bempty), col_epoch_by_version := binsert 0 0 bempty\<rparr>,
      ls_latest_ledger_info = Some example_open\<rparr>"

definition example_client :: trusted_state where
  "example_client =
     \<lparr>verified_state = waypoint_new_any example_hasher (lis_ledger_info example_closed),
      ts_verifier = EpochStateVerifier \<lparr>es_epoch = 1, es_verifier = verifier_new bempty\<rparr>\<rparr>"

lemma example_epochs_ledger: "ledger_rep example_hashers (ls_db example_epochs) [example_info, example_info]"
proof -
  obtain root db where db: "ledger_append example_hashers columns_empty [example_info, example_info] = Inr (root, db)" "ledger_rep example_hashers db [example_info, example_info]"
    using store_log.rep_append [OF ledger_rep_empty, of "[example_info, example_info]" example_hashers] by auto
  then show ?thesis by (simp add: example_epochs_def example_two_def ledger_rep_def ledger_reader_def)
qed

lemma example_epochs_rep: "epochs_rep example_epochs [example_closed] [example_open]"
proof -
  have "ins_entry 0 example_closed [(1 :: u64, example_open)] = [(0, example_closed), (1, example_open)]" by simp
  then show ?thesis
    by (simp add: epochs_rep_def example_epochs_def dense_def)
      (simp add: example_closed_def example_open_def block_info_empty_def ends_epoch_def)
qed

lemma example_chain: "chain_ok example_scheme [example_closed, example_open]"
  by (simp add: chain_ok_def jump_def example_closed_def example_open_def block_info_empty_def epoch_state_verify_def lis_verify_signatures_def
      batch_verify_aggregated_signatures_def check_num_of_signatures_def check_voting_power_def verify_aggregated_struct_signature_def
      verifier_new_def sum_voting_power_def blen_def bkeys_def verifier_len_def Let_def bvalues_def)

section \<open>Properties\<close>



end
