(* ===== verification/Consensus_Types.thy ===== *)
theory Consensus_Types
  imports Transaction_Proof Epoch_Change Accumulator_Proof
begin

text \<open>
  The data of the consensus protocol and its checks (\<open>consensus/consensus-types/src\<close>): votes,
  quorum and timeout certificates, blocks and the messages that carry them, and the signer of a
  validator (\<open>types/src/validator_signer.rs\<close>). The hash of a structure, the bytes that are signed
  for it and the arithmetic of the signatures are the fields of \<open>consensus_crypto\<close>. The second half
  proves what an accepted certificate and an accepted message say.
\<close>

section \<open>Votes and certificates\<close>

type_synonym author = account_address
type_synonym ed25519_private_key = "u8 list"
type_synonym 'p payload = "'p signed_transaction list"

record vote_data =
  vd_proposed :: block_info
  vd_parent :: block_info

record timeout =
  to_epoch :: u64
  to_round :: round

record quorum_cert =
  qc_vote_data :: vote_data
  qc_signed_ledger_info :: ledger_info_with_signatures

record timeout_certificate =
  tc_timeout :: timeout
  tc_signatures :: signatures

record vote =
  vote_vote_data :: vote_data
  vote_author :: author
  vote_ledger_info :: ledger_info
  vote_signature :: ed25519_signature
  vote_timeout_signature :: "ed25519_signature option"

section \<open>Blocks\<close>

datatype 'p block_type =
    Proposal (bt_payload: "'p payload") (bt_author: author)
  | NilBlock
  | Genesis

record 'p block_data =
  bd_epoch :: u64
  bd_round :: round
  bd_timestamp_usecs :: u64
  bd_quorum_cert :: quorum_cert
  bd_block_type :: "'p block_type"

record 'p block =
  block_id :: hash_value
  block_block_data :: "'p block_data"
  block_signature :: "ed25519_signature option"

record 'p vote_proposal =
  vp_accumulator_extension_proof :: accumulator_extension_proof
  vp_block :: "'p block"
  vp_next_epoch_state :: "epoch_state option"

record 'p maybe_signed_vote_proposal =
  ms_vote_proposal :: "'p vote_proposal"
  ms_signature :: "ed25519_signature option"

text \<open>What the code of this repository does not define: the schemes and the hash functions.\<close>

record 'p consensus_crypto =
  cc_ledger_info :: "ledger_info sig_scheme"
  cc_timeout :: "timeout sig_scheme"
  cc_block_data :: "'p block_data sig_scheme"
  cc_vote_proposal :: "'p vote_proposal sig_scheme"
  cc_dalek_sign :: "ed25519_private_key \<Rightarrow> u8 list \<Rightarrow> ed25519_signature"
  cc_dalek_public_key :: "ed25519_private_key \<Rightarrow> ed25519_public_key"
  cc_vote_data_hash :: "vote_data \<Rightarrow> hash_value"
  cc_block_data_hash :: "'p block_data \<Rightarrow> hash_value"
  cc_txn_accumulator :: node_hasher
  cc_waypoint :: waypoint_hasher

section \<open>The signer of a validator\<close>

record validator_signer =
  vs_author :: author
  vs_private_key :: ed25519_private_key

definition private_key_sign ::
    "'p consensus_crypto \<Rightarrow> 'm sig_scheme \<Rightarrow> ed25519_private_key \<Rightarrow> 'm \<Rightarrow> ('e, ed25519_signature) result" where
  "private_key_sign C S self message =
     rbind (expect (encode_msg S message) ''Serialization of signable material should not fail.'') (\<lambda>bytes.
     Inr (cc_dalek_sign C self bytes))"

definition signer_sign ::
    "'p consensus_crypto \<Rightarrow> 'm sig_scheme \<Rightarrow> validator_signer \<Rightarrow> 'm \<Rightarrow> ('e, ed25519_signature) result" where
  "signer_sign C S self message = private_key_sign C S (vs_private_key self) message"

definition signer_public_key :: "'p consensus_crypto \<Rightarrow> validator_signer \<Rightarrow> ed25519_public_key" where
  "signer_public_key C self = cc_dalek_public_key C (vs_private_key self)"

section \<open>Operations on votes\<close>

definition vote_data_verify :: "vote_data \<Rightarrow> unit anyhow" where
  "vote_data_verify self =
     rbind (ensure (bi_epoch (vd_parent self) = bi_epoch (vd_proposed self)) ''Parent and proposed epochs do not match'') (\<lambda>_.
     rbind (ensure (bi_round (vd_parent self) < bi_round (vd_proposed self)) ''Proposed round is less than parent round'') (\<lambda>_.
     rbind (ensure (bi_timestamp_usecs (vd_parent self) \<le> bi_timestamp_usecs (vd_proposed self)) ''Proposed happened before parent'') (\<lambda>_.
     rbind (ensure (bi_version (vd_parent self) \<le> bi_version (vd_proposed self)) ''Proposed version is less than parent version'') (\<lambda>_.
     Inr ()))))"

definition vote_new ::
    "'p consensus_crypto \<Rightarrow> vote_data \<Rightarrow> author \<Rightarrow> ledger_info \<Rightarrow> validator_signer \<Rightarrow> ('e, vote) result" where
  "vote_new C vote_data author ledger_info_placeholder validator_signer =
     (let li = ledger_info_placeholder\<lparr>consensus_data_hash := cc_vote_data_hash C vote_data\<rparr>
      in rbind (signer_sign C (cc_ledger_info C) validator_signer li) (\<lambda>li_sig.
         Inr \<lparr>vote_vote_data = vote_data, vote_author = author, vote_ledger_info = li, vote_signature = li_sig,
              vote_timeout_signature = None\<rparr>))"

definition add_timeout_signature :: "ed25519_signature \<Rightarrow> vote \<Rightarrow> vote" where
  "add_timeout_signature signature self =
     (if vote_timeout_signature self \<noteq> None then self else self\<lparr>vote_timeout_signature := Some signature\<rparr>)"

definition vote_timeout :: "vote \<Rightarrow> timeout" where
  "vote_timeout self =
     \<lparr>to_epoch = bi_epoch (vd_proposed (vote_vote_data self)), to_round = bi_round (vd_proposed (vote_vote_data self))\<rparr>"

abbreviation vote_epoch :: "vote \<Rightarrow> u64" where
  "vote_epoch self \<equiv> bi_epoch (vd_proposed (vote_vote_data self))"

abbreviation vote_round :: "vote \<Rightarrow> round" where
  "vote_round self \<equiv> bi_round (vd_proposed (vote_vote_data self))"

definition vote_is_timeout :: "vote \<Rightarrow> bool" where
  "vote_is_timeout self \<longleftrightarrow> vote_timeout_signature self \<noteq> None"

definition vote_verify :: "'p consensus_crypto \<Rightarrow> vote \<Rightarrow> validator_verifier \<Rightarrow> unit anyhow" where
  "vote_verify C self validator =
     rbind (ensure (consensus_data_hash (vote_ledger_info self) = cc_vote_data_hash C (vote_vote_data self))
       ''Vote's hash mismatch with LedgerInfo'') (\<lambda>_.
     rbind (rmap_err (\<lambda>_. ''Failed to verify Vote'')
       (verifier_verify (cc_ledger_info C) validator (vote_author self) (vote_ledger_info self) (vote_signature self))) (\<lambda>_.
     case vote_timeout_signature self of
       Some timeout_signature \<Rightarrow>
         rmap_err (\<lambda>_. ''Failed to verify Timeout Vote'')
           (verifier_verify (cc_timeout C) validator (vote_author self) (vote_timeout self) timeout_signature)
     | None \<Rightarrow> Inr ()))"

section \<open>Operations on certificates\<close>

abbreviation certified_block :: "quorum_cert \<Rightarrow> block_info" where
  "certified_block self \<equiv> vd_proposed (qc_vote_data self)"

abbreviation parent_block :: "quorum_cert \<Rightarrow> block_info" where
  "parent_block self \<equiv> vd_parent (qc_vote_data self)"

abbreviation qc_ledger_info :: "quorum_cert \<Rightarrow> ledger_info" where
  "qc_ledger_info self \<equiv> lis_ledger_info (qc_signed_ledger_info self)"

definition qc_ends_epoch :: "quorum_cert \<Rightarrow> bool" where
  "qc_ends_epoch self \<longleftrightarrow> ends_epoch (qc_ledger_info self)"

definition certificate_for_genesis_from_ledger_info ::
    "'p consensus_crypto \<Rightarrow> ledger_info \<Rightarrow> hash_value \<Rightarrow> quorum_cert" where
  "certificate_for_genesis_from_ledger_info C li genesis_id =
     (let ancestor = \<lparr>bi_epoch = li_epoch li + 1, bi_round = 0, bi_id = genesis_id,
            bi_executed_state_id = transaction_accumulator_hash li, bi_version = li_version li,
            bi_timestamp_usecs = bi_timestamp_usecs (commit_info li), bi_next_epoch_state = None\<rparr>;
          vote_data = \<lparr>vd_proposed = ancestor, vd_parent = ancestor\<rparr>;
          li = \<lparr>commit_info = ancestor, consensus_data_hash = cc_vote_data_hash C vote_data\<rparr>
      in \<lparr>qc_vote_data = vote_data, qc_signed_ledger_info = \<lparr>lis_ledger_info = li, lis_signatures = bempty\<rparr>\<rparr>)"

definition quorum_cert_verify :: "'p consensus_crypto \<Rightarrow> quorum_cert \<Rightarrow> validator_verifier \<Rightarrow> unit anyhow" where
  "quorum_cert_verify C self validator =
     rbind (ensure (consensus_data_hash (qc_ledger_info self) = cc_vote_data_hash C (qc_vote_data self))
       ''Quorum Cert's hash mismatch LedgerInfo'') (\<lambda>_.
     if bi_round (certified_block self) = 0 then
       rbind (ensure (parent_block self = certified_block self)
         ''Genesis QC has inconsistent parent block with certified block'') (\<lambda>_.
       rbind (ensure (certified_block self = commit_info (qc_ledger_info self))
         ''Genesis QC has inconsistent commit block with certified block'') (\<lambda>_.
       rbind (ensure (blen (lis_signatures (qc_signed_ledger_info self)) = 0) ''Genesis QC should not carry signatures'') (\<lambda>_.
       Inr ())))
     else
       rbind (rmap_err (\<lambda>_. ''Fail to verify QuorumCert'')
         (lis_verify_signatures (cc_ledger_info C) (qc_signed_ledger_info self) validator)) (\<lambda>_.
       vote_data_verify (qc_vote_data self)))"

definition timeout_certificate_new :: "timeout \<Rightarrow> timeout_certificate" where
  "timeout_certificate_new timeout = \<lparr>tc_timeout = timeout, tc_signatures = bempty\<rparr>"

definition timeout_certificate_verify :: "'p consensus_crypto \<Rightarrow> timeout_certificate \<Rightarrow> validator_verifier \<Rightarrow> unit anyhow" where
  "timeout_certificate_verify C self validator =
     rmap_err (\<lambda>_. ''Failed to verify TimeoutCertificate'')
       (verify_aggregated_struct_signature (cc_timeout C) validator (tc_timeout self) (tc_signatures self))"

abbreviation tc_round :: "timeout_certificate \<Rightarrow> round" where
  "tc_round self \<equiv> to_round (tc_timeout self)"

definition tc_add_signature :: "author \<Rightarrow> ed25519_signature \<Rightarrow> timeout_certificate \<Rightarrow> timeout_certificate" where
  "tc_add_signature author signature self =
     (if bcontains (tc_signatures self) author then self
      else self\<lparr>tc_signatures := binsert author signature (tc_signatures self)\<rparr>)"

definition tc_remove_signature :: "author \<Rightarrow> timeout_certificate \<Rightarrow> timeout_certificate" where
  "tc_remove_signature author self = self\<lparr>tc_signatures := bremove author (tc_signatures self)\<rparr>"

section \<open>Operations on blocks\<close>

definition bd_author :: "'p block_data \<Rightarrow> author option" where
  "bd_author self = (case bd_block_type self of Proposal _ author \<Rightarrow> Some author | _ \<Rightarrow> None)"

definition bd_payload :: "'p block_data \<Rightarrow> 'p payload option" where
  "bd_payload self = (case bd_block_type self of Proposal payload _ \<Rightarrow> Some payload | _ \<Rightarrow> None)"

definition bd_is_genesis_block :: "'p block_data \<Rightarrow> bool" where
  "bd_is_genesis_block self \<longleftrightarrow> (case bd_block_type self of Genesis \<Rightarrow> True | _ \<Rightarrow> False)"

definition bd_is_nil_block :: "'p block_data \<Rightarrow> bool" where
  "bd_is_nil_block self \<longleftrightarrow> (case bd_block_type self of NilBlock \<Rightarrow> True | _ \<Rightarrow> False)"

definition block_data_new_genesis :: "u64 \<Rightarrow> quorum_cert \<Rightarrow> 'p block_data" where
  "block_data_new_genesis timestamp_usecs quorum_cert =
     \<lparr>bd_epoch = bi_epoch (certified_block quorum_cert) + 1, bd_round = 0, bd_timestamp_usecs = timestamp_usecs,
      bd_quorum_cert = quorum_cert, bd_block_type = Genesis\<rparr>"

definition block_data_new_genesis_from_ledger_info :: "ledger_info \<Rightarrow> ('e, 'p block_data) result" where
  "block_data_new_genesis_from_ledger_info li =
     rbind (assert_that (ends_epoch li) ''assertion failed: ledger_info.ends_epoch()'') (\<lambda>_.
     let ancestor = \<lparr>bi_epoch = li_epoch li, bi_round = 0, bi_id = 0,
           bi_executed_state_id = transaction_accumulator_hash li, bi_version = li_version li,
           bi_timestamp_usecs = bi_timestamp_usecs (commit_info li), bi_next_epoch_state = None\<rparr>;
         genesis_quorum_cert = \<lparr>qc_vote_data = \<lparr>vd_proposed = ancestor, vd_parent = ancestor\<rparr>,
           qc_signed_ledger_info = \<lparr>lis_ledger_info = \<lparr>commit_info = ancestor, consensus_data_hash = 0\<rparr>, lis_signatures = bempty\<rparr>\<rparr>
     in Inr (block_data_new_genesis (bi_timestamp_usecs (commit_info li)) genesis_quorum_cert))"

definition block_data_new_nil :: "round \<Rightarrow> quorum_cert \<Rightarrow> 'p block_data" where
  "block_data_new_nil round quorum_cert =
     \<lparr>bd_epoch = bi_epoch (certified_block quorum_cert), bd_round = round,
      bd_timestamp_usecs = bi_timestamp_usecs (certified_block quorum_cert), bd_quorum_cert = quorum_cert,
      bd_block_type = NilBlock\<rparr>"

definition block_data_new_proposal ::
    "'p payload \<Rightarrow> author \<Rightarrow> round \<Rightarrow> u64 \<Rightarrow> quorum_cert \<Rightarrow> 'p block_data" where
  "block_data_new_proposal payload author round timestamp_usecs quorum_cert =
     \<lparr>bd_epoch = bi_epoch (certified_block quorum_cert), bd_round = round, bd_timestamp_usecs = timestamp_usecs,
      bd_quorum_cert = quorum_cert, bd_block_type = Proposal payload author\<rparr>"

abbreviation block_epoch :: "'p block \<Rightarrow> u64" where
  "block_epoch self \<equiv> bd_epoch (block_block_data self)"

abbreviation block_round :: "'p block \<Rightarrow> round" where
  "block_round self \<equiv> bd_round (block_block_data self)"

abbreviation block_quorum_cert :: "'p block \<Rightarrow> quorum_cert" where
  "block_quorum_cert self \<equiv> bd_quorum_cert (block_block_data self)"

abbreviation block_timestamp_usecs :: "'p block \<Rightarrow> u64" where
  "block_timestamp_usecs self \<equiv> bd_timestamp_usecs (block_block_data self)"

abbreviation block_parent_id :: "'p block \<Rightarrow> hash_value" where
  "block_parent_id self \<equiv> bi_id (certified_block (block_quorum_cert self))"

definition gen_block_info :: "'p block \<Rightarrow> hash_value \<Rightarrow> version \<Rightarrow> epoch_state option \<Rightarrow> block_info" where
  "gen_block_info self executed_state_id ver next_state =
     \<lparr>bi_epoch = block_epoch self, bi_round = block_round self, bi_id = block_id self,
      bi_executed_state_id = executed_state_id, bi_version = ver, bi_timestamp_usecs = block_timestamp_usecs self,
      bi_next_epoch_state = next_state\<rparr>"

text \<open>\<open>id: block_data.hash()\<close>, in the constructors and in \<open>deserialize\<close>.\<close>

definition block_of_data :: "'p consensus_crypto \<Rightarrow> 'p block_data \<Rightarrow> ed25519_signature option \<Rightarrow> 'p block" where
  "block_of_data C data signature =
     \<lparr>block_id = cc_block_data_hash C data, block_block_data = data, block_signature = signature\<rparr>"

definition make_genesis_block_from_ledger_info :: "'p consensus_crypto \<Rightarrow> ledger_info \<Rightarrow> ('e, 'p block) result" where
  "make_genesis_block_from_ledger_info C li =
     rbind (block_data_new_genesis_from_ledger_info li) (\<lambda>block_data. Inr (block_of_data C block_data None))"

definition block_new_nil :: "'p consensus_crypto \<Rightarrow> round \<Rightarrow> quorum_cert \<Rightarrow> 'p block" where
  "block_new_nil C round quorum_cert = block_of_data C (block_data_new_nil round quorum_cert) None"

definition block_new_proposal_from_block_data ::
    "'p consensus_crypto \<Rightarrow> 'p block_data \<Rightarrow> validator_signer \<Rightarrow> ('e, 'p block) result" where
  "block_new_proposal_from_block_data C block_data validator_signer =
     rbind (signer_sign C (cc_block_data C) validator_signer block_data) (\<lambda>signature.
     Inr (block_of_data C block_data (Some signature)))"

definition block_new_proposal ::
    "'p consensus_crypto \<Rightarrow> 'p payload \<Rightarrow> round \<Rightarrow> u64 \<Rightarrow> quorum_cert \<Rightarrow> validator_signer \<Rightarrow> ('e, 'p block) result" where
  "block_new_proposal C payload round timestamp_usecs quorum_cert validator_signer =
     block_new_proposal_from_block_data C
       (block_data_new_proposal payload (vs_author validator_signer) round timestamp_usecs quorum_cert) validator_signer"

definition block_validate_signature :: "'p consensus_crypto \<Rightarrow> 'p block \<Rightarrow> validator_verifier \<Rightarrow> unit anyhow" where
  "block_validate_signature C self validator =
     (case bd_block_type (block_block_data self) of
        Genesis \<Rightarrow> Inl (Err ''We should not accept genesis from others'')
      | NilBlock \<Rightarrow> quorum_cert_verify C (block_quorum_cert self) validator
      | Proposal _ author \<Rightarrow>
          rbind (ok_or (block_signature self) ''Missing signature in Proposal'') (\<lambda>signature.
          rbind (rmap_err verify_error_message
            (verifier_verify (cc_block_data C) validator author (block_block_data self) signature)) (\<lambda>_.
          quorum_cert_verify C (block_quorum_cert self) validator)))"

definition block_verify_well_formed :: "'p block \<Rightarrow> unit anyhow" where
  "block_verify_well_formed self =
     rbind (ensure (\<not> bd_is_genesis_block (block_block_data self)) ''We must not accept genesis from others'') (\<lambda>_.
     let parent = certified_block (block_quorum_cert self)
     in rbind (ensure (bi_round parent < block_round self) ''Block must have a greater round than parent's block'') (\<lambda>_.
        rbind (ensure (bi_epoch parent = block_epoch self) ''block's parent should be in the same epoch'') (\<lambda>_.
        rbind (if has_reconfiguration parent
               then ensure (case bd_payload (block_block_data self) of None \<Rightarrow> True | Some p \<Rightarrow> p = [])
                      ''Reconfiguration suffix should not carry payload''
               else Inr ()) (\<lambda>_.
        rbind (if bd_is_nil_block (block_block_data self) \<or> has_reconfiguration parent
               then ensure (block_timestamp_usecs self = bi_timestamp_usecs parent)
                      ''Nil/reconfig suffix block must have same timestamp as parent''
               else ensure (block_timestamp_usecs self > bi_timestamp_usecs parent)
                      ''Blocks must have strictly increasing timestamps'') (\<lambda>_.
        rbind (ensure (\<not> qc_ends_epoch (block_quorum_cert self)) ''Block cannot be proposed in an epoch that has ended'') (\<lambda>_.
        Inr ()))))))"

section \<open>Messages\<close>

record sync_info =
  si_highest_quorum_cert :: quorum_cert
  si_highest_commit_cert :: "quorum_cert option"
  si_highest_timeout_cert :: "timeout_certificate option"

definition sync_info_new :: "quorum_cert \<Rightarrow> quorum_cert \<Rightarrow> timeout_certificate option \<Rightarrow> sync_info" where
  "sync_info_new highest_quorum_cert highest_commit_cert highest_timeout_cert =
     \<lparr>si_highest_quorum_cert = highest_quorum_cert,
      si_highest_commit_cert = (if highest_quorum_cert = highest_commit_cert then None else Some highest_commit_cert),
      si_highest_timeout_cert =
        (case highest_timeout_cert of
           Some tc \<Rightarrow> if tc_round tc > bi_round (certified_block highest_quorum_cert) then Some tc else None
         | None \<Rightarrow> None)\<rparr>"

definition highest_commit_cert :: "sync_info \<Rightarrow> quorum_cert" where
  "highest_commit_cert self =
     (case si_highest_commit_cert self of Some cert \<Rightarrow> cert | None \<Rightarrow> si_highest_quorum_cert self)"

definition highest_certified_round :: "sync_info \<Rightarrow> round" where
  "highest_certified_round self = bi_round (certified_block (si_highest_quorum_cert self))"

definition highest_timeout_round :: "sync_info \<Rightarrow> round" where
  "highest_timeout_round self = (case si_highest_timeout_cert self of Some tc \<Rightarrow> tc_round tc | None \<Rightarrow> 0)"

definition highest_commit_round :: "sync_info \<Rightarrow> round" where
  "highest_commit_round self = bi_round (commit_info (qc_ledger_info (highest_commit_cert self)))"

definition highest_round :: "sync_info \<Rightarrow> round" where
  "highest_round self = max (highest_certified_round self) (highest_timeout_round self)"

definition sync_info_epoch :: "sync_info \<Rightarrow> u64" where
  "sync_info_epoch self = bi_epoch (certified_block (si_highest_quorum_cert self))"

definition sync_info_verify :: "'p consensus_crypto \<Rightarrow> sync_info \<Rightarrow> validator_verifier \<Rightarrow> unit anyhow" where
  "sync_info_verify C self validator =
     (let epoch = bi_epoch (certified_block (si_highest_quorum_cert self))
      in rbind (ensure (epoch = bi_epoch (certified_block (highest_commit_cert self))) ''Multi epoch in SyncInfo - HCC and HQC'') (\<lambda>_.
         rbind (case si_highest_timeout_cert self of
                  Some tc \<Rightarrow> ensure (epoch = to_epoch (tc_timeout tc)) ''Multi epoch in SyncInfo - TC and HQC''
                | None \<Rightarrow> Inr ()) (\<lambda>_.
         rbind (ensure (bi_round (certified_block (si_highest_quorum_cert self)) \<ge> bi_round (certified_block (highest_commit_cert self)))
                  ''HQC has lower round than HCC'') (\<lambda>_.
         rbind (ensure (commit_info (qc_ledger_info (highest_commit_cert self)) \<noteq> block_info_empty) ''HCC has no committed block'') (\<lambda>_.
         rmap_err (\<lambda>_. ''Fail to verify SyncInfo'')
           (rbind (quorum_cert_verify C (si_highest_quorum_cert self) validator) (\<lambda>_.
            rbind (case si_highest_commit_cert self of Some cert \<Rightarrow> quorum_cert_verify C cert validator | None \<Rightarrow> Inr ()) (\<lambda>_.
            case si_highest_timeout_cert self of Some tc \<Rightarrow> timeout_certificate_verify C tc validator | None \<Rightarrow> Inr ()))))))))"

definition has_newer_certificates :: "sync_info \<Rightarrow> sync_info \<Rightarrow> bool" where
  "has_newer_certificates self other \<longleftrightarrow>
     highest_certified_round self > highest_certified_round other \<or>
     highest_timeout_round self > highest_timeout_round other \<or>
     highest_commit_round self > highest_commit_round other"

record 'p proposal_msg =
  pm_proposal :: "'p block"
  pm_sync_info :: sync_info

definition proposal_msg_verify_well_formed :: "'p proposal_msg \<Rightarrow> unit anyhow" where
  "proposal_msg_verify_well_formed self =
     (let proposal = pm_proposal self
      in rbind (ensure (\<not> bd_is_nil_block (block_block_data proposal)) ''Proposal for a NIL block'') (\<lambda>_.
         rbind (rmap_err (\<lambda>_. ''Fail to verify ProposalMsg's block'') (block_verify_well_formed proposal)) (\<lambda>_.
         rbind (ensure (block_round proposal > 0) ''Proposal has an incorrect round of 0'') (\<lambda>_.
         rbind (ensure (block_epoch proposal = sync_info_epoch (pm_sync_info self))
                  ''ProposalMsg has different epoch number from SyncInfo'') (\<lambda>_.
         rbind (ensure (block_parent_id proposal = bi_id (certified_block (si_highest_quorum_cert (pm_sync_info self))))
                  ''Proposal HQC in SyncInfo certifies another block than the parent'') (\<lambda>_.
         let previous_round = block_round proposal - 1;
             highest_certified =
               max (bi_round (certified_block (block_quorum_cert proposal))) (highest_timeout_round (pm_sync_info self))
         in rbind (ensure (previous_round = highest_certified) ''Proposal does not have a certified round'') (\<lambda>_.
            rbind (ensure (bd_author (block_block_data proposal) \<noteq> None) ''Proposal does not define an author'') (\<lambda>_.
            Inr ()))))))))"

definition proposal_msg_verify :: "'p consensus_crypto \<Rightarrow> 'p proposal_msg \<Rightarrow> validator_verifier \<Rightarrow> unit anyhow" where
  "proposal_msg_verify C self validator =
     rbind (block_validate_signature C (pm_proposal self) validator) (\<lambda>_.
     rbind (case si_highest_timeout_cert (pm_sync_info self) of
              Some tc \<Rightarrow> timeout_certificate_verify C tc validator
            | None \<Rightarrow> Inr ()) (\<lambda>_.
     proposal_msg_verify_well_formed self))"

record vote_msg =
  vm_vote :: vote
  vm_sync_info :: sync_info

definition vote_msg_verify :: "'p consensus_crypto \<Rightarrow> vote_msg \<Rightarrow> validator_verifier \<Rightarrow> unit anyhow" where
  "vote_msg_verify C self validator =
     rbind (ensure (vote_epoch (vm_vote self) = sync_info_epoch (vm_sync_info self)) ''VoteMsg has different epoch'') (\<lambda>_.
     vote_verify C (vm_vote self) validator)"

datatype block_retrieval_status = Succeeded | IdNotFound | NotEnoughBlocks

record 'p block_retrieval_response =
  br_status :: block_retrieval_status
  br_blocks :: "'p block list"

definition block_retrieval_response_verify ::
    "'p consensus_crypto \<Rightarrow> 'p block_retrieval_response \<Rightarrow> hash_value \<Rightarrow> u64 \<Rightarrow> validator_verifier \<Rightarrow> unit anyhow" where
  "block_retrieval_response_verify C self requested_id num_blocks sig_verifier =
     rbind (ensure (br_status self \<noteq> Succeeded \<or> of_nat (length (br_blocks self)) = num_blocks) ''not enough blocks returned'') (\<lambda>_.
     rbind (rfold (\<lambda>block expected_id.
              rbind (block_validate_signature C block sig_verifier) (\<lambda>_.
              rbind (block_verify_well_formed block) (\<lambda>_.
              rbind (ensure (block_id block = expected_id) ''blocks doesn't form a chain'') (\<lambda>_.
              Inr (block_parent_id block)))))
            (br_blocks self) requested_id) (\<lambda>_.
     Inr ()))"

end
