(* ===== verification/Safety_Rules.thy ===== *)
theory Safety_Rules
  imports Consensus_Types
begin

text \<open>
  The safety rules of a validator (\<open>consensus/safety-rules/src/safety_rules.rs\<close>) and the storage
  they persist to (\<open>consensus/safety-rules/src/persistent_safety_storage.rs\<close>): which votes,
  proposals and timeouts a validator signs. Every operation returns the state on its error paths
  too, with what had been written before.
\<close>

section \<open>Persistent storage\<close>

text \<open>
  The key-value store is a backend that may be remote. \<open>ps_unavailable\<close> says which of the calls to
  it fail, by their number, and \<open>ps_calls\<close> counts them, so that a theorem about all storages covers
  every pattern of failures. A key holds the decoded value, or \<open>None\<close> when it is not set.
\<close>

record persistent_safety_storage =
  ps_author :: "author option"
  ps_consensus_keys :: "(ed25519_public_key \<times> ed25519_private_key) list"
  ps_execution_key :: "ed25519_public_key option"
  ps_epoch :: "u64 option"
  ps_last_voted_round :: "round option"
  ps_preferred_round :: "round option"
  ps_waypoint :: "waypoint option"
  ps_last_vote :: "vote option option"
  ps_calls :: nat
  ps_unavailable :: "nat \<Rightarrow> bool"

definition store_get :: "(persistent_safety_storage \<Rightarrow> 'a option) \<Rightarrow> (persistent_safety_storage, string, 'a) st" where
  "store_get field self =
     (if ps_unavailable self (ps_calls self) then Inl (Err ''Storage is unavailable'') else ok_or (field self) ''Key not set'',
      self\<lparr>ps_calls := Suc (ps_calls self)\<rparr>)"

definition store_set ::
    "(persistent_safety_storage \<Rightarrow> persistent_safety_storage) \<Rightarrow> (persistent_safety_storage, string, unit) st" where
  "store_set upd self =
     (let self' = self\<lparr>ps_calls := Suc (ps_calls self)\<rparr>
      in if ps_unavailable self (ps_calls self) then (Inl (Err ''Storage is unavailable''), self') else (Inr (), upd self'))"

text \<open>The content that \<open>initialize\<close> writes to a new store.\<close>

definition storage_initialize ::
    "author \<Rightarrow> ed25519_public_key \<times> ed25519_private_key \<Rightarrow> ed25519_public_key \<Rightarrow> waypoint \<Rightarrow> (nat \<Rightarrow> bool) \<Rightarrow> persistent_safety_storage" where
  "storage_initialize author consensus_key execution_key waypoint unavailable =
     \<lparr>ps_author = Some author, ps_consensus_keys = [consensus_key], ps_execution_key = Some execution_key,
      ps_epoch = Some 1, ps_last_voted_round = Some 0, ps_preferred_round = Some 0, ps_waypoint = Some waypoint,
      ps_last_vote = Some None, ps_calls = 0, ps_unavailable = unavailable\<rparr>"

definition consensus_key_for_version ::
    "ed25519_public_key \<Rightarrow> (persistent_safety_storage, string, ed25519_private_key) st" where
  "consensus_key_for_version ver = store_get (\<lambda>self. map_of (ps_consensus_keys self) ver)"

definition set_epoch :: "u64 \<Rightarrow> (persistent_safety_storage, string, unit) st" where
  "set_epoch epoch = store_set (\<lambda>self. self\<lparr>ps_epoch := Some epoch\<rparr>)"

definition set_last_voted_round :: "round \<Rightarrow> (persistent_safety_storage, string, unit) st" where
  "set_last_voted_round last_voted_round = store_set (\<lambda>self. self\<lparr>ps_last_voted_round := Some last_voted_round\<rparr>)"

definition set_preferred_round :: "round \<Rightarrow> (persistent_safety_storage, string, unit) st" where
  "set_preferred_round preferred_round = store_set (\<lambda>self. self\<lparr>ps_preferred_round := Some preferred_round\<rparr>)"

definition set_waypoint :: "waypoint \<Rightarrow> (persistent_safety_storage, string, unit) st" where
  "set_waypoint waypoint = store_set (\<lambda>self. self\<lparr>ps_waypoint := Some waypoint\<rparr>)"

definition set_last_vote :: "vote option \<Rightarrow> (persistent_safety_storage, string, unit) st" where
  "set_last_vote vote = store_set (\<lambda>self. self\<lparr>ps_last_vote := Some vote\<rparr>)"

section \<open>Safety rules\<close>

datatype safety_error =
    IncorrectEpoch u64 u64
  | IncorrectLastVotedRound u64 u64
  | IncorrectPreferredRound u64 u64
  | InvalidAccumulatorExtension string
  | InvalidEpochChangeProof string
  | InternalError string
  | InvalidLedgerInfo
  | InvalidProposal string
  | InvalidQuorumCertificate string
  | NotInitialized string
  | VoteProposalSignatureNotFound

record safety_rules =
  sr_persistent_storage :: persistent_safety_storage
  sr_execution_public_key :: "ed25519_public_key option"
  sr_validator_signer :: "validator_signer option"
  sr_epoch_state :: "epoch_state option"

text \<open>A call on the storage; \<open>?\<close> turns its error into an \<open>InternalError\<close>.\<close>

definition on_storage :: "(persistent_safety_storage, string, 'a) st \<Rightarrow> (safety_rules, safety_error, 'a) st" where
  "on_storage m self =
     (case m (sr_persistent_storage self) of (r, p) \<Rightarrow> (rmap_err InternalError r, self\<lparr>sr_persistent_storage := p\<rparr>))"

definition safety_rules_new :: "persistent_safety_storage \<Rightarrow> bool \<Rightarrow> ('e, safety_rules) result" where
  "safety_rules_new persistent_storage verify_vote_proposal_signature =
     (if verify_vote_proposal_signature then
        (case store_get ps_execution_key persistent_storage of (r, p) \<Rightarrow>
           rbind (rexpect r ''Unable to retrieve execution public key'') (\<lambda>key.
           Inr \<lparr>sr_persistent_storage = p, sr_execution_public_key = Some key, sr_validator_signer = None, sr_epoch_state = None\<rparr>))
      else Inr \<lparr>sr_persistent_storage = persistent_storage, sr_execution_public_key = None, sr_validator_signer = None, sr_epoch_state = None\<rparr>)"

definition signer :: "(safety_rules, safety_error, validator_signer) st" where
  "signer = st_read (\<lambda>self. ok_or (sr_validator_signer self) (NotInitialized ''validator_signer''))"

definition safety_rules_epoch_state :: "(safety_rules, safety_error, epoch_state) st" where
  "safety_rules_epoch_state = st_read (\<lambda>self. ok_or (sr_epoch_state self) (NotInitialized ''epoch_state''))"

definition extension_check :: "'p consensus_crypto \<Rightarrow> 'p vote_proposal \<Rightarrow> (safety_error, vote_data) result" where
  "extension_check C vote_proposal =
     (let proposed_block = vp_block vote_proposal
      in rbind (rmap_err InvalidAccumulatorExtension
           (accumulator_extension_proof_verify (cc_txn_accumulator C) (vp_accumulator_extension_proof vote_proposal)
             (bi_executed_state_id (certified_block (block_quorum_cert proposed_block))))) (\<lambda>new_tree.
         Inr \<lparr>vd_proposed = gen_block_info proposed_block (root_hash new_tree) (accumulator_version new_tree)
                (vp_next_epoch_state vote_proposal),
              vd_parent = certified_block (block_quorum_cert proposed_block)\<rparr>))"

definition construct_ledger_info :: "'p block \<Rightarrow> ledger_info" where
  "construct_ledger_info proposed_block =
     (let block2 = block_round proposed_block;
          block1 = bi_round (certified_block (block_quorum_cert proposed_block));
          block0 = bi_round (parent_block (block_quorum_cert proposed_block));
          commit = block0 + 1 = block1 \<and> block1 + 1 = block2
      in if commit then \<lparr>commit_info = parent_block (block_quorum_cert proposed_block), consensus_data_hash = 0\<rparr>
         else \<lparr>commit_info = block_info_empty, consensus_data_hash = 0\<rparr>)"

definition verify_and_update_preferred_round :: "quorum_cert \<Rightarrow> (safety_rules, safety_error, unit) st" where
  "verify_and_update_preferred_round quorum_cert =
     st_bind (on_storage (store_get ps_preferred_round)) (\<lambda>preferred_round.
     let one_chain_round = bi_round (certified_block quorum_cert);
         two_chain_round = bi_round (parent_block quorum_cert)
     in if one_chain_round < preferred_round then st_err (IncorrectPreferredRound one_chain_round preferred_round)
        else if two_chain_round > preferred_round then on_storage (set_preferred_round two_chain_round)
        else st_ok ())"

definition verify_author :: "author option \<Rightarrow> (safety_rules, safety_error, unit) st" where
  "verify_author author =
     st_bind signer (\<lambda>validator_signer.
     case author of
       None \<Rightarrow> st_err (InvalidProposal ''No author found in the proposal'')
     | Some author \<Rightarrow>
         if vs_author validator_signer \<noteq> author then st_err (InvalidProposal ''Proposal author is not validator signer!'')
         else st_ok ())"

definition verify_epoch :: "u64 \<Rightarrow> (safety_rules, safety_error, unit) st" where
  "verify_epoch epoch =
     st_bind (on_storage (store_get ps_epoch)) (\<lambda>expected_epoch.
     if epoch \<noteq> expected_epoch then st_err (IncorrectEpoch epoch expected_epoch) else st_ok ())"

definition verify_last_vote_round :: "'p block_data \<Rightarrow> (safety_rules, safety_error, unit) st" where
  "verify_last_vote_round proposed_block =
     st_bind (on_storage (store_get ps_last_voted_round)) (\<lambda>last_voted_round.
     if bd_round proposed_block > last_voted_round then st_ok ()
     else st_err (IncorrectLastVotedRound (bd_round proposed_block) last_voted_round))"

definition verify_qc :: "'p consensus_crypto \<Rightarrow> quorum_cert \<Rightarrow> (safety_rules, safety_error, unit) st" where
  "verify_qc C qc =
     st_bind safety_rules_epoch_state (\<lambda>epoch_state.
     st_read (\<lambda>_. rmap_err InvalidQuorumCertificate (quorum_cert_verify C qc (es_verifier epoch_state))))"

record consensus_state =
  cst_epoch :: u64
  cst_last_voted_round :: round
  cst_preferred_round :: round
  cst_waypoint :: waypoint
  cst_in_validator_set :: bool

definition get_consensus_state :: "(safety_rules, safety_error, consensus_state) st" where
  "get_consensus_state =
     st_bind (on_storage (store_get ps_epoch)) (\<lambda>epoch.
     st_bind (on_storage (store_get ps_last_voted_round)) (\<lambda>last_voted_round.
     st_bind (on_storage (store_get ps_preferred_round)) (\<lambda>preferred_round.
     st_bind (on_storage (store_get ps_waypoint)) (\<lambda>waypoint.
     st_read (\<lambda>self. Inr \<lparr>cst_epoch = epoch, cst_last_voted_round = last_voted_round, cst_preferred_round = preferred_round,
       cst_waypoint = waypoint, cst_in_validator_set = is_ok (fst (signer self))\<rparr>)))))"

text \<open>The key of the validator for the new epoch, and the writes of an epoch change in their order.\<close>

definition reconcile_signer :: "'p consensus_crypto \<Rightarrow> author \<Rightarrow> epoch_state \<Rightarrow> (safety_rules, safety_error, unit) st" where
  "reconcile_signer C author es =
     (case get_public_key (es_verifier es) author of
        Some expected_key \<Rightarrow>
          st_bind (st_read (\<lambda>self. Inr (map_option (signer_public_key C) (sr_validator_signer self)))) (\<lambda>curr_key.
          if curr_key \<noteq> Some expected_key then
            (\<lambda>self. case on_storage (consensus_key_for_version expected_key) self of
               (Inl _, self) \<Rightarrow> (Inl (Err (InternalError ''Validator key not found'')), self\<lparr>sr_validator_signer := None\<rparr>)
             | (Inr consensus_key, self) \<Rightarrow>
                 (Inr (), self\<lparr>sr_validator_signer := Some \<lparr>vs_author = author, vs_private_key = consensus_key\<rparr>\<rparr>))
          else st_ok ())
      | None \<Rightarrow> st_modify (\<lambda>self. self\<lparr>sr_validator_signer := None\<rparr>))"

definition start_epoch :: "'p consensus_crypto \<Rightarrow> ledger_info \<Rightarrow> u64 \<Rightarrow> (safety_rules, safety_error, unit) st" where
  "start_epoch C li epoch =
     st_bind (st_read (\<lambda>_. rmap_err InternalError (waypoint_new_epoch_boundary (cc_waypoint C) li))) (\<lambda>waypoint.
     st_bind (on_storage (set_waypoint waypoint)) (\<lambda>_.
     st_bind (on_storage (set_last_voted_round 0)) (\<lambda>_.
     st_bind (on_storage (set_preferred_round 0)) (\<lambda>_.
     st_bind (on_storage (set_last_vote None)) (\<lambda>_.
     on_storage (set_epoch epoch))))))"

definition initialize :: "'p consensus_crypto \<Rightarrow> epoch_change_proof \<Rightarrow> (safety_rules, safety_error, unit) st" where
  "initialize C proof =
     st_bind (on_storage (store_get ps_waypoint)) (\<lambda>waypoint.
     st_bind (st_read (\<lambda>_. rmap_err InvalidEpochChangeProof
       (epoch_change_proof_verify (cc_ledger_info C) (cc_waypoint C) proof (WaypointVerifier waypoint)))) (\<lambda>last_li.
     let li = lis_ledger_info last_li
     in st_bind (st_read (\<lambda>_. ok_or (next_epoch_state li) InvalidLedgerInfo)) (\<lambda>es.
        st_bind (on_storage (store_get ps_author)) (\<lambda>author.
        st_bind (reconcile_signer C author es) (\<lambda>_.
        st_bind (on_storage (store_get ps_epoch)) (\<lambda>current_epoch.
        st_bind (if current_epoch < es_epoch es then start_epoch C li (es_epoch es) else st_ok ()) (\<lambda>_.
        st_modify (\<lambda>self. self\<lparr>sr_epoch_state := Some es\<rparr>))))))))"

definition verify_execution_signature ::
    "'p consensus_crypto \<Rightarrow> 'p maybe_signed_vote_proposal \<Rightarrow> (safety_rules, safety_error, unit) st" where
  "verify_execution_signature C maybe_signed_vote_proposal =
     st_read (\<lambda>self.
       case sr_execution_public_key self of
         Some public_key \<Rightarrow>
           rbind (ok_or (ms_signature maybe_signed_vote_proposal) VoteProposalSignatureNotFound) (\<lambda>sig.
           rmap_err (\<lambda>_. InternalError ''Signature does not verify'')
             (signature_verify (cc_vote_proposal C) sig (ms_vote_proposal maybe_signed_vote_proposal) public_key))
       | None \<Rightarrow> Inr ())"

text \<open>The part of \<open>construct_and_sign_vote\<close> after the check for a vote in the same round.\<close>

definition construct_new_vote :: "'p consensus_crypto \<Rightarrow> 'p vote_proposal \<Rightarrow> (safety_rules, safety_error, vote) st" where
  "construct_new_vote C vote_proposal =
     (let proposed_block = vp_block vote_proposal
      in st_bind (verify_last_vote_round (block_block_data proposed_block)) (\<lambda>_.
         st_bind (st_read (\<lambda>_. extension_check C vote_proposal)) (\<lambda>vote_data.
         st_bind (on_storage (set_last_voted_round (block_round proposed_block))) (\<lambda>_.
         st_bind signer (\<lambda>validator_signer.
         st_bind (st_read (\<lambda>_. vote_new C vote_data (vs_author validator_signer) (construct_ledger_info proposed_block) validator_signer)) (\<lambda>vote.
         st_bind (on_storage (set_last_vote (Some vote))) (\<lambda>_.
         st_bind (on_storage (set_last_voted_round (block_round proposed_block))) (\<lambda>_.
         st_ok vote))))))))"

definition construct_and_sign_vote ::
    "'p consensus_crypto \<Rightarrow> 'p maybe_signed_vote_proposal \<Rightarrow> (safety_rules, safety_error, vote) st" where
  "construct_and_sign_vote C maybe_signed_vote_proposal =
     st_bind signer (\<lambda>_.
     let vote_proposal = ms_vote_proposal maybe_signed_vote_proposal;
         proposed_block = vp_block vote_proposal
     in st_bind (verify_execution_signature C maybe_signed_vote_proposal) (\<lambda>_.
        st_bind (verify_epoch (block_epoch proposed_block)) (\<lambda>_.
        st_bind (verify_qc C (block_quorum_cert proposed_block)) (\<lambda>_.
        st_bind safety_rules_epoch_state (\<lambda>es.
        st_bind (st_read (\<lambda>_. rmap_err InternalError (block_validate_signature C proposed_block (es_verifier es)))) (\<lambda>_.
        st_bind (verify_and_update_preferred_round (block_quorum_cert proposed_block)) (\<lambda>_.
        st_bind (on_storage (store_get ps_last_vote)) (\<lambda>last_vote.
        case last_vote of
          Some vote \<Rightarrow>
            if vote_round vote = block_round proposed_block then
              st_bind (on_storage (set_last_voted_round (block_round proposed_block))) (\<lambda>_. st_ok vote)
            else construct_new_vote C vote_proposal
        | None \<Rightarrow> construct_new_vote C vote_proposal))))))))"

definition sign_proposal :: "'p consensus_crypto \<Rightarrow> 'p block_data \<Rightarrow> (safety_rules, safety_error, 'p block) st" where
  "sign_proposal C block_data =
     st_bind signer (\<lambda>_.
     st_bind (verify_author (bd_author block_data)) (\<lambda>_.
     st_bind (verify_epoch (bd_epoch block_data)) (\<lambda>_.
     st_bind (verify_last_vote_round block_data) (\<lambda>_.
     st_bind (verify_qc C (bd_quorum_cert block_data)) (\<lambda>_.
     st_bind (verify_and_update_preferred_round (bd_quorum_cert block_data)) (\<lambda>_.
     st_bind signer (\<lambda>validator_signer.
     st_read (\<lambda>_. block_new_proposal_from_block_data C block_data validator_signer))))))))"

definition sign_timeout :: "'p consensus_crypto \<Rightarrow> timeout \<Rightarrow> (safety_rules, safety_error, ed25519_signature) st" where
  "sign_timeout C timeout =
     st_bind signer (\<lambda>_.
     st_bind (verify_epoch (to_epoch timeout)) (\<lambda>_.
     st_bind (on_storage (store_get ps_preferred_round)) (\<lambda>preferred_round.
     if to_round timeout \<le> preferred_round then st_err (IncorrectPreferredRound (to_round timeout) preferred_round)
     else
       st_bind (on_storage (store_get ps_last_voted_round)) (\<lambda>last_voted_round.
       if to_round timeout < last_voted_round then st_err (IncorrectLastVotedRound (to_round timeout) last_voted_round)
       else
         st_bind (if to_round timeout > last_voted_round then on_storage (set_last_voted_round (to_round timeout)) else st_ok ()) (\<lambda>_.
         st_bind signer (\<lambda>validator_signer.
         st_read (\<lambda>_. signer_sign C (cc_timeout C) validator_signer timeout)))))))"

end
