(* ===== verification/Voter.thy ===== *)
theory Voter
  imports Safety_Rules
begin

text \<open>
  An abstract voter: the part of the safety rules that decides which votes a validator casts, with
  one transition per write to the storage, the invariant of these transitions, and the proof that
  every operation of the safety rules is a sequence of them, whatever calls to the storage fail.
\<close>

section \<open>The abstract voter\<close>

record voter =
  v_epoch_state :: "epoch_state option"
  v_epoch :: "u64 option"
  v_voted :: "round option"
  v_preferred :: "round option"
  v_last_vote :: "vote option option"

text \<open>The ledger info of a vote for a block of round \<open>r\<close> that carries the certificate \<open>q\<close>.\<close>

definition three_chain_commit :: "quorum_cert \<Rightarrow> round \<Rightarrow> block_info" where
  "three_chain_commit q r =
     (if bi_round (parent_block q) + 1 = bi_round (certified_block q) \<and> bi_round (certified_block q) + 1 = r
      then parent_block q else block_info_empty)"

definition vote_on :: "'p consensus_crypto \<Rightarrow> quorum_cert \<Rightarrow> vote \<Rightarrow> bool" where
  "vote_on C q v \<longleftrightarrow> vd_parent (vote_vote_data v) = certified_block q \<and>
     vote_ledger_info v =
       \<lparr>commit_info = three_chain_commit q (vote_round v), consensus_data_hash = cc_vote_data_hash C (vote_vote_data v)\<rparr>"

text \<open>
  \<open>ev\<close> gives the validators of each epoch. \<open>Q\<close> has the certificates that were presented to the
  voter, each with the epoch and the round of the block that carried it.
\<close>

inductive voter_step ::
    "'p consensus_crypto \<Rightarrow> (u64 \<Rightarrow> validator_verifier) \<Rightarrow> (quorum_cert \<times> u64 \<times> round) set \<Rightarrow> voter \<Rightarrow> voter \<Rightarrow> bool"
  for C ev Q where
  raise_preferred: "v_preferred w = Some x \<Longrightarrow> x < bi_round (parent_block q) \<Longrightarrow>
    voter_step C ev Q w (w\<lparr>v_preferred := Some (bi_round (parent_block q))\<rparr>)"
| advance: "v_voted w = Some x \<Longrightarrow> x < r \<Longrightarrow> voter_step C ev Q w (w\<lparr>v_voted := Some r\<rparr>)"
| resend: "v_last_vote w = Some (Some v) \<Longrightarrow> voter_step C ev Q w (w\<lparr>v_voted := Some (vote_round v)\<rparr>)"
| cast: "v_epoch_state w = Some es \<Longrightarrow> v_epoch w = Some (vote_epoch v) \<Longrightarrow> (q, vote_epoch v, vote_round v) \<in> Q \<Longrightarrow>
    quorum_cert_verify C q (es_verifier es) = Inr () \<Longrightarrow> vote_on C q v \<Longrightarrow>
    v_voted w = Some (vote_round v) \<Longrightarrow> (\<And>lv. v_last_vote w = Some (Some lv) \<Longrightarrow> vote_round lv < vote_round v) \<Longrightarrow>
    v_preferred w = Some y \<Longrightarrow> bi_round (parent_block q) \<le> y \<Longrightarrow> y \<le> bi_round (certified_block q) \<Longrightarrow>
    voter_step C ev Q w (w\<lparr>v_last_vote := Some (Some v)\<rparr>)"
| start: "v_epoch w = Some e \<Longrightarrow> e < es_epoch es \<Longrightarrow> es_verifier es = ev (es_epoch es) \<Longrightarrow>
    voter_step C ev Q w
      \<lparr>v_epoch_state = Some es, v_epoch = Some (es_epoch es), v_voted = Some 0, v_preferred = Some 0, v_last_vote = Some None\<rparr>"
| load: "v_epoch w = Some (es_epoch es) \<Longrightarrow> es_verifier es = ev (es_epoch es) \<Longrightarrow>
    voter_step C ev Q w (w\<lparr>v_epoch_state := Some es\<rparr>)"
| restart: "voter_step C ev Q w (w\<lparr>v_epoch_state := None\<rparr>)"

section \<open>Its invariant\<close>

text \<open>The order of the votes of a voter, each with the certificate of its block.\<close>

definition vote_before :: "vote \<times> quorum_cert \<Rightarrow> vote \<times> quorum_cert \<Rightarrow> bool" where
  "vote_before a b \<longleftrightarrow> vote_epoch (fst a) < vote_epoch (fst b) \<or>
     vote_epoch (fst a) = vote_epoch (fst b) \<and> vote_round (fst a) < vote_round (fst b) \<and>
     bi_round (parent_block (snd a)) \<le> bi_round (vd_parent (vote_vote_data (fst b)))"

definition justified ::
    "'p consensus_crypto \<Rightarrow> (u64 \<Rightarrow> validator_verifier) \<Rightarrow> (quorum_cert \<times> u64 \<times> round) set \<Rightarrow> vote \<times> quorum_cert \<Rightarrow> bool" where
  "justified C ev Q vq \<longleftrightarrow> (snd vq, vote_epoch (fst vq), vote_round (fst vq)) \<in> Q \<and>
     quorum_cert_verify C (snd vq) (ev (vote_epoch (fst vq))) = Inr () \<and> vote_on C (snd vq) (fst vq)"

definition epoch_known :: "(u64 \<Rightarrow> validator_verifier) \<Rightarrow> voter \<Rightarrow> bool" where
  "epoch_known ev w \<longleftrightarrow>
     (\<forall>es. v_epoch_state w = Some es \<longrightarrow> v_epoch w = Some (es_epoch es) \<and> es_verifier es = ev (es_epoch es))"

definition accounted :: "voter \<Rightarrow> vote \<times> quorum_cert \<Rightarrow> bool" where
  "accounted w vq \<longleftrightarrow> (\<exists>e. v_epoch w = Some e \<and> vote_epoch (fst vq) \<le> e \<and>
     (vote_epoch (fst vq) = e \<longrightarrow>
        (\<exists>y. v_preferred w = Some y \<and> bi_round (parent_block (snd vq)) \<le> y) \<and> (\<exists>lv. v_last_vote w = Some (Some lv))))"

definition last_vote_ok :: "voter \<Rightarrow> (vote \<times> quorum_cert) list \<Rightarrow> bool" where
  "last_vote_ok w hist \<longleftrightarrow>
     (\<forall>lv. v_last_vote w = Some (Some lv) \<longrightarrow> (\<exists>x. v_voted w = Some x \<and> vote_round lv \<le> x) \<and>
        v_epoch w = Some (vote_epoch lv) \<and> hist \<noteq> [] \<and> fst (last hist) = lv)"

definition voter_inv ::
    "'p consensus_crypto \<Rightarrow> (u64 \<Rightarrow> validator_verifier) \<Rightarrow> (quorum_cert \<times> u64 \<times> round) set \<Rightarrow> voter \<Rightarrow> (vote \<times> quorum_cert) list \<Rightarrow> bool" where
  "voter_inv C ev Q w hist \<longleftrightarrow> epoch_known ev w \<and> sorted_wrt vote_before hist \<and>
     (\<forall>vq \<in> set hist. justified C ev Q vq) \<and> (\<forall>vq \<in> set hist. accounted w vq) \<and> last_vote_ok w hist"

lemmas voter_inv_defs = voter_inv_def epoch_known_def accounted_def last_vote_ok_def

lemma cast_before:
  assumes "voter_inv C ev Q w hist" "vq \<in> set hist" "v_epoch w = Some (vote_epoch v)"
    and "\<And>lv. v_last_vote w = Some (Some lv) \<Longrightarrow> vote_round lv < vote_round v"
    and "v_preferred w = Some y" "y \<le> bi_round (vd_parent (vote_vote_data v))"
  shows "vote_before vq (v, q)"
proof (cases "vote_epoch (fst vq) < vote_epoch v")
  case False
  with assms obtain lv where e: "vote_epoch (fst vq) = vote_epoch v" and p: "bi_round (parent_block (snd vq)) \<le> y"
    and lv: "v_last_vote w = Some (Some lv)" "vote_round lv < vote_round v" "vote_epoch lv = vote_epoch v" "hist \<noteq> []" "fst (last hist) = lv"
    unfolding voter_inv_defs by fastforce
  have "vq = last hist \<or> vote_before vq (last hist)"
  proof -
    have h: "hist = butlast hist @ [last hist]" using lv(4) by simp
    then have "sorted_wrt vote_before (butlast hist @ [last hist])" using assms(1) by (simp add: voter_inv_def)
    moreover have "vq \<in> set (butlast hist) \<or> vq = last hist" using assms(2) h by (metis Un_iff empty_iff empty_set insert_iff list.simps(15) set_append)
    ultimately show ?thesis by (auto simp: sorted_wrt_append)
  qed
  then have "vote_round (fst vq) \<le> vote_round lv" using e lv(3,5) by (auto simp: vote_before_def)
  with lv(2) assms(6) e p show ?thesis unfolding vote_before_def fst_conv snd_conv by (meson le_less_trans order_trans)
qed (simp add: vote_before_def)

lemma voter_step_inv:
  assumes "voter_step C ev Q w w'" "voter_inv C ev Q w hist"
  shows "\<exists>new. voter_inv C ev Q w' (hist @ new)"
  using assms
proof (induction rule: voter_step.induct)
  case (raise_preferred w x q)
  then have "voter_inv C ev Q (w\<lparr>v_preferred := Some (bi_round (parent_block q))\<rparr>) (hist @ [])"
    by (fastforce simp: voter_inv_defs)
  then show ?case by blast
next
  case (advance w x r)
  then have "voter_inv C ev Q (w\<lparr>v_voted := Some r\<rparr>) (hist @ [])" by (fastforce simp: voter_inv_defs)
  then show ?case by blast
next
  case (resend w v)
  then have "voter_inv C ev Q (w\<lparr>v_voted := Some (vote_round v)\<rparr>) (hist @ [])" by (fastforce simp: voter_inv_defs)
  then show ?case by blast
next
  case (cast w es v q y)
  have c: "y \<le> bi_round (vd_parent (vote_vote_data v))" using cast by (simp add: vote_on_def)
  have "justified C ev Q (v, q)" using cast by (auto simp: justified_def voter_inv_def epoch_known_def)
  moreover have "\<forall>vq \<in> set hist. vote_before vq (v, q)"
    using cast_before [OF cast.prems _ cast.hyps(2) cast.hyps(7,8) c] by blast
  ultimately have "voter_inv C ev Q (w\<lparr>v_last_vote := Some (Some v)\<rparr>) (hist @ [(v, q)])"
    using cast by (fastforce simp: voter_inv_defs sorted_wrt_append)
  then show ?case by blast
next
  case (start w e es)
  then have "voter_inv C ev Q \<lparr>v_epoch_state = Some es, v_epoch = Some (es_epoch es), v_voted = Some 0, v_preferred = Some 0,
      v_last_vote = Some None\<rparr> (hist @ [])"
    by (fastforce simp: voter_inv_defs)
  then show ?case by blast
next
  case (load w es)
  then have "voter_inv C ev Q (w\<lparr>v_epoch_state := Some es\<rparr>) (hist @ [])" by (simp add: voter_inv_defs)
  then show ?case by blast
next
  case (restart w)
  then have "voter_inv C ev Q (w\<lparr>v_epoch_state := None\<rparr>) (hist @ [])" by (simp add: voter_inv_defs)
  then show ?case by blast
qed

lemma voter_steps_inv:
  assumes "(voter_step C ev Q)\<^sup>*\<^sup>* w w'" "voter_inv C ev Q w hist"
  shows "\<exists>new. voter_inv C ev Q w' (hist @ new)"
  using assms
proof (induction arbitrary: hist rule: rtranclp_induct)
  case base
  then have "voter_inv C ev Q w (hist @ [])" by simp
  then show ?case ..
next
  case (step w1 w2)
  from step.IH [OF step.prems] obtain new where "voter_inv C ev Q w1 (hist @ new)" ..
  from voter_step_inv [OF step.hyps(2) this] show ?case by (metis append_assoc)
qed

lemma voter_inv_mono: "voter_inv C ev Q w hist \<Longrightarrow> Q \<subseteq> Q' \<Longrightarrow> voter_inv C ev Q' w hist"
  unfolding voter_inv_def justified_def by blast

end
