(* ===== verification/Safety_Voter.thy ===== *)
theory Safety_Voter
  imports Voter
begin

text \<open>
  The safety rules refine the abstract voter: every operation, with whatever calls to the storage
  failing, is a sequence of transitions of the voter, and a vote that is returned is the last vote
  of the voter.
\<close>

section \<open>Reads and writes\<close>

definition voter_of :: "safety_rules \<Rightarrow> voter" where
  "voter_of s =
     \<lparr>v_epoch_state = sr_epoch_state s, v_epoch = ps_epoch (sr_persistent_storage s),
      v_voted = ps_last_voted_round (sr_persistent_storage s), v_preferred = ps_preferred_round (sr_persistent_storage s),
      v_last_vote = ps_last_vote (sr_persistent_storage s)\<rparr>"

lemma voter_of_sel:
  "v_epoch_state (voter_of s) = sr_epoch_state s" "v_epoch (voter_of s) = ps_epoch (sr_persistent_storage s)"
  "v_voted (voter_of s) = ps_last_voted_round (sr_persistent_storage s)"
  "v_preferred (voter_of s) = ps_preferred_round (sr_persistent_storage s)"
  "v_last_vote (voter_of s) = ps_last_vote (sr_persistent_storage s)"
  by (simp_all add: voter_of_def)

text \<open>A call that leaves the voter as it is.\<close>

definition quiet :: "(safety_rules, safety_error, 'a) st \<Rightarrow> bool" where
  "quiet m \<longleftrightarrow> (\<forall>s r t. m s = (r, t) \<longrightarrow> voter_of t = voter_of s)"

named_theorems quiet_intros \<open>calls that leave the voter as it is\<close>

lemma quiet_get [quiet_intros]: "quiet (on_storage (store_get f))"
  by (auto simp: quiet_def on_storage_def store_get_def voter_of_def)

lemma quiet_read [quiet_intros]: "quiet (st_read f)"
  by (simp add: quiet_def st_read_def)

lemma quiet_ok [quiet_intros]: "quiet (st_ok x)" "quiet (st_err e)"
  by (simp_all add: quiet_def st_ok_def st_err_def)

lemma quiet_bind [quiet_intros]: "quiet m \<Longrightarrow> (\<And>x. quiet (f x)) \<Longrightarrow> quiet (st_bind m f)"
  unfolding quiet_def by (auto simp: st_bind_cases)

lemma quiet_if [quiet_intros]: "quiet m \<Longrightarrow> quiet m' \<Longrightarrow> quiet (if b then m else m')"
  by simp

lemma quiet_checks [quiet_intros]:
  "quiet signer" "quiet safety_rules_epoch_state" "quiet (verify_epoch e)" "quiet (verify_last_vote_round d)" "quiet (verify_qc C q)"
  "quiet (verify_execution_signature C mp)" "quiet (verify_author a)"
  by (auto intro!: quiet_intros split: option.splits simp: signer_def safety_rules_epoch_state_def verify_epoch_def verify_last_vote_round_def verify_qc_def
      verify_execution_signature_def verify_author_def)

lemma quiet_bindE:
  assumes "st_bind m f s = (r, s')" "quiet m"
  obtains e where "r = Inl e" "voter_of s' = voter_of s"
  | x t where "m s = (Inr x, t)" "voter_of t = voter_of s" "f x t = (r, s')"
  using assms unfolding quiet_def st_bind_cases by blast

lemma get_Inr: "on_storage (store_get f) s = (Inr x, t) \<Longrightarrow> f (sr_persistent_storage s) = Some x"
  by (auto simp: on_storage_def store_get_def result_simps split: if_splits)

lemmas voter_get = get_Inr [where f = ps_epoch, folded voter_of_sel] get_Inr [where f = ps_last_voted_round, folded voter_of_sel]
  get_Inr [where f = ps_preferred_round, folded voter_of_sel] get_Inr [where f = ps_last_vote, folded voter_of_sel]

lemma write_effects:
  "on_storage (set_last_voted_round x) s = (r, t) \<Longrightarrow>
     (voter_of t = voter_of s \<and> (\<exists>e. r = Inl e)) \<or> (r = Inr () \<and> voter_of t = (voter_of s)\<lparr>v_voted := Some x\<rparr>)"
  "on_storage (set_preferred_round x) s = (r, t) \<Longrightarrow>
     (voter_of t = voter_of s \<and> (\<exists>e. r = Inl e)) \<or> (r = Inr () \<and> voter_of t = (voter_of s)\<lparr>v_preferred := Some x\<rparr>)"
  "on_storage (set_last_vote lv) s = (r, t) \<Longrightarrow>
     (voter_of t = voter_of s \<and> (\<exists>e. r = Inl e)) \<or> (r = Inr () \<and> voter_of t = (voter_of s)\<lparr>v_last_vote := Some lv\<rparr>)"
  "on_storage (set_epoch e) s = (r, t) \<Longrightarrow>
     (voter_of t = voter_of s \<and> (\<exists>e. r = Inl e)) \<or> (r = Inr () \<and> voter_of t = (voter_of s)\<lparr>v_epoch := Some e\<rparr>)"
  "on_storage (set_waypoint wp) s = (r, t) \<Longrightarrow> voter_of t = voter_of s"
  by (auto simp: on_storage_def store_set_def Let_def voter_of_def set_last_voted_round_def set_preferred_round_def
      set_last_vote_def set_epoch_def set_waypoint_def split: if_splits)

lemma qc_rounds:
  assumes "quorum_cert_verify C q vv = Inr ()"
  shows "bi_round (parent_block q) \<le> bi_round (certified_block q)"
    "bi_round (certified_block q) \<noteq> 0 \<Longrightarrow> bi_round (parent_block q) < bi_round (certified_block q)"
  using assms by (auto simp: quorum_cert_verify_def vote_data_verify_def result_simps split: if_splits)

section \<open>Simulation\<close>

abbreviation voter_steps where
  "voter_steps C ev Q \<equiv> (voter_step C ev Q)\<^sup>*\<^sup>*"

text \<open>
  From a state whose voter satisfies \<open>P\<close>, the call makes transitions of the voter, and if it
  returns \<open>Ok\<close> its value and the new voter satisfy \<open>R\<close>.
\<close>

definition sim ::
    "'p consensus_crypto \<Rightarrow> (u64 \<Rightarrow> validator_verifier) \<Rightarrow> (quorum_cert \<times> u64 \<times> round) set \<Rightarrow> (voter \<Rightarrow> bool) \<Rightarrow>
     (safety_rules, safety_error, 'a) st \<Rightarrow> ('a \<Rightarrow> voter \<Rightarrow> bool) \<Rightarrow> bool" where
  "sim C ev Q P m R \<longleftrightarrow> (\<forall>s r t. P (voter_of s) \<longrightarrow> m s = (r, t) \<longrightarrow>
     voter_steps C ev Q (voter_of s) (voter_of t) \<and> (\<forall>x. r = Inr x \<longrightarrow> R x (voter_of t)))"

lemma simD: "sim C ev Q P m R \<Longrightarrow> P (voter_of s) \<Longrightarrow> m s = (r, t) \<Longrightarrow> voter_steps C ev Q (voter_of s) (voter_of t)"
  "sim C ev Q P m R \<Longrightarrow> P (voter_of s) \<Longrightarrow> m s = (Inr x, t) \<Longrightarrow> R x (voter_of t)"
  unfolding sim_def by blast+

lemma sim_bind:
  assumes m: "sim C ev Q P m R" and f: "\<And>x. sim C ev Q (R x) (f x) R'"
  shows "sim C ev Q P (st_bind m f) R'"
  unfolding sim_def
proof (intro allI impI)
  fix s r t assume P: "P (voter_of s)" and "st_bind m f s = (r, t)"
  then consider e where "m s = (Inl e, t)" "r = Inl e" | x u where "m s = (Inr x, u)" "f x u = (r, t)"
    unfolding st_bind_cases by blast
  then show "voter_steps C ev Q (voter_of s) (voter_of t) \<and> (\<forall>x. r = Inr x \<longrightarrow> R' x (voter_of t))"
  proof cases
    case 1
    with simD(1) [OF m P 1(1)] show ?thesis by simp
  next
    case 2
    note u = simD(1) [OF m P 2(1)] and R = simD(2) [OF m P 2(1)]
    from simD(1) [OF f R 2(2)] u have "voter_steps C ev Q (voter_of s) (voter_of t)" by simp
    moreover have "R' y (voter_of t)" if "r = Inr y" for y using simD(2) [OF f R] 2(2) that by blast
    ultimately show ?thesis by blast
  qed
qed

lemma sim_quiet:
  assumes "quiet m" "\<And>s x t. P (voter_of s) \<Longrightarrow> m s = (Inr x, t) \<Longrightarrow> R x (voter_of s)"
  shows "sim C ev Q P m R"
  using assms unfolding sim_def quiet_def by (metis rtranclp.rtrancl_refl)

lemma sim_ok: "(\<And>w. P w \<Longrightarrow> R x w) \<Longrightarrow> sim C ev Q P (st_ok x) R"
  by (simp add: sim_def st_ok_def)

lemma sim_err: "sim C ev Q P (st_err e) R"
  by (simp add: sim_def st_err_def)

lemma sim_if: "(b \<Longrightarrow> sim C ev Q P m R) \<Longrightarrow> (\<not> b \<Longrightarrow> sim C ev Q P m' R) \<Longrightarrow> sim C ev Q P (if b then m else m') R"
  by simp

lemma sim_pre: "sim C ev Q P' m R \<Longrightarrow> (\<And>w. P w \<Longrightarrow> P' w) \<Longrightarrow> sim C ev Q P m R"
  unfolding sim_def by blast

lemma sim_write:
  assumes "\<And>s r t. m s = (r, t) \<Longrightarrow> voter_of t = voter_of s \<and> (\<exists>e. r = Inl e) \<or> r = Inr () \<and> voter_of t = g (voter_of s)"
    and "\<And>w. P w \<Longrightarrow> voter_steps C ev Q w (g w)" "\<And>w. P w \<Longrightarrow> R () (g w)"
  shows "sim C ev Q P m R"
  unfolding sim_def using assms by fastforce

lemma sim_set_last_voted_round:
  assumes "\<And>w. P w \<Longrightarrow> voter_steps C ev Q w (w\<lparr>v_voted := Some x\<rparr>)" "\<And>w. P w \<Longrightarrow> R () (w\<lparr>v_voted := Some x\<rparr>)"
  shows "sim C ev Q P (on_storage (set_last_voted_round x)) R"
  by (rule sim_write [where g = "\<lambda>w. w\<lparr>v_voted := Some x\<rparr>"]) (use assms in \<open>auto dest: write_effects(1)\<close>)

lemma sim_set_preferred_round:
  assumes "\<And>w. P w \<Longrightarrow> voter_steps C ev Q w (w\<lparr>v_preferred := Some x\<rparr>)" "\<And>w. P w \<Longrightarrow> R () (w\<lparr>v_preferred := Some x\<rparr>)"
  shows "sim C ev Q P (on_storage (set_preferred_round x)) R"
  by (rule sim_write [where g = "\<lambda>w. w\<lparr>v_preferred := Some x\<rparr>"]) (use assms in \<open>auto dest: write_effects(2)\<close>)

lemma sim_set_last_vote:
  assumes "\<And>w. P w \<Longrightarrow> voter_steps C ev Q w (w\<lparr>v_last_vote := Some lv\<rparr>)" "\<And>w. P w \<Longrightarrow> R () (w\<lparr>v_last_vote := Some lv\<rparr>)"
  shows "sim C ev Q P (on_storage (set_last_vote lv)) R"
  by (rule sim_write [where g = "\<lambda>w. w\<lparr>v_last_vote := Some lv\<rparr>"]) (use assms in \<open>auto dest: write_effects(3)\<close>)

section \<open>Voting\<close>

text \<open>The last vote is not past the last voted round: the part of the invariant that voting relies on.\<close>

definition vote_bound :: "voter \<Rightarrow> bool" where
  "vote_bound w \<longleftrightarrow> (\<forall>lv. v_last_vote w = Some (Some lv) \<longrightarrow> (\<exists>x. v_voted w = Some x \<and> vote_round lv \<le> x))"

lemma voter_inv_bound: "voter_inv C ev Q w hist \<Longrightarrow> vote_bound w"
  by (auto simp: voter_inv_def last_vote_ok_def vote_bound_def)

text \<open>The voter has verified the certificate \<open>q\<close> of a block of epoch \<open>e\<close>.\<close>

definition verified_for :: "'p consensus_crypto \<Rightarrow> quorum_cert \<Rightarrow> u64 \<Rightarrow> voter \<Rightarrow> bool" where
  "verified_for C q e w \<longleftrightarrow> vote_bound w \<and> v_epoch w = Some e \<and>
     (\<exists>es. v_epoch_state w = Some es \<and> quorum_cert_verify C q (es_verifier es) = Inr ())"

definition preferred_for :: "'p consensus_crypto \<Rightarrow> quorum_cert \<Rightarrow> u64 \<Rightarrow> voter \<Rightarrow> bool" where
  "preferred_for C q e w \<longleftrightarrow> verified_for C q e w \<and>
     (\<exists>y. v_preferred w = Some y \<and> bi_round (parent_block q) \<le> y \<and> y \<le> bi_round (certified_block q))"

lemma verified_for_preferred [simp]: "verified_for C q e (w\<lparr>v_preferred := x\<rparr>) = verified_for C q e w"
  by (simp add: verified_for_def vote_bound_def)

lemma sim_epoch: "sim C ev Q P (verify_epoch e) (\<lambda>_ w. P w \<and> v_epoch w = Some e)"
  by (rule sim_quiet, rule quiet_checks) (auto simp: verify_epoch_def result_simps dest: voter_get(1) split: if_splits)

lemma sim_qc:
  "sim C ev Q P (verify_qc C q)
     (\<lambda>_ w. P w \<and> (\<exists>es. v_epoch_state w = Some es \<and> quorum_cert_verify C q (es_verifier es) = Inr ()))"
  by (rule sim_quiet, rule quiet_checks)
    (auto simp: verify_qc_def safety_rules_epoch_state_def st_bind_eq_Inr st_read_def ok_or_eq_Inr rmap_err_eq_Inr voter_of_sel)

lemma sim_last_vote_round:
  "sim C ev Q P (verify_last_vote_round d) (\<lambda>_ w. P w \<and> (\<exists>x. v_voted w = Some x \<and> x < bd_round d))"
  by (rule sim_quiet, rule quiet_checks)
    (auto simp: verify_last_vote_round_def result_simps dest: voter_get(2) split: if_splits)

lemma sim_keep: "quiet m \<Longrightarrow> sim C ev Q P m (\<lambda>_. P)"
  by (rule sim_quiet)

lemma sim_preferred_round:
  "sim C ev Q (verified_for C q e) (verify_and_update_preferred_round q) (\<lambda>_. preferred_for C q e)"
  unfolding verify_and_update_preferred_round_def Let_def
proof (rule sim_bind [where R = "\<lambda>x w. verified_for C q e w \<and> v_preferred w = Some x"])
  show "sim C ev Q (verified_for C q e) (on_storage (store_get ps_preferred_round))
    (\<lambda>x w. verified_for C q e w \<and> v_preferred w = Some x)"
    by (rule sim_quiet, rule quiet_get) (auto dest: voter_get(3))
  fix x
  have rounds: "bi_round (parent_block q) \<le> bi_round (certified_block q)" if "verified_for C q e w" for w
    using that qc_rounds(1) unfolding verified_for_def by blast
  show "sim C ev Q (\<lambda>w. verified_for C q e w \<and> v_preferred w = Some x)
    (if bi_round (certified_block q) < x then st_err (IncorrectPreferredRound (bi_round (certified_block q)) x)
     else if x < bi_round (parent_block q) then on_storage (set_preferred_round (bi_round (parent_block q))) else st_ok ())
    (\<lambda>_. preferred_for C q e)"
  proof (intro sim_if sim_err sim_ok sim_set_preferred_round)
    fix w assume "x < bi_round (parent_block q)" and w: "verified_for C q e w \<and> v_preferred w = Some x"
    then show "voter_steps C ev Q w (w\<lparr>v_preferred := Some (bi_round (parent_block q))\<rparr>)"
      by (blast intro: voter_step.raise_preferred)
    show "preferred_for C q e (w\<lparr>v_preferred := Some (bi_round (parent_block q))\<rparr>)"
      using w rounds [of w] by (simp add: preferred_for_def)
  next
    fix w assume "\<not> bi_round (certified_block q) < x" "\<not> x < bi_round (parent_block q)" "verified_for C q e w \<and> v_preferred w = Some x"
    then show "preferred_for C q e w" by (simp add: preferred_for_def not_less)
  qed
qed

lemma vote_on_new:
  assumes "extension_check C vp = Inr vd" "vote_new C vd a (construct_ledger_info (vp_block vp)) vs = (Inr v :: (safety_error, vote) result)"
  shows "vote_on C (block_quorum_cert (vp_block vp)) v" "vote_epoch v = block_epoch (vp_block vp)" "vote_round v = block_round (vp_block vp)"
    "vote_author v = a"
  using assms
  by (auto simp: extension_check_def vote_new_def Let_def result_simps vote_on_def gen_block_info_def three_chain_commit_def
      construct_ledger_info_def split: if_splits)

definition ready_for :: "'p consensus_crypto \<Rightarrow> quorum_cert \<Rightarrow> u64 \<Rightarrow> round \<Rightarrow> voter \<Rightarrow> bool" where
  "ready_for C q e r w \<longleftrightarrow> preferred_for C q e w \<and> v_voted w = Some r \<and> (\<forall>lv. v_last_vote w = Some (Some lv) \<longrightarrow> vote_round lv < r)"

lemma ready_advance:
  assumes "preferred_for C q e w" "v_voted w = Some x" "x < r"
  shows "ready_for C q e r (w\<lparr>v_voted := Some r\<rparr>)"
  using assms unfolding ready_for_def preferred_for_def verified_for_def vote_bound_def by fastforce

lemma ready_cast:
  assumes "ready_for C q e (vote_round v) w" "vote_on C q v" "vote_epoch v = e" "(q, e, vote_round v) \<in> Q"
  shows "voter_step C ev Q w (w\<lparr>v_last_vote := Some (Some v)\<rparr>)"
  using assms unfolding ready_for_def preferred_for_def verified_for_def by (blast intro: voter_step.cast)

lemma voted_same: "v_voted w = Some r \<Longrightarrow> w\<lparr>v_voted := Some r\<rparr> = w"
  by (cases w) simp

lemma sim_new_vote:
  fixes vp :: "'p vote_proposal"
  defines "q \<equiv> block_quorum_cert (vp_block vp)" and "e \<equiv> block_epoch (vp_block vp)" and "r \<equiv> block_round (vp_block vp)"
  assumes Q: "(q, e, r) \<in> Q"
  shows "sim C ev Q (preferred_for C q e) (construct_new_vote C vp) (\<lambda>v w. v_last_vote w = Some (Some v))"
  unfolding construct_new_vote_def Let_def
proof (intro sim_bind)
  show "sim C ev Q (preferred_for C q e) (verify_last_vote_round (block_block_data (vp_block vp)))
    (\<lambda>_ w. preferred_for C q e w \<and> (\<exists>x. v_voted w = Some x \<and> x < r))"
    unfolding r_def by (rule sim_last_vote_round)
  show "sim C ev Q (\<lambda>w. preferred_for C q e w \<and> (\<exists>x. v_voted w = Some x \<and> x < r)) (st_read (\<lambda>_. extension_check C vp))
    (\<lambda>vd w. (preferred_for C q e w \<and> (\<exists>x. v_voted w = Some x \<and> x < r)) \<and> extension_check C vp = Inr vd)"
    by (rule sim_quiet, rule quiet_read) (auto simp: st_read_def)
  show "sim C ev Q (\<lambda>w. (preferred_for C q e w \<and> (\<exists>x. v_voted w = Some x \<and> x < r)) \<and> extension_check C vp = Inr vd)
    (on_storage (set_last_voted_round (block_round (vp_block vp)))) (\<lambda>_ w. ready_for C q e r w \<and> extension_check C vp = Inr vd)" for vd
    unfolding r_def [symmetric]
    by (rule sim_set_last_voted_round) (auto intro: ready_advance voter_step.advance)
  show "sim C ev Q (\<lambda>w. ready_for C q e r w \<and> extension_check C vp = Inr vd) signer
     (\<lambda>_ w. ready_for C q e r w \<and> extension_check C vp = Inr vd)" for vd
    by (rule sim_keep, rule quiet_checks)
  show "sim C ev Q (\<lambda>w. ready_for C q e r w \<and> extension_check C vp = Inr vd)
     (st_read (\<lambda>_. vote_new C vd (vs_author vs) (construct_ledger_info (vp_block vp)) vs))
     (\<lambda>v w. ready_for C q e (vote_round v) w \<and> vote_on C q v \<and> vote_epoch v = e \<and> vote_round v = r)" for vd vs
    by (rule sim_quiet, rule quiet_read) (auto simp: st_read_def q_def e_def r_def vote_on_new)
  show "sim C ev Q (\<lambda>w. ready_for C q e (vote_round v) w \<and> vote_on C q v \<and> vote_epoch v = e \<and> vote_round v = r)
     (on_storage (set_last_vote (Some v))) (\<lambda>_ w. v_last_vote w = Some (Some v) \<and> v_voted w = Some r)" for v
    using ready_cast [of C q e _ _ Q ev] Q by (intro sim_set_last_vote r_into_rtranclp) (auto simp: ready_for_def)
  show "sim C ev Q (\<lambda>w. v_last_vote w = Some (Some v) \<and> v_voted w = Some r)
     (on_storage (set_last_voted_round (block_round (vp_block vp)))) (\<lambda>_ w. v_last_vote w = Some (Some v))" for v
    unfolding r_def [symmetric] by (rule sim_set_last_voted_round) (auto simp: voted_same)
  show "sim C ev Q (\<lambda>w. v_last_vote w = Some (Some v)) (st_ok v) (\<lambda>v w. v_last_vote w = Some (Some v))" for v
    by (rule sim_ok)
qed

lemma sim_vote:
  fixes mp :: "'p maybe_signed_vote_proposal"
  defines "b \<equiv> vp_block (ms_vote_proposal mp)"
  assumes Q: "(block_quorum_cert b, block_epoch b, block_round b) \<in> Q"
  shows "sim C ev Q vote_bound (construct_and_sign_vote C mp) (\<lambda>v w. v_last_vote w = Some (Some v))"
  unfolding construct_and_sign_vote_def Let_def b_def [symmetric]
proof (intro sim_bind)
  let ?q = "block_quorum_cert b" and ?e = "block_epoch b"
  show "sim C ev Q vote_bound signer (\<lambda>_. vote_bound)" by (rule sim_keep, rule quiet_checks)
  show "sim C ev Q vote_bound (verify_execution_signature C mp) (\<lambda>_. vote_bound)" by (rule sim_keep, rule quiet_checks)
  show "sim C ev Q vote_bound (verify_epoch ?e) (\<lambda>_ w. vote_bound w \<and> v_epoch w = Some ?e)" by (rule sim_epoch)
  show "sim C ev Q (\<lambda>w. vote_bound w \<and> v_epoch w = Some ?e) (verify_qc C ?q) (\<lambda>_. verified_for C ?q ?e)"
    using sim_qc [of C ev Q "\<lambda>w. vote_bound w \<and> v_epoch w = Some ?e" ?q] by (simp add: verified_for_def [abs_def] conj_assoc)
  show "sim C ev Q (verified_for C ?q ?e) safety_rules_epoch_state (\<lambda>_. verified_for C ?q ?e)" by (rule sim_keep, rule quiet_checks)
  show "sim C ev Q (verified_for C ?q ?e) (st_read (\<lambda>_. rmap_err InternalError (block_validate_signature C b (es_verifier es))))
    (\<lambda>_. verified_for C ?q ?e)" for es by (rule sim_keep, rule quiet_read)
  show "sim C ev Q (verified_for C ?q ?e) (verify_and_update_preferred_round ?q) (\<lambda>_. preferred_for C ?q ?e)"
    by (rule sim_preferred_round)
  show "sim C ev Q (preferred_for C ?q ?e) (on_storage (store_get ps_last_vote)) (\<lambda>lv w. preferred_for C ?q ?e w \<and> v_last_vote w = Some lv)"
    by (rule sim_quiet, rule quiet_get) (auto dest: voter_get(4))
  fix last_vote
  have new: "sim C ev Q (\<lambda>w. preferred_for C ?q ?e w \<and> v_last_vote w = Some lv) (construct_new_vote C (ms_vote_proposal mp))
    (\<lambda>v w. v_last_vote w = Some (Some v))" for lv
    using sim_new_vote [OF Q [unfolded b_def]] unfolding b_def by (rule sim_pre) simp
  show "sim C ev Q (\<lambda>w. preferred_for C ?q ?e w \<and> v_last_vote w = Some last_vote)
    (case last_vote of None \<Rightarrow> construct_new_vote C (ms_vote_proposal mp)
     | Some vote \<Rightarrow>
         if vote_round vote = block_round b
         then st_bind (on_storage (set_last_voted_round (block_round b))) (\<lambda>_. st_ok vote)
         else construct_new_vote C (ms_vote_proposal mp)) (\<lambda>v w. v_last_vote w = Some (Some v))"
  proof (cases last_vote)
    case (Some v)
    have "sim C ev Q (\<lambda>w. preferred_for C ?q ?e w \<and> v_last_vote w = Some (Some v))
      (st_bind (on_storage (set_last_voted_round (block_round b))) (\<lambda>_. st_ok v)) (\<lambda>v w. v_last_vote w = Some (Some v))"
      if "vote_round v = block_round b"
      unfolding that [symmetric]
      by (rule sim_bind, rule sim_set_last_voted_round [where R = "\<lambda>_ w. v_last_vote w = Some (Some v)"])
        (auto intro: sim_ok voter_step.resend)
    with new [of "Some v"] Some show ?thesis by simp
  qed (use new in simp)
qed

section \<open>Proposals, timeouts and epochs\<close>

lemma sim_sign_proposal: "sim C ev Q vote_bound (sign_proposal C bd) (\<lambda>_ _. True)"
  unfolding sign_proposal_def
proof (intro sim_bind)
  let ?q = "bd_quorum_cert bd" and ?e = "bd_epoch bd"
  show "sim C ev Q vote_bound signer (\<lambda>_. vote_bound)" by (rule sim_keep, rule quiet_checks)
  show "sim C ev Q vote_bound (verify_author (bd_author bd)) (\<lambda>_. vote_bound)" by (rule sim_keep, rule quiet_checks)
  show "sim C ev Q vote_bound (verify_epoch ?e) (\<lambda>_ w. vote_bound w \<and> v_epoch w = Some ?e)" by (rule sim_epoch)
  show "sim C ev Q (\<lambda>w. vote_bound w \<and> v_epoch w = Some ?e) (verify_last_vote_round bd) (\<lambda>_ w. vote_bound w \<and> v_epoch w = Some ?e)"
    by (rule sim_keep, rule quiet_checks)
  show "sim C ev Q (\<lambda>w. vote_bound w \<and> v_epoch w = Some ?e) (verify_qc C ?q) (\<lambda>_. verified_for C ?q ?e)"
    using sim_qc [of C ev Q "\<lambda>w. vote_bound w \<and> v_epoch w = Some ?e" ?q] by (simp add: verified_for_def [abs_def] conj_assoc)
  show "sim C ev Q (verified_for C ?q ?e) (verify_and_update_preferred_round ?q) (\<lambda>_. preferred_for C ?q ?e)"
    by (rule sim_preferred_round)
  show "sim C ev Q (preferred_for C ?q ?e) signer (\<lambda>_ _. True)" by (rule sim_quiet, rule quiet_checks) simp
  show "sim C ev Q (\<lambda>_. True) (st_read (\<lambda>_. block_new_proposal_from_block_data C bd vs)) (\<lambda>_ _. True)" for vs
    by (rule sim_quiet, rule quiet_read) simp
qed

lemma sim_sign_timeout: "sim C ev Q (\<lambda>_. True) (sign_timeout C to) (\<lambda>_ _. True)"
  unfolding sign_timeout_def
proof (intro sim_bind sim_if sim_err)
  show "sim C ev Q (\<lambda>_. True) signer (\<lambda>_ _. True)" by (rule sim_quiet, rule quiet_checks) simp
  show "sim C ev Q (\<lambda>_. True) (verify_epoch (to_epoch to)) (\<lambda>_ _. True)" by (rule sim_quiet, rule quiet_checks) simp
  show "sim C ev Q (\<lambda>_. True) (on_storage (store_get ps_preferred_round)) (\<lambda>_ _. True)" by (rule sim_quiet, rule quiet_get) simp
  show "sim C ev Q (\<lambda>_. True) (on_storage (store_get ps_last_voted_round)) (\<lambda>x w. v_voted w = Some x)"
    by (rule sim_quiet, rule quiet_get) (auto dest: voter_get(2))
  show "sim C ev Q (\<lambda>w. v_voted w = Some x) (on_storage (set_last_voted_round (to_round to))) (\<lambda>_ _. True)" if "x < to_round to" for x
    by (rule sim_set_last_voted_round) (use that in \<open>auto intro: voter_step.advance\<close>)
  show "sim C ev Q (\<lambda>w. v_voted w = Some x) (st_ok ()) (\<lambda>_ _. True)" for x by (rule sim_ok) simp
  show "sim C ev Q (\<lambda>_. True) signer (\<lambda>_ _. True)" by (rule sim_quiet, rule quiet_checks) simp
  show "sim C ev Q (\<lambda>_. True) (st_read (\<lambda>_. signer_sign C (cc_timeout C) vs to)) (\<lambda>_ _. True)" for vs
    by (rule sim_quiet, rule quiet_read) simp
qed

lemma quiet_reconcile [quiet_intros]: "quiet (reconcile_signer C a es)"
proof -
  have "quiet (on_storage (consensus_key_for_version k))" for k
    unfolding consensus_key_for_version_def by (rule quiet_get)
  then show ?thesis
    unfolding reconcile_signer_def
    by (auto simp: quiet_def st_bind_def st_read_def st_ok_def st_modify_def voter_of_def split: option.splits prod.splits sum.splits)
qed

lemma start_epoch_Inr:
  assumes "start_epoch C li e s = (Inr (), t)"
  shows "voter_of t = (voter_of s)\<lparr>v_epoch := Some e, v_voted := Some 0, v_preferred := Some 0, v_last_vote := Some None\<rparr>"
proof -
  from assms obtain wp s1 s2 s3 s4 where
    "on_storage (set_waypoint wp) s = (Inr (), s1)" "on_storage (set_last_voted_round 0) s1 = (Inr (), s2)"
    "on_storage (set_preferred_round 0) s2 = (Inr (), s3)" "on_storage (set_last_vote None) s3 = (Inr (), s4)"
    "on_storage (set_epoch e) s4 = (Inr (), t)"
    by (auto simp: start_epoch_def st_bind_eq_Inr st_read_def)
  from write_effects(5) [OF this(1)] write_effects(1) [OF this(2)] write_effects(2) [OF this(3)] write_effects(3) [OF this(4)]
    write_effects(4) [OF this(5)] show ?thesis by simp
qed

lemma initialize_Inr:
  assumes "initialize C proof s = (Inr (), t)"
  obtains es e where "sr_epoch_state t = Some es" "v_epoch (voter_of s) = Some e"
    "e < es_epoch es \<Longrightarrow> voter_of t = \<lparr>v_epoch_state = Some es, v_epoch = Some (es_epoch es), v_voted = Some 0, v_preferred = Some 0,
       v_last_vote = Some None\<rparr>"
    "\<not> e < es_epoch es \<Longrightarrow> voter_of t = (voter_of s)\<lparr>v_epoch_state := Some es\<rparr>"
proof -
  from assms obtain wp s1 li es a s2 s3 e s4 s5 where
    g: "on_storage (store_get ps_waypoint) s = (Inr wp, s1)" "on_storage (store_get ps_author) s1 = (Inr a, s2)"
    "reconcile_signer C a es s2 = (Inr (), s3)" "on_storage (store_get ps_epoch) s3 = (Inr e, s4)"
    and w: "(if e < es_epoch es then start_epoch C li (es_epoch es) else st_ok ()) s4 = (Inr (), s5)" "t = s5\<lparr>sr_epoch_state := Some es\<rparr>"
    by (auto simp: initialize_def Let_def st_bind_eq_Inr st_read_def st_modify_def)
  have v: "voter_of s1 = voter_of s" "voter_of s2 = voter_of s" "voter_of s3 = voter_of s" "voter_of s4 = voter_of s"
    using g quiet_get quiet_reconcile unfolding quiet_def by metis+
  have "v_epoch (voter_of s) = Some e" using voter_get(1) [OF g(4)] v by simp
  moreover have "voter_of t = (voter_of s5)\<lparr>v_epoch_state := Some es\<rparr>" by (simp add: w(2) voter_of_def)
  moreover have "voter_of s5 = (voter_of s)\<lparr>v_epoch := Some (es_epoch es), v_voted := Some 0, v_preferred := Some 0, v_last_vote := Some None\<rparr>"
    if "e < es_epoch es" using start_epoch_Inr [of C li "es_epoch es" s4 s5] w(1) v that by simp
  moreover have "voter_of s5 = voter_of s" if "\<not> e < es_epoch es" using w(1) v that by (simp add: st_ok_def)
  ultimately show ?thesis using that [of es e] w(2) by simp
qed

end
