(* ===== verification/Bft_Safety.thy ===== *)
theory Bft_Safety
  imports Safety_Voter
begin

text \<open>
  Agreement. \<open>chain_votes\<close> is what the commit rule relies on: quorums share a voter, a voter casts
  one vote per round and does not go back behind its preferred round. A system of validators that
  run the safety rules, with a network and faulty validators that present whatever they like to
  them, provides it, so no two committed blocks of an epoch are on different branches.
\<close>

section \<open>The three-chain commit rule\<close>

definition three_chain :: "('b \<Rightarrow> 'b \<Rightarrow> bool) \<Rightarrow> ('b \<Rightarrow> nat) \<Rightarrow> 'b \<Rightarrow> bool" where
  "three_chain cert rnd b0 \<longleftrightarrow> 0 < rnd b0 \<and>
     (\<exists>b1 b2. cert b0 b1 \<and> cert b1 b2 \<and> rnd b1 = Suc (rnd b0) \<and> rnd b2 = Suc (rnd b1))"

locale chain_votes =
  fixes cert :: "'b \<Rightarrow> 'b \<Rightarrow> bool" and rnd :: "'b \<Rightarrow> nat" and votes :: "'a \<Rightarrow> ('b \<times> 'b) set"
  assumes common_voter: "cert p b \<Longrightarrow> cert p' b' \<Longrightarrow> \<exists>a. (p, b) \<in> votes a \<and> (p', b') \<in> votes a"
    and one_vote: "(p, b) \<in> votes a \<Longrightarrow> (p', b') \<in> votes a \<Longrightarrow> rnd b = rnd b' \<Longrightarrow> p = p' \<and> b = b'"
    and locked: "(p, b) \<in> votes a \<Longrightarrow> 0 < rnd p \<Longrightarrow>
      \<exists>g. cert g p \<and> (\<forall>p' b'. (p', b') \<in> votes a \<longrightarrow> rnd b < rnd b' \<longrightarrow> rnd g \<le> rnd p')"
    and grows: "cert p b \<Longrightarrow> rnd p < rnd b"
begin

lemma cert_unique: "cert p b \<Longrightarrow> cert p' b' \<Longrightarrow> rnd b = rnd b' \<Longrightarrow> p = p' \<and> b = b'"
  using common_voter one_vote by metis

lemma parent_certified: "cert p b \<Longrightarrow> 0 < rnd p \<Longrightarrow> \<exists>g. cert g p"
  using common_voter locked by metis

lemma descends:
  assumes "three_chain cert rnd b0" "cert p b" "rnd b0 < rnd b"
  shows "cert\<^sup>*\<^sup>* b0 b"
  using assms(2,3)
proof (induction "rnd b" arbitrary: p b rule: less_induct)
  case less
  from assms(1) obtain b1 b2 where c: "0 < rnd b0" "cert b0 b1" "cert b1 b2" "rnd b1 = Suc (rnd b0)" "rnd b2 = Suc (rnd b1)"
    by (auto simp: three_chain_def)
  consider "rnd b = rnd b1" | "rnd b = rnd b2" | "rnd b2 < rnd b" using less.prems(2) c(4,5) by linarith
  then show ?case
  proof cases
    case 1
    with cert_unique [OF less.prems(1) c(2)] less.prems(1) show ?thesis by auto
  next
    case 2
    with cert_unique [OF less.prems(1) c(3)] less.prems(1) c(2) show ?thesis by (auto intro: rtranclp.rtrancl_into_rtrancl)
  next
    case 3
    obtain a where a: "(b1, b2) \<in> votes a" "(p, b) \<in> votes a" using common_voter [OF c(3) less.prems(1)] by blast
    obtain g where g: "cert g b1" "rnd g \<le> rnd p" using locked [OF a(1)] c(4) a(2) 3 by auto
    then have p: "rnd b0 \<le> rnd p" using cert_unique [OF g(1) c(2)] by simp
    show ?thesis
    proof (cases "rnd p = rnd b0")
      case True
      obtain g1 g2 where "cert g1 p" "cert g2 b0" using parent_certified less.prems(1) c(1,2) True by metis
      from cert_unique [OF this True] less.prems(1) show ?thesis by auto
    next
      case False
      obtain g where g: "cert g p" using parent_certified [OF less.prems(1)] c(1) p by auto
      have "cert\<^sup>*\<^sup>* b0 p" using less.hyps [OF grows [OF less.prems(1)] g] False p by simp
      with less.prems(1) show ?thesis by simp
    qed
  qed
qed

lemma three_chain_agreement:
  assumes "three_chain cert rnd b" "three_chain cert rnd b'"
  shows "cert\<^sup>*\<^sup>* b b' \<or> cert\<^sup>*\<^sup>* b' b"
proof -
  have c: "\<exists>g. cert g x" if "three_chain cert rnd x" for x using that parent_certified by (auto simp: three_chain_def)
  obtain g g' where g: "cert g b" "cert g' b'" using c assms by blast
  consider "rnd b < rnd b'" | "rnd b' < rnd b" | "rnd b = rnd b'" by linarith
  then show ?thesis
  proof cases
    case 3
    with cert_unique [OF g] show ?thesis by simp
  qed (use descends assms g in blast)+
qed

end

section \<open>A system of validators\<close>

record system =
  nodes :: "author \<Rightarrow> safety_rules"
  sent :: "(author \<times> vote) set"
  presented :: "(quorum_cert \<times> u64 \<times> round) set"

text \<open>
  Signatures of honest validators are not forged: where a ledger info carries a signature that
  verifies under the key of an honest validator, that validator has sent a vote with it.
\<close>

definition unforged ::
    "'p consensus_crypto \<Rightarrow> (u64 \<Rightarrow> validator_verifier) \<Rightarrow> author set \<Rightarrow> (author \<times> vote) set \<Rightarrow> ledger_info_with_signatures \<Rightarrow> u64 \<Rightarrow> bool" where
  "unforged C ev honest snt lis e \<longleftrightarrow>
     (\<forall>a sig. bget (lis_signatures lis) a = Some sig \<longrightarrow> a \<in> honest \<longrightarrow>
        verifier_verify (cc_ledger_info C) (ev e) a (lis_ledger_info lis) sig = Inr () \<longrightarrow>
        (\<exists>v. (a, v) \<in> snt \<and> vote_ledger_info v = lis_ledger_info lis))"

definition returned :: "author \<Rightarrow> ('e, vote) result \<Rightarrow> (author \<times> vote) set" where
  "returned a r = (case r of Inr v \<Rightarrow> {(a, v)} | Inl _ \<Rightarrow> {})"

text \<open>
  The steps of an honest validator: a vote on a block that is well-formed (\<open>ProposalMsg::verify\<close>
  checks this before the safety rules see the block), a proposal, a timeout, a restart from the
  storage, and the start of an epoch that returns \<open>Ok\<close>, from a proof that leads to the validators
  of the epoch.
\<close>

inductive sys_step ::
    "'p consensus_crypto \<Rightarrow> (u64 \<Rightarrow> validator_verifier) \<Rightarrow> author set \<Rightarrow> system \<Rightarrow> system \<Rightarrow> bool" for C ev honest where
  vote: "a \<in> honest \<Longrightarrow> b = vp_block (ms_vote_proposal mp) \<Longrightarrow> block_verify_well_formed b = Inr () \<Longrightarrow>
    unforged C ev honest (sent sys) (qc_signed_ledger_info (block_quorum_cert b)) (block_epoch b) \<Longrightarrow>
    construct_and_sign_vote C mp (nodes sys a) = (r, s') \<Longrightarrow>
    sys_step C ev honest sys
      \<lparr>nodes = (nodes sys)(a := s'), sent = sent sys \<union> returned a r,
       presented = insert (block_quorum_cert b, block_epoch b, block_round b) (presented sys)\<rparr>"
| propose: "a \<in> honest \<Longrightarrow> sign_proposal C bd (nodes sys a) = (r, s') \<Longrightarrow>
    sys_step C ev honest sys (sys\<lparr>nodes := (nodes sys)(a := s')\<rparr>)"
| time_out: "a \<in> honest \<Longrightarrow> sign_timeout C to (nodes sys a) = (r, s') \<Longrightarrow>
    sys_step C ev honest sys (sys\<lparr>nodes := (nodes sys)(a := s')\<rparr>)"
| restart: "a \<in> honest \<Longrightarrow> safety_rules_new (sr_persistent_storage (nodes sys a)) checks = (Inr s' :: (string, safety_rules) result) \<Longrightarrow>
    sys_step C ev honest sys (sys\<lparr>nodes := (nodes sys)(a := s')\<rparr>)"
| new_epoch: "a \<in> honest \<Longrightarrow> initialize C proof (nodes sys a) = (Inr (), s') \<Longrightarrow>
    (\<And>es e. sr_epoch_state s' = Some es \<Longrightarrow> ps_epoch (sr_persistent_storage (nodes sys a)) = Some e \<Longrightarrow>
       es_verifier es = ev (es_epoch es) \<and> e \<le> es_epoch es) \<Longrightarrow>
    sys_step C ev honest sys (sys\<lparr>nodes := (nodes sys)(a := s')\<rparr>)"

text \<open>Every honest validator starts with a new storage.\<close>

definition sys_init :: "author set \<Rightarrow> system \<Rightarrow> bool" where
  "sys_init honest sys \<longleftrightarrow> sent sys = {} \<and> presented sys = {} \<and>
     (\<forall>a \<in> honest. sr_epoch_state (nodes sys a) = None \<and>
        (\<exists>keys exec wp unavailable. sr_persistent_storage (nodes sys a) = storage_initialize a keys exec wp unavailable))"

definition reachable :: "'p consensus_crypto \<Rightarrow> (u64 \<Rightarrow> validator_verifier) \<Rightarrow> author set \<Rightarrow> system \<Rightarrow> bool" where
  "reachable C ev honest sys \<longleftrightarrow> (\<exists>sys0. sys_init honest sys0 \<and> (sys_step C ev honest)\<^sup>*\<^sup>* sys0 sys)"

section \<open>The invariant of the system\<close>

definition votes_ok ::
    "'p consensus_crypto \<Rightarrow> (u64 \<Rightarrow> validator_verifier) \<Rightarrow> system \<Rightarrow> author \<Rightarrow> (vote \<times> quorum_cert) list \<Rightarrow> bool" where
  "votes_ok C ev sys a hist \<longleftrightarrow> voter_inv C ev (presented sys) (voter_of (nodes sys a)) hist \<and>
     (\<forall>v. (a, v) \<in> sent sys \<longrightarrow> v \<in> fst ` set hist)"

definition qcs_ok :: "'p consensus_crypto \<Rightarrow> (u64 \<Rightarrow> validator_verifier) \<Rightarrow> author set \<Rightarrow> system \<Rightarrow> bool" where
  "qcs_ok C ev honest sys \<longleftrightarrow>
     (\<forall>(q, e, r) \<in> presented sys. unforged C ev honest (sent sys) (qc_signed_ledger_info q) e \<and>
        bi_epoch (certified_block q) = e \<and> bi_round (certified_block q) < r)"

definition sys_inv :: "'p consensus_crypto \<Rightarrow> (u64 \<Rightarrow> validator_verifier) \<Rightarrow> author set \<Rightarrow> system \<Rightarrow> bool" where
  "sys_inv C ev honest sys \<longleftrightarrow> qcs_ok C ev honest sys \<and> (\<forall>a \<in> honest. \<exists>hist. votes_ok C ev sys a hist)"

lemma unforged_mono: "unforged C ev honest snt lis e \<Longrightarrow> snt \<subseteq> snt' \<Longrightarrow> unforged C ev honest snt' lis e"
  unfolding unforged_def by blast

lemma qcs_ok_mono:
  "qcs_ok C ev honest sys \<Longrightarrow> presented sys' = presented sys \<Longrightarrow> sent sys \<subseteq> sent sys' \<Longrightarrow> qcs_ok C ev honest sys'"
  unfolding qcs_ok_def by (auto intro: unforged_mono)

text \<open>A step of one validator whose voter makes transitions.\<close>

lemma node_step_inv:
  assumes inv: "sys_inv C ev honest sys" and qcs: "qcs_ok C ev honest sys'"
    and nodes: "nodes sys' = (nodes sys)(a := s')" and pres: "presented sys \<subseteq> presented sys'"
    and steps: "\<And>hist. voter_inv C ev (presented sys') (voter_of (nodes sys a)) hist \<Longrightarrow>
      (voter_step C ev (presented sys'))\<^sup>*\<^sup>* (voter_of (nodes sys a)) (voter_of s')"
    and sent: "sent sys' = sent sys \<union> returned a r" and last: "\<And>v. r = Inr v \<Longrightarrow> vote_bound (voter_of (nodes sys a)) \<Longrightarrow>
      v_last_vote (voter_of s') = Some (Some v)"
  shows "sys_inv C ev honest sys'"
proof -
  have "\<exists>hist. votes_ok C ev sys' c hist" if c: "c \<in> honest" for c
  proof -
    obtain hist where h: "votes_ok C ev sys c hist" using inv c by (auto simp: sys_inv_def)
    have v: "voter_inv C ev (presented sys') (voter_of (nodes sys c)) hist"
      using h voter_inv_mono [OF _ pres] by (auto simp: votes_ok_def)
    show ?thesis
    proof (cases "c = a")
      case True
      with v steps obtain new where new: "voter_inv C ev (presented sys') (voter_of s') (hist @ new)"
        using voter_steps_inv by blast
      have "w \<in> fst ` set (hist @ new)" if "(a, w) \<in> sent sys'" for w
      proof (cases "(a, w) \<in> sent sys")
        case False
        with that sent have "r = Inr w" by (auto simp: returned_def split: sum.splits)
        then have "v_last_vote (voter_of s') = Some (Some w)" using last voter_inv_bound v True by blast
        then have "hist @ new \<noteq> []" "w = fst (last (hist @ new))" using new unfolding voter_inv_def last_vote_ok_def by blast+
        then show ?thesis using last_in_set by blast
      qed (use h True in \<open>auto simp: votes_ok_def\<close>)
      with new nodes True show ?thesis by (auto simp: votes_ok_def)
    next
      case False
      then have "(c, w) \<in> sent sys' \<longleftrightarrow> (c, w) \<in> sent sys" for w by (auto simp: sent returned_def split: sum.splits)
      with v h False nodes show ?thesis by (auto simp: votes_ok_def)
    qed
  qed
  with qcs show ?thesis by (simp add: sys_inv_def)
qed

lemma silent_step_inv:
  assumes "sys_inv C ev honest sys"
    and "\<And>hist. voter_inv C ev (presented sys) (voter_of (nodes sys a)) hist \<Longrightarrow>
      voter_steps C ev (presented sys) (voter_of (nodes sys a)) (voter_of s')"
  shows "sys_inv C ev honest (sys\<lparr>nodes := (nodes sys)(a := s')\<rparr>)"
proof (rule node_step_inv [OF assms(1), where r = "Inl (Panic []) :: (string, vote) result"])
  show "qcs_ok C ev honest (sys\<lparr>nodes := (nodes sys)(a := s')\<rparr>)"
    using assms(1) by (auto simp: sys_inv_def intro: qcs_ok_mono)
qed (use assms(2) in \<open>auto simp: returned_def\<close>)

lemma well_formed_parent:
  "block_verify_well_formed b = Inr () \<Longrightarrow>
     bi_epoch (certified_block (block_quorum_cert b)) = block_epoch b \<and> bi_round (certified_block (block_quorum_cert b)) < block_round b"
  by (auto simp: block_verify_well_formed_def Let_def result_simps)

lemma sys_step_inv:
  assumes "sys_step C ev honest sys sys'" "sys_inv C ev honest sys"
  shows "sys_inv C ev honest sys'"
  using assms
proof (induction rule: sys_step.induct)
  case (vote a b mp sys r s')
  let ?Q = "insert (block_quorum_cert b, block_epoch b, block_round b) (presented sys)"
  let ?sys = "\<lparr>nodes = (nodes sys)(a := s'), sent = sent sys \<union> returned a r, presented = ?Q\<rparr>"
  have m: "(block_quorum_cert (vp_block (ms_vote_proposal mp)), block_epoch (vp_block (ms_vote_proposal mp)),
    block_round (vp_block (ms_vote_proposal mp))) \<in> ?Q" using vote.hyps(2) by simp
  note sim = sim_vote [OF m, of C ev]
  show ?case
  proof (rule node_step_inv [OF vote.prems, where sys' = ?sys and a = a and s' = s' and r = r])
    have "qcs_ok C ev honest (sys\<lparr>sent := sent sys \<union> returned a r\<rparr>)"
      using vote.prems by (auto simp: sys_inv_def intro: qcs_ok_mono)
    with vote.hyps(4) well_formed_parent [OF vote.hyps(3)] show "qcs_ok C ev honest ?sys"
      by (auto simp: qcs_ok_def intro: unforged_mono)
    show "(voter_step C ev (presented ?sys))\<^sup>*\<^sup>* (voter_of (nodes sys a)) (voter_of s')"
      if "voter_inv C ev (presented ?sys) (voter_of (nodes sys a)) hist" for hist
      using simD(1) [OF sim voter_inv_bound [OF that] vote.hyps(5)] by simp
    show "v_last_vote (voter_of s') = Some (Some v)" if "r = Inr v" "vote_bound (voter_of (nodes sys a))" for v
      using simD(2) [OF sim that(2)] vote.hyps(5) that(1) by blast
  qed auto
next
  case (propose a bd sys r s')
  then show ?case by (blast intro: silent_step_inv simD(1) [OF sim_sign_proposal voter_inv_bound])
next
  case (time_out a to sys r s')
  then show ?case by (blast intro: silent_step_inv simD(1) [OF sim_sign_timeout TrueI])
next
  case (restart a sys checks s')
  have "voter_of s' = (voter_of (nodes sys a))\<lparr>v_epoch_state := None\<rparr>"
    using restart.hyps(2) by (auto simp: safety_rules_new_def store_get_def result_simps voter_of_def split: if_splits)
  then have s: "voter_step C ev Q (voter_of (nodes sys a)) (voter_of s')" for Q by (simp add: voter_step.restart)
  with restart.prems show ?case by (blast intro: silent_step_inv)
next
  case (new_epoch a pr sys s')
  from initialize_Inr [OF new_epoch.hyps(2)] obtain es e where i: "sr_epoch_state s' = Some es" "v_epoch (voter_of (nodes sys a)) = Some e"
    "e < es_epoch es \<Longrightarrow> voter_of s' = \<lparr>v_epoch_state = Some es, v_epoch = Some (es_epoch es), v_voted = Some 0, v_preferred = Some 0,
       v_last_vote = Some None\<rparr>"
    "\<not> e < es_epoch es \<Longrightarrow> voter_of s' = (voter_of (nodes sys a))\<lparr>v_epoch_state := Some es\<rparr>" by blast
  have ok: "es_verifier es = ev (es_epoch es)" "e \<le> es_epoch es" using new_epoch.hyps(3) [OF i(1)] i(2) by (simp_all add: voter_of_sel)
  have s: "voter_step C ev Q (voter_of (nodes sys a)) (voter_of s')" for Q
  proof (cases "e < es_epoch es")
    case True
    then show ?thesis using voter_step.start [where ev = ev, OF i(2) True ok(1)] i(3) by simp
  next
    case False
    then show ?thesis using voter_step.load [of "voter_of (nodes sys a)" es ev] i(2,4) ok by simp
  qed
  with new_epoch.prems show ?case by (blast intro: silent_step_inv)
qed

lemma sys_init_inv: "sys_init honest sys \<Longrightarrow> sys_inv C ev honest sys"
  unfolding sys_inv_def
proof (intro conjI ballI)
  assume i: "sys_init honest sys"
  then show "qcs_ok C ev honest sys" by (simp add: sys_init_def qcs_ok_def)
  fix a assume "a \<in> honest"
  with i have "votes_ok C ev sys a []"
    by (auto simp: sys_init_def votes_ok_def voter_inv_defs voter_of_def storage_initialize_def)
  then show "\<exists>hist. votes_ok C ev sys a hist" ..
qed

lemma reachable_inv: "reachable C ev honest sys \<Longrightarrow> sys_inv C ev honest sys"
  unfolding reachable_def by (elim exE conjE, erule rtranclp_induct) (auto intro: sys_init_inv sys_step_inv)

section \<open>Certified blocks\<close>

text \<open>The data of the votes that honest validators have sent and of the certificates they have received.\<close>

definition vote_datas :: "system \<Rightarrow> vote_data set" where
  "vote_datas sys = (vote_vote_data \<circ> snd) ` sent sys \<union> (qc_vote_data \<circ> fst) ` presented sys"

text \<open>
  A run in which at most a third of the voting power of the epoch is faulty and the hash function
  has no collision among these data.
\<close>

definition safe_run :: "'p consensus_crypto \<Rightarrow> (u64 \<Rightarrow> validator_verifier) \<Rightarrow> author set \<Rightarrow> system \<Rightarrow> u64 \<Rightarrow> bool" where
  "safe_run C ev honest sys e \<longleftrightarrow> reachable C ev honest sys \<and> batch_sound (cc_ledger_info C) \<and>
     verifier_ok (ev e) \<and> members (ev e) \<noteq> {} \<and>
     3 * (\<Sum>a \<in> (- honest) \<inter> members (ev e). power_of (ev e) a) \<le> total_power (ev e) \<and>
     inj_on (cc_vote_data_hash C) (vote_datas sys)"

text \<open>A quorum of the epoch has signed a ledger info with the hash of the data of a vote for \<open>b\<close> on \<open>p\<close>.\<close>

definition certified_link ::
    "'p consensus_crypto \<Rightarrow> (u64 \<Rightarrow> validator_verifier) \<Rightarrow> author set \<Rightarrow> system \<Rightarrow> u64 \<Rightarrow> block_info \<Rightarrow> block_info \<Rightarrow> bool" where
  "certified_link C ev honest sys e p b \<longleftrightarrow> safe_run C ev honest sys e \<and> bi_epoch b = e \<and> bi_round p < bi_round b \<and>
     (\<exists>lis. lis_verify_signatures (cc_ledger_info C) lis (ev e) = Inr () \<and> unforged C ev honest (sent sys) lis e \<and>
        \<lparr>vd_proposed = b, vd_parent = p\<rparr> \<in> vote_datas sys \<and>
        consensus_data_hash (lis_ledger_info lis) = cc_vote_data_hash C \<lparr>vd_proposed = b, vd_parent = p\<rparr>)"

definition votes_of ::
    "'p consensus_crypto \<Rightarrow> (u64 \<Rightarrow> validator_verifier) \<Rightarrow> author set \<Rightarrow> system \<Rightarrow> u64 \<Rightarrow> author \<Rightarrow> (block_info \<times> block_info) set" where
  "votes_of C ev honest sys e a =
     {(vd_parent (vote_vote_data v), vd_proposed (vote_vote_data v)) | v.
        safe_run C ev honest sys e \<and> a \<in> honest \<and> (a, v) \<in> sent sys \<and> vote_epoch v = e}"

abbreviation round_of :: "block_info \<Rightarrow> nat" where
  "round_of b \<equiv> unat (bi_round b)"

lemma hist_order:
  assumes "sorted_wrt vote_before hist" "x \<in> set hist" "y \<in> set hist"
  shows "x = y \<or> vote_before x y \<or> vote_before y x"
proof -
  obtain i j where ij: "i < length hist" "j < length hist" "x = hist ! i" "y = hist ! j" using assms(2,3) by (auto simp: in_set_conv_nth)
  then show ?thesis using assms(1) unfolding sorted_wrt_iff_nth_less by (metis linorder_less_linear)
qed

lemma sent_vote:
  assumes "reachable C ev honest sys" "a \<in> honest" "(a, v) \<in> sent sys"
  obtains hist q where "votes_ok C ev sys a hist" "(v, q) \<in> set hist" "justified C ev (presented sys) (v, q)"
proof -
  obtain hist where h: "votes_ok C ev sys a hist" using reachable_inv [OF assms(1)] assms(2) by (auto simp: sys_inv_def)
  then obtain q where "(v, q) \<in> set hist" using assms(3) by (force simp: votes_ok_def)
  with h that show ?thesis by (auto simp: votes_ok_def voter_inv_def)
qed

lemma sent_votes:
  assumes "reachable C ev honest sys" "a \<in> honest" "(a, v) \<in> sent sys"
  obtains q where "justified C ev (presented sys) (v, q)"
    "\<And>v'. (a, v') \<in> sent sys \<Longrightarrow> vote_epoch v = vote_epoch v' \<Longrightarrow> vote_round v = vote_round v' \<Longrightarrow> v = v'"
    "\<And>v'. (a, v') \<in> sent sys \<Longrightarrow> vote_epoch v = vote_epoch v' \<Longrightarrow> vote_round v < vote_round v' \<Longrightarrow>
       bi_round (parent_block q) \<le> bi_round (vd_parent (vote_vote_data v'))"
proof -
  from sent_vote [OF assms] obtain hist q where h: "votes_ok C ev sys a hist" "(v, q) \<in> set hist" "justified C ev (presented sys) (v, q)" .
  have "(v', q') = (v, q) \<or> vote_before (v, q) (v', q') \<or> vote_before (v', q') (v, q)" if "(v', q') \<in> set hist" for v' q'
    using hist_order [OF _ that h(2)] h(1) by (auto simp: votes_ok_def voter_inv_def)
  moreover have "\<exists>q'. (v', q') \<in> set hist" if "(a, v') \<in> sent sys" for v' using that h(1) by (force simp: votes_ok_def)
  ultimately have o: "\<exists>q'. (v', q') = (v, q) \<or> vote_before (v, q) (v', q') \<or> vote_before (v', q') (v, q)"
    if "(a, v') \<in> sent sys" for v' using that by blast
  show ?thesis using that [OF h(3)] o by (fastforce simp: vote_before_def)
qed

text \<open>What the signature of an honest validator on a ledger info of a quorum says.\<close>

lemma signed_by_honest:
  assumes "safe_run C ev honest sys e" "lis_verify_signatures (cc_ledger_info C) lis (ev e) = Inr ()" "unforged C ev honest (sent sys) lis e"
  shows "is_quorum (ev e) (set (bkeys (lis_signatures lis)))"
    and "a \<in> set (bkeys (lis_signatures lis)) \<Longrightarrow> a \<in> honest \<Longrightarrow> \<exists>v. (a, v) \<in> sent sys \<and> vote_ledger_info v = lis_ledger_info lis"
proof -
  have q: "is_quorum (ev e) (set (bkeys (lis_signatures lis)))"
    "valid_signatures (cc_ledger_info C) (ev e) (lis_ledger_info lis) (lis_signatures lis)"
    using assms(1,2) verified_quorum [of "cc_ledger_info C" "ev e" "lis_ledger_info lis" "lis_signatures lis"]
    by (simp_all add: safe_run_def lis_verify_signatures_def)
  then show "is_quorum (ev e) (set (bkeys (lis_signatures lis)))" by simp
  assume "a \<in> set (bkeys (lis_signatures lis))" "a \<in> honest"
  moreover from this obtain sig where "bget (lis_signatures lis) a = Some sig" by (auto simp: bget_bkeys)
  moreover from this have "verifier_verify (cc_ledger_info C) (ev e) a (lis_ledger_info lis) sig = Inr ()"
    using q(2) by (auto simp: valid_signatures_def bget_Some_iff)
  ultimately show "\<exists>v. (a, v) \<in> sent sys \<and> vote_ledger_info v = lis_ledger_info lis" using assms(3) by (auto simp: unforged_def)
qed

lemma certified_vote:
  assumes "safe_run C ev honest sys e" "bi_epoch b = e" "\<lparr>vd_proposed = b, vd_parent = p\<rparr> \<in> vote_datas sys"
    and "consensus_data_hash (vote_ledger_info v) = cc_vote_data_hash C \<lparr>vd_proposed = b, vd_parent = p\<rparr>"
    and "a \<in> honest" "(a, v) \<in> sent sys"
  shows "(p, b) \<in> votes_of C ev honest sys e a"
proof -
  from assms(1) have r: "reachable C ev honest sys" and inj: "inj_on (cc_vote_data_hash C) (vote_datas sys)" by (simp_all add: safe_run_def)
  from sent_vote [OF r assms(5,6)] obtain q where "vote_on C q v" by (auto simp: justified_def)
  then have "cc_vote_data_hash C (vote_vote_data v) = cc_vote_data_hash C \<lparr>vd_proposed = b, vd_parent = p\<rparr>"
    using assms(4) by (auto simp: vote_on_def)
  moreover have "vote_vote_data v \<in> vote_datas sys" using assms(6) by (force simp: vote_datas_def)
  ultimately have "vote_vote_data v = \<lparr>vd_proposed = b, vd_parent = p\<rparr>" using inj assms(3) by (auto dest: inj_onD)
  with assms show ?thesis unfolding votes_of_def by force
qed

lemma presented_certified:
  assumes "safe_run C ev honest sys e" "(q, e, r) \<in> presented sys" "quorum_cert_verify C q (ev e) = Inr ()" "bi_round (certified_block q) \<noteq> 0"
  shows "certified_link C ev honest sys e (parent_block q) (certified_block q)"
proof -
  have "sys_inv C ev honest sys" using assms(1) reachable_inv by (auto simp: safe_run_def)
  then have q: "unforged C ev honest (sent sys) (qc_signed_ledger_info q) e" "bi_epoch (certified_block q) = e"
    using assms(2) by (auto simp: sys_inv_def qcs_ok_def)
  have d: "\<lparr>vd_proposed = certified_block q, vd_parent = parent_block q\<rparr> = qc_vote_data q" by simp
  have "qc_vote_data q \<in> vote_datas sys" using assms(2) by (force simp: vote_datas_def)
  moreover have "lis_verify_signatures (cc_ledger_info C) (qc_signed_ledger_info q) (ev e) = Inr ()"
    "consensus_data_hash (qc_ledger_info q) = cc_vote_data_hash C (qc_vote_data q)"
    using assms(3,4) by (auto simp: quorum_cert_verify_def result_simps split: if_splits)
  ultimately show ?thesis unfolding certified_link_def d using assms(1) q qc_rounds(2) [OF assms(3,4)] by blast
qed

interpretation run: chain_votes "certified_link C ev honest sys e" round_of "votes_of C ev honest sys e" for C ev honest sys e
proof
  fix p b p' b' assume c: "certified_link C ev honest sys e p b" and c': "certified_link C ev honest sys e p' b'"
  from c have s: "safe_run C ev honest sys e" by (simp add: certified_link_def)
  from c obtain lis where l: "bi_epoch b = e" "lis_verify_signatures (cc_ledger_info C) lis (ev e) = Inr ()" "unforged C ev honest (sent sys) lis e"
    "\<lparr>vd_proposed = b, vd_parent = p\<rparr> \<in> vote_datas sys"
    "consensus_data_hash (lis_ledger_info lis) = cc_vote_data_hash C \<lparr>vd_proposed = b, vd_parent = p\<rparr>" by (auto simp: certified_link_def)
  from c' obtain lis' where l': "bi_epoch b' = e" "lis_verify_signatures (cc_ledger_info C) lis' (ev e) = Inr ()" "unforged C ev honest (sent sys) lis' e"
    "\<lparr>vd_proposed = b', vd_parent = p'\<rparr> \<in> vote_datas sys"
    "consensus_data_hash (lis_ledger_info lis') = cc_vote_data_hash C \<lparr>vd_proposed = b', vd_parent = p'\<rparr>" by (auto simp: certified_link_def)
  have f: "3 * sum (power_of (ev e)) ((- honest) \<inter> members (ev e)) \<le> sum (power_of (ev e)) (members (ev e))"
    using s by (simp add: safe_run_def total_power_def)
  obtain a where a: "a \<in> set (bkeys (lis_signatures lis))" "a \<in> set (bkeys (lis_signatures lis'))" "a \<in> honest"
    using vq.correct_member [OF signed_by_honest(1) [OF s l(2,3)] signed_by_honest(1) [OF s l'(2,3)] f] by blast
  obtain v v' where v: "(a, v) \<in> sent sys" "vote_ledger_info v = lis_ledger_info lis" "(a, v') \<in> sent sys" "vote_ledger_info v' = lis_ledger_info lis'"
    using signed_by_honest(2) [OF s l(2,3) a(1,3)] signed_by_honest(2) [OF s l'(2,3) a(2,3)] by blast
  have "(p, b) \<in> votes_of C ev honest sys e a" using certified_vote [OF s l(1,4) _ a(3) v(1)] v(2) l(5) by simp
  moreover have "(p', b') \<in> votes_of C ev honest sys e a" using certified_vote [OF s l'(1,4) _ a(3) v(3)] v(4) l'(5) by simp
  ultimately show "\<exists>a. (p, b) \<in> votes_of C ev honest sys e a \<and> (p', b') \<in> votes_of C ev honest sys e a" by blast
next
  fix p b a p' b'
  assume "(p, b) \<in> votes_of C ev honest sys e a" "(p', b') \<in> votes_of C ev honest sys e a" and r: "round_of b = round_of b'"
  then obtain v v' where v: "(a, v) \<in> sent sys" "vote_epoch v = e" "p = vd_parent (vote_vote_data v)" "b = vd_proposed (vote_vote_data v)"
    "(a, v') \<in> sent sys" "vote_epoch v' = e" "p' = vd_parent (vote_vote_data v')" "b' = vd_proposed (vote_vote_data v')"
    and a: "a \<in> honest" and s: "safe_run C ev honest sys e" by (auto simp: votes_of_def)
  have "v = v'" using sent_votes [OF _ a v(1), of C ev] v s r by (metis safe_run_def word_unat_eq_iff)
  with v show "p = p' \<and> b = b'" by simp
next
  fix p b a assume "(p, b) \<in> votes_of C ev honest sys e a" and p: "0 < round_of p"
  then obtain v where v: "(a, v) \<in> sent sys" "vote_epoch v = e" "p = vd_parent (vote_vote_data v)" "b = vd_proposed (vote_vote_data v)"
    and a: "a \<in> honest" and s: "safe_run C ev honest sys e" by (auto simp: votes_of_def)
  then have "reachable C ev honest sys" by (simp add: safe_run_def)
  from sent_votes [OF this a v(1)] obtain q where j: "justified C ev (presented sys) (v, q)"
    and l: "\<And>v'. (a, v') \<in> sent sys \<Longrightarrow> vote_epoch v = vote_epoch v' \<Longrightarrow> vote_round v < vote_round v' \<Longrightarrow>
       bi_round (parent_block q) \<le> bi_round (vd_parent (vote_vote_data v'))" by metis
  have pq: "p = certified_block q" using j v(3) by (simp add: justified_def vote_on_def)
  have "certified_link C ev honest sys e (parent_block q) p"
    using presented_certified [OF s, of q "vote_round v"] j v(2) p by (auto simp: justified_def pq unat_gt_0)
  moreover have "round_of (parent_block q) \<le> round_of p'" if "(p', b') \<in> votes_of C ev honest sys e a" "round_of b < round_of b'" for p' b'
    using that l v by (auto simp: votes_of_def word_le_nat_alt word_less_nat_alt)
  ultimately show "\<exists>g. certified_link C ev honest sys e g p \<and> (\<forall>p' b'. (p', b') \<in> votes_of C ev honest sys e a \<longrightarrow> round_of b < round_of b' \<longrightarrow> round_of g \<le> round_of p')" by blast
next
  show "round_of p < round_of b" if "certified_link C ev honest sys e p b" for p b
    using that by (simp add: certified_link_def word_less_nat_alt)
qed

section \<open>Committed blocks\<close>

lemma unat_successor: "(a :: u64) + 1 = b \<Longrightarrow> a < b \<Longrightarrow> unat b = Suc (unat a)"
  using unat_plus_one_u64 [of a] by (cases "a = - 1") auto

lemma committed_three_chain:
  assumes s: "safe_run C ev honest sys e" and v: "epoch_state_verify (cc_ledger_info C) \<lparr>es_epoch = e, es_verifier = ev e\<rparr> lis = Inr ()"
    and u: "unforged C ev honest (sent sys) lis e" and pos: "0 < bi_round (commit_info (lis_ledger_info lis))"
  shows "three_chain (certified_link C ev honest sys e) round_of (commit_info (lis_ledger_info lis))"
proof -
  let ?b0 = "commit_info (lis_ledger_info lis)"
  have v': "bi_epoch ?b0 = e" "lis_verify_signatures (cc_ledger_info C) lis (ev e) = Inr ()"
    using v by (auto simp: epoch_state_verify_def result_simps)
  have f: "3 * sum (power_of (ev e)) ((- honest) \<inter> members (ev e)) \<le> sum (power_of (ev e)) (members (ev e))"
    using s by (simp add: safe_run_def total_power_def)
  obtain a where a: "a \<in> set (bkeys (lis_signatures lis))" "a \<in> honest"
    using vq.correct_in_quorum [OF signed_by_honest(1) [OF s v'(2) u] f] by blast
  then obtain v where snt: "(a, v) \<in> sent sys" and li: "vote_ledger_info v = lis_ledger_info lis"
    using signed_by_honest(2) [OF s v'(2) u] by blast
  have r: "reachable C ev honest sys" using s by (simp add: safe_run_def)
  from sent_votes [OF r a(2) snt] obtain q where j: "justified C ev (presented sys) (v, q)" by metis
  then have "?b0 = three_chain_commit q (vote_round v)" "vd_parent (vote_vote_data v) = certified_block q"
    and h: "consensus_data_hash (lis_ledger_info lis) = cc_vote_data_hash C (vote_vote_data v)"
    by (auto simp: justified_def vote_on_def simp flip: li)
  with pos have c: "?b0 = parent_block q" "bi_round (parent_block q) + 1 = bi_round (certified_block q)" "bi_round (certified_block q) + 1 = vote_round v"
    and par: "vd_parent (vote_vote_data v) = certified_block q"
    by (auto simp: three_chain_commit_def block_info_empty_def split: if_splits)
  have qv: "quorum_cert_verify C q (ev (vote_epoch v)) = Inr ()" and qp: "(q, vote_epoch v, vote_round v) \<in> presented sys"
    using j by (simp_all add: justified_def)
  have nz: "bi_round (certified_block q) \<noteq> 0" using qv pos c(1) by (auto simp: quorum_cert_verify_def result_simps)
  have w: "bi_epoch (certified_block q) = vote_epoch v" "bi_round (certified_block q) < vote_round v"
    using reachable_inv [OF r] qp by (auto simp: sys_inv_def qcs_ok_def)
  have ep: "vote_epoch v = e"
    using qv nz w(1) v'(1) c(1) by (auto simp: quorum_cert_verify_def vote_data_verify_def result_simps)
  have c1: "certified_link C ev honest sys e ?b0 (certified_block q)"
    using presented_certified [OF s _ _ nz] qp qv ep c(1) by simp
  have d: "\<lparr>vd_proposed = vd_proposed (vote_vote_data v), vd_parent = certified_block q\<rparr> = vote_vote_data v" by (simp flip: par)
  have "vote_vote_data v \<in> vote_datas sys" using snt by (force simp: vote_datas_def)
  then have c2: "certified_link C ev honest sys e (certified_block q) (vd_proposed (vote_vote_data v))"
    unfolding certified_link_def d using s ep w(2) v'(2) u h by blast
  have "round_of (certified_block q) = Suc (round_of ?b0)"
    using unat_successor [OF c(2) qc_rounds(2) [OF qv nz]] c(1) by simp
  moreover have "round_of (vd_proposed (vote_vote_data v)) = Suc (round_of (certified_block q))"
    using unat_successor [OF c(3) w(2)] by simp
  moreover have "0 < round_of ?b0" using pos by (simp add: word_less_nat_alt)
  ultimately show ?thesis using c1 c2 unfolding three_chain_def by blast
qed

section \<open>Properties\<close>

lemma agreement_lemma:
  assumes "safe_run C ev honest sys e"
    and "epoch_state_verify (cc_ledger_info C) \<lparr>es_epoch = e, es_verifier = ev e\<rparr> lis = Inr ()" "unforged C ev honest (sent sys) lis e"
    and "epoch_state_verify (cc_ledger_info C) \<lparr>es_epoch = e, es_verifier = ev e\<rparr> lis' = Inr ()" "unforged C ev honest (sent sys) lis' e"
    and "0 < bi_round (commit_info (lis_ledger_info lis))" "0 < bi_round (commit_info (lis_ledger_info lis'))"
  shows "(certified_link C ev honest sys e)\<^sup>*\<^sup>* (commit_info (lis_ledger_info lis)) (commit_info (lis_ledger_info lis')) \<or>
     (certified_link C ev honest sys e)\<^sup>*\<^sup>* (commit_info (lis_ledger_info lis')) (commit_info (lis_ledger_info lis))"
  using run.three_chain_agreement [OF committed_three_chain [OF assms(1,2,3,6)] committed_three_chain [OF assms(1,4,5,7)]] .

end
