(* ===== verification/Bft_Properties.thy ===== *)
theory Bft_Properties
  imports Bft_Safety
begin

text \<open>
  The properties of the safety rules: agreement, one vote per round, votes that are granted, and
  what the rules leave to their callers. The witnesses run one validator through three rounds.
\<close>

section \<open>When a vote is granted\<close>

abbreviation stor :: "safety_rules \<Rightarrow> persistent_safety_storage" where
  "stor \<equiv> sr_persistent_storage"

definition tick :: "safety_rules \<Rightarrow> safety_rules" where
  "tick s = s\<lparr>sr_persistent_storage := (stor s)\<lparr>ps_calls := Suc (ps_calls (stor s))\<rparr>\<rparr>"

definition available :: "safety_rules \<Rightarrow> bool" where
  "available s \<longleftrightarrow> (\<forall>n \<ge> ps_calls (stor s). \<not> ps_unavailable (stor s) n)"

lemma tick_simps [simp]:
  "sr_validator_signer (tick s) = sr_validator_signer s" "sr_epoch_state (tick s) = sr_epoch_state s"
  "sr_execution_public_key (tick s) = sr_execution_public_key s" "available s \<Longrightarrow> available (tick s)"
  "ps_epoch (stor (tick s)) = ps_epoch (stor s)" "ps_last_voted_round (stor (tick s)) = ps_last_voted_round (stor s)"
  "ps_preferred_round (stor (tick s)) = ps_preferred_round (stor s)" "ps_last_vote (stor (tick s)) = ps_last_vote (stor s)"
  "ps_waypoint (stor (tick s)) = ps_waypoint (stor s)" "ps_author (stor (tick s)) = ps_author (stor s)"
  "ps_consensus_keys (stor (tick s)) = ps_consensus_keys (stor s)"
  by (simp_all add: tick_def available_def)

lemma available_get: "available s \<Longrightarrow> f (stor s) = Some x \<Longrightarrow> on_storage (store_get f) s = (Inr x, tick s)"
  by (simp add: available_def on_storage_def store_get_def tick_def)

lemma available_set: "available s \<Longrightarrow> on_storage (store_set upd) s = (Inr (), (tick s)\<lparr>sr_persistent_storage := upd (stor (tick s))\<rparr>)"
  by (simp add: available_def on_storage_def store_set_def tick_def Let_def)

definition vote_for :: "'p consensus_crypto \<Rightarrow> validator_signer \<Rightarrow> vote_data \<Rightarrow> block_info \<Rightarrow> u8 list \<Rightarrow> vote" where
  "vote_for C vs d commit bytes =
     \<lparr>vote_vote_data = d, vote_author = vs_author vs,
      vote_ledger_info = \<lparr>commit_info = commit, consensus_data_hash = cc_vote_data_hash C d\<rparr>,
      vote_signature = cc_dalek_sign C (vs_private_key vs) bytes, vote_timeout_signature = None\<rparr>"

lemma validated_qc: "block_validate_signature C b vv = Inr () \<Longrightarrow> quorum_cert_verify C (block_quorum_cert b) vv = Inr ()"
  by (auto simp: block_validate_signature_def result_simps split: block_type.splits)

lemma construct_ledger_info_eq:
  "construct_ledger_info b = \<lparr>commit_info = three_chain_commit (block_quorum_cert b) (block_round b), consensus_data_hash = 0\<rparr>"
  by (simp add: construct_ledger_info_def three_chain_commit_def Let_def)

lemma new_vote_granted:
  fixes vp :: "'p vote_proposal"
  defines "b \<equiv> vp_block vp"
  assumes s: "available s" "sr_validator_signer s = Some vs" "ps_last_voted_round (stor s) = Some x" "x < block_round b"
    and ext: "extension_check C vp = Inr d"
    and enc: "encode_msg (cc_ledger_info C) \<lparr>commit_info = three_chain_commit (block_quorum_cert b) (block_round b),
      consensus_data_hash = cc_vote_data_hash C d\<rparr> = Some bytes"
  shows "\<exists>n. construct_new_vote C vp s =
    (Inr (vote_for C vs d (three_chain_commit (block_quorum_cert b) (block_round b)) bytes),
     s\<lparr>sr_persistent_storage := (stor s)\<lparr>ps_last_vote := Some (Some (vote_for C vs d (three_chain_commit (block_quorum_cert b) (block_round b)) bytes)),
        ps_calls := n, ps_last_voted_round := Some (block_round b)\<rparr>\<rparr>)"
  using assms
  by (auto simp: construct_new_vote_def Let_def st_bind_def verify_last_vote_round_def available_get st_ok_def st_read_def signer_def
      set_last_voted_round_def set_last_vote_def available_set vote_new_def signer_sign_def private_key_sign_def
      construct_ledger_info_eq vote_for_def tick_def available_def)


lemma vote_granted_lemma:
  fixes mp :: "'p maybe_signed_vote_proposal"
  defines "b \<equiv> vp_block (ms_vote_proposal mp)"
  defines "q \<equiv> block_quorum_cert b"
  assumes s: "available s" "sr_validator_signer s = Some vs" "sr_execution_public_key s = None" "sr_epoch_state s = Some es"
    "ps_epoch (stor s) = Some (block_epoch b)" "ps_preferred_round (stor s) = Some y" "ps_last_voted_round (stor s) = Some x"
    "ps_last_vote (stor s) = Some lv"
    and b: "block_validate_signature C b (es_verifier es) = Inr ()" "y \<le> bi_round (certified_block q)" "x < block_round b"
      "\<And>v. lv = Some v \<Longrightarrow> vote_round v \<noteq> block_round b"
    and ext: "extension_check C (ms_vote_proposal mp) = Inr d"
    and enc: "encode_msg (cc_ledger_info C) \<lparr>commit_info = three_chain_commit q (block_round b),
      consensus_data_hash = cc_vote_data_hash C d\<rparr> = Some bytes"
  shows "\<exists>n. construct_and_sign_vote C mp s =
    (Inr (vote_for C vs d (three_chain_commit q (block_round b)) bytes),
     s\<lparr>sr_persistent_storage := (stor s)\<lparr>ps_last_vote := Some (Some (vote_for C vs d (three_chain_commit q (block_round b)) bytes)),
        ps_calls := n, ps_last_voted_round := Some (block_round b),
        ps_preferred_round := Some (max y (bi_round (parent_block q)))\<rparr>\<rparr>)"
proof -
  note qv = validated_qc [OF b(1)]
  have e: "verify_epoch (block_epoch b) t = (Inr (), tick t)" if "available t" "ps_epoch (stor t) = Some (block_epoch b)" for t
    using that by (simp add: verify_epoch_def st_bind_def available_get st_ok_def)
  have p: "\<exists>n \<ge> ps_calls (stor t). verify_and_update_preferred_round q t =
      (Inr (), t\<lparr>sr_persistent_storage := (stor t)\<lparr>ps_calls := n, ps_preferred_round := Some (max y (bi_round (parent_block q)))\<rparr>\<rparr>)"
    if "available t" "ps_preferred_round (stor t) = Some y" for t
  proof (cases "y < bi_round (parent_block q)")
    case True
    with that b(2) show ?thesis
      by (intro exI [of _ "Suc (Suc (ps_calls (stor t)))"]) (auto simp: verify_and_update_preferred_round_def st_bind_def available_get set_preferred_round_def available_set tick_def
          max_def not_less Let_def available_def)
  next
    case False
    have "tick t = t\<lparr>sr_persistent_storage := (stor t)\<lparr>ps_calls := Suc (ps_calls (stor t)), ps_preferred_round := Some y\<rparr>\<rparr>"
      using that(2) by (cases t; cases "stor t") (simp add: tick_def)
    moreover have "verify_and_update_preferred_round q t = (Inr (), tick t)"
      using False that leD [OF b(2)] by (simp add: verify_and_update_preferred_round_def st_bind_def available_get st_ok_def Let_def)
    ultimately show ?thesis using False by (intro exI [of _ "Suc (ps_calls (stor t))"]) (auto simp: max_def not_less)
  qed
  define t where "t = tick s"
  have t: "available t" "ps_preferred_round (stor t) = Some y" using s by (simp_all add: t_def)
  from p [OF t] obtain n where n': "ps_calls (stor t) \<le> n" and n: "verify_and_update_preferred_round q t =
      (Inr (), t\<lparr>sr_persistent_storage := (stor t)\<lparr>ps_calls := n, ps_preferred_round := Some (max y (bi_round (parent_block q)))\<rparr>\<rparr>)" by blast
  define u where "u = tick (t\<lparr>sr_persistent_storage := (stor t)\<lparr>ps_calls := n, ps_preferred_round := Some (max y (bi_round (parent_block q)))\<rparr>\<rparr>)"
  have u: "available u" "sr_validator_signer u = Some vs" "ps_last_voted_round (stor u) = Some x"
    using s n' by (simp_all add: u_def t_def tick_def available_def)
  have g: "on_storage (store_get ps_last_vote) (t\<lparr>sr_persistent_storage := (stor t)\<lparr>ps_calls := n, ps_preferred_round := Some (max y (bi_round (parent_block q)))\<rparr>\<rparr>) = (Inr lv, u)"
    unfolding u_def by (rule available_get) (use s n' in \<open>simp_all add: t_def tick_def available_def\<close>)
  have nv: "construct_and_sign_vote C mp s = construct_new_vote C (ms_vote_proposal mp) u"
    using s b n g qv e [of s]
    by (cases lv) (simp_all add: construct_and_sign_vote_def st_bind_def signer_def st_read_def verify_execution_signature_def verify_qc_def
        safety_rules_epoch_state_def Let_def q_def t_def flip: b_def)
  from new_vote_granted [OF u, of "ms_vote_proposal mp" C d bytes] b(3) ext enc obtain m where
    "construct_new_vote C (ms_vote_proposal mp) u = (Inr (vote_for C vs d (three_chain_commit q (block_round b)) bytes),
     u\<lparr>sr_persistent_storage := (stor u)\<lparr>ps_last_vote := Some (Some (vote_for C vs d (three_chain_commit q (block_round b)) bytes)),
        ps_calls := m, ps_last_voted_round := Some (block_round b)\<rparr>\<rparr>)" unfolding b_def q_def by blast
  moreover have "u\<lparr>sr_persistent_storage := (stor u)\<lparr>ps_last_vote := v, ps_calls := m, ps_last_voted_round := r\<rparr>\<rparr> =
    s\<lparr>sr_persistent_storage := (stor s)\<lparr>ps_last_vote := v, ps_calls := m, ps_last_voted_round := r,
        ps_preferred_round := Some (max y (bi_round (parent_block q)))\<rparr>\<rparr>" for v r
    by (cases s; cases "stor s") (simp add: u_def t_def tick_def)
  ultimately show ?thesis using nv by auto
qed


section \<open>An example: one validator, one vote per round\<close>

definition ex_scheme :: "'m sig_scheme" where
  "ex_scheme = \<lparr>encode_msg = (\<lambda>_. Some []), dalek_verify = (\<lambda>_ _ _. True), dalek_verify_batch = (\<lambda>_ _ _. False), batch_feature = False\<rparr>"

definition ex_signature :: ed25519_signature where
  "ex_signature = replicate 64 0"

definition ex_crypto :: "unit consensus_crypto" where
  "ex_crypto = \<lparr>cc_ledger_info = ex_scheme, cc_timeout = ex_scheme, cc_block_data = ex_scheme, cc_vote_proposal = ex_scheme,
     cc_dalek_sign = (\<lambda>_ _. ex_signature), cc_dalek_public_key = (\<lambda>k. k), cc_vote_data_hash = (\<lambda>d. ucast (bi_round (vd_proposed d))),
     cc_block_data_hash = (\<lambda>d. ucast (bd_round d)), cc_txn_accumulator = (\<lambda>_ _. 0), cc_waypoint = (\<lambda>_. 0)\<rparr>"

definition ex_verifier :: validator_verifier where
  "ex_verifier = new_single 7 [1]"

definition ex_genesis :: "hash_value \<Rightarrow> version \<Rightarrow> u64 \<Rightarrow> block_info" where
  "ex_genesis gid ver ts =
     \<lparr>bi_epoch = 1, bi_round = 0, bi_id = gid, bi_executed_state_id = ACCUMULATOR_PLACEHOLDER_HASH, bi_version = ver,
      bi_timestamp_usecs = ts, bi_next_epoch_state = None\<rparr>"

definition ex_info :: "block_info \<Rightarrow> nat \<Rightarrow> block_info" where
  "ex_info g n = (if n = 0 then g
     else \<lparr>bi_epoch = 1, bi_round = of_nat n, bi_id = ucast (of_nat n :: u64), bi_executed_state_id = ACCUMULATOR_PLACEHOLDER_HASH,
       bi_version = 0, bi_timestamp_usecs = bi_timestamp_usecs g, bi_next_epoch_state = None\<rparr>)"

definition ex_data :: "block_info \<Rightarrow> nat \<Rightarrow> vote_data" where
  "ex_data g n = \<lparr>vd_proposed = ex_info g n, vd_parent = ex_info g (n - 1)\<rparr>"

definition ex_li :: "block_info \<Rightarrow> nat \<Rightarrow> ledger_info" where
  "ex_li g n = \<lparr>commit_info = (if n = 0 then g else if n = 1 then block_info_empty else ex_info g (n - 2)),
     consensus_data_hash = ucast (of_nat n :: u64)\<rparr>"

definition ex_lis :: "block_info \<Rightarrow> nat \<Rightarrow> ledger_info_with_signatures" where
  "ex_lis g n = \<lparr>lis_ledger_info = ex_li g n, lis_signatures = (if n = 0 then bempty else binsert 7 ex_signature bempty)\<rparr>"

definition ex_qc :: "block_info \<Rightarrow> nat \<Rightarrow> quorum_cert" where
  "ex_qc g n = \<lparr>qc_vote_data = ex_data g n, qc_signed_ledger_info = ex_lis g n\<rparr>"

definition ex_proposal :: "block_info \<Rightarrow> nat \<Rightarrow> unit maybe_signed_vote_proposal" where
  "ex_proposal g n =
     \<lparr>ms_vote_proposal =
        \<lparr>vp_accumulator_extension_proof = \<lparr>aep_frozen_subtree_roots = [], aep_num_leaves = 0, aep_leaves = []\<rparr>,
         vp_block = block_new_nil ex_crypto (of_nat (Suc n)) (ex_qc g n), vp_next_epoch_state = None\<rparr>,
      ms_signature = None\<rparr>"

definition ex_vote :: "block_info \<Rightarrow> nat \<Rightarrow> vote" where
  "ex_vote g n = \<lparr>vote_vote_data = ex_data g n, vote_author = 7, vote_ledger_info = ex_li g n, vote_signature = ex_signature,
     vote_timeout_signature = None\<rparr>"

lemma ex_round: "bi_round g = 0 \<Longrightarrow> bi_round (ex_info g n) = of_nat n"
  by (simp add: ex_info_def)

lemma ex_verify: "verifier_verify ex_scheme ex_verifier 7 m ex_signature = Inr ()"
proof -
  have "le_nat (drop 32 (replicate 64 0)) = 0" by (simp add: numeral_eq_Suc)
  then have "check_malleability ex_signature = Inr ()" by (simp add: check_malleability_iff ex_signature_def)
  then show ?thesis
    by (simp add: verifier_verify_def ex_verifier_def new_single_def verifier_new_def Let_def get_public_key_def is_ok_def
        verify_struct_signature_def signature_verify_def verify_arbitrary_msg_def ex_scheme_def)
qed

lemma ex_batch_sound: "batch_sound ex_scheme"
  by (simp add: batch_sound_def ex_scheme_def)

lemma ex_lis_verified: "n \<noteq> 0 \<Longrightarrow> lis_verify_signatures ex_scheme (ex_lis g n) ex_verifier = Inr ()"
  unfolding lis_verify_signatures_def batch_verify_aggregated_eq [OF ex_batch_sound] verify_aggregated_iff
  by (simp add: ex_lis_def valid_signatures_def ex_verify)
    (simp add: check_num_of_signatures_def check_voting_power_def verifier_len_def blen_def bkeys_def ex_verifier_def new_single_def
      verifier_new_def get_voting_power_def sum_voting_power_def bvalues_def Let_def)

lemma of_nat_u64_less: "n < m \<Longrightarrow> m < 2 ^ 64 \<Longrightarrow> (of_nat n :: u64) < of_nat m"
  by (simp add: word_less_nat_alt unat_of_nat_u64)

lemma of_nat_u64_0: "n < 2 ^ 64 \<Longrightarrow> (of_nat n :: u64) = 0 \<longleftrightarrow> n = 0"
  using unat_of_nat_u64 [of n] by (cases n) auto

lemma ex_qc_verified:
  assumes "bi_round g = 0" "bi_epoch g = 1" "bi_version g = 0" "n < 2 ^ 64"
  shows "quorum_cert_verify ex_crypto (ex_qc g n) ex_verifier = Inr ()"
proof (cases "n = 0")
  case True
  then show ?thesis using assms
    by (simp add: quorum_cert_verify_def ex_qc_def ex_data_def ex_lis_def ex_li_def ex_crypto_def ex_info_def blen_def)
next
  case False
  have "bi_timestamp_usecs (ex_info g (n - 1)) = bi_timestamp_usecs g" "bi_version (ex_info g (n - 1)) = 0" "bi_epoch (ex_info g (n - 1)) = 1"
    using assms by (simp_all add: ex_info_def)
  moreover have "bi_round (ex_info g (n - 1)) < bi_round (ex_info g n)"
    using of_nat_u64_less [of "n - 1" n] False assms by (simp add: ex_round)
  moreover have "bi_timestamp_usecs (ex_info g n) = bi_timestamp_usecs g" "bi_version (ex_info g n) = 0" "bi_epoch (ex_info g n) = 1"
    using assms by (simp_all add: ex_info_def)
  ultimately have "vote_data_verify (ex_data g n) = Inr ()" by (simp add: vote_data_verify_def ex_data_def)
  moreover have "bi_round (ex_info g n) \<noteq> 0" using False assms by (simp add: ex_round of_nat_u64_0)
  ultimately show ?thesis
    using ex_lis_verified [OF False, of g] False
    by (simp add: quorum_cert_verify_def ex_qc_def ex_crypto_def) (simp add: ex_data_def ex_lis_def ex_li_def ex_info_def)
qed

definition ex_storage :: "block_info \<Rightarrow> nat \<Rightarrow> nat \<Rightarrow> persistent_safety_storage" where
  "ex_storage g n c =
     \<lparr>ps_author = Some 7, ps_consensus_keys = [([1], [1])], ps_execution_key = Some [], ps_epoch = Some 1,
      ps_last_voted_round = Some (of_nat n), ps_preferred_round = Some (of_nat (n - 2)), ps_waypoint = Some \<lparr>wp_version = 0, wp_value = 0\<rparr>,
      ps_last_vote = Some (if n = 0 then None else Some (ex_vote g n)), ps_calls = c, ps_unavailable = (\<lambda>_. False)\<rparr>"

definition ex_node :: "block_info \<Rightarrow> nat \<Rightarrow> nat \<Rightarrow> safety_rules" where
  "ex_node g n c =
     \<lparr>sr_persistent_storage = ex_storage g n c, sr_execution_public_key = None,
      sr_validator_signer = Some \<lparr>vs_author = 7, vs_private_key = [1]\<rparr>, sr_epoch_state = Some \<lparr>es_epoch = 1, es_verifier = ex_verifier\<rparr>\<rparr>"

abbreviation ex_ok :: "block_info \<Rightarrow> bool" where
  "ex_ok g \<equiv> bi_round g = 0 \<and> bi_epoch g = 1 \<and> bi_version g = 0 \<and> bi_executed_state_id g = ACCUMULATOR_PLACEHOLDER_HASH \<and>
     bi_next_epoch_state g = None"

lemma ex_extension:
  "accumulator_extension_proof_verify H \<lparr>aep_frozen_subtree_roots = [], aep_num_leaves = 0, aep_leaves = []\<rparr> ACCUMULATOR_PLACEHOLDER_HASH =
     Inr \<lparr>frozen_subtree_roots = [], num_leaves = 0, root_hash = ACCUMULATOR_PLACEHOLDER_HASH\<rparr>"
proof -
  have "count_ones (0 :: u64) = 0" by (simp add: count_ones_def)
  then show ?thesis by (simp add: accumulator_extension_proof_verify_def accumulator_new_def compute_root_hash_def append_leaves_def)
qed

lemma ex_extension_check:
  assumes "ex_ok g"
  shows "extension_check ex_crypto (ms_vote_proposal (ex_proposal g n)) = Inr (ex_data g (Suc n))"
proof -
  have "bi_executed_state_id (ex_info g n) = ACCUMULATOR_PLACEHOLDER_HASH" "bi_timestamp_usecs (ex_info g n) = bi_timestamp_usecs g"
    "bi_epoch (ex_info g n) = 1"
    using assms by (simp_all add: ex_info_def)
  then show ?thesis
    by (simp add: extension_check_def ex_proposal_def block_new_nil_def block_of_data_def block_data_new_nil_def ex_qc_def ex_data_def
        ex_extension gen_block_info_def accumulator_version_def) (simp add: ex_crypto_def ex_info_def)
qed

lemma ex_commit:
  assumes "ex_ok g" "Suc n < 2 ^ 64"
  shows "\<lparr>commit_info = three_chain_commit (ex_qc g n) (of_nat (Suc n)), consensus_data_hash = ucast (of_nat (Suc n) :: u64)\<rparr> = ex_li g (Suc n)"
proof (cases n)
  case 0
  then show ?thesis using assms by (simp add: three_chain_commit_def ex_qc_def ex_data_def ex_li_def ex_info_def)
next
  case (Suc k)
  have "bi_round (ex_info g k) + 1 = bi_round (ex_info g (Suc k))" "bi_round (ex_info g (Suc k)) + 1 = of_nat (Suc (Suc k))"
    using assms by (simp_all add: ex_round add.commute)
  with Suc show ?thesis by (simp add: three_chain_commit_def ex_qc_def ex_data_def ex_li_def)
qed

lemma ex_proposal_simps:
  "block_quorum_cert (vp_block (ms_vote_proposal (ex_proposal g n))) = ex_qc g n"
  "block_round (vp_block (ms_vote_proposal (ex_proposal g n))) = of_nat (Suc n)"
  "block_epoch (vp_block (ms_vote_proposal (ex_proposal g n))) = bi_epoch (ex_info g n)"
  by (simp_all add: ex_proposal_def block_new_nil_def block_of_data_def block_data_new_nil_def ex_qc_def ex_data_def)

lemma ex_well_formed:
  assumes "ex_ok g" "Suc n < 2 ^ 64"
  shows "block_verify_well_formed (vp_block (ms_vote_proposal (ex_proposal g n))) = Inr ()"
proof -
  have "bi_round (ex_info g n) < of_nat (Suc n)" using assms of_nat_u64_less [of n "Suc n"] by (simp add: ex_round)
  moreover have "bi_next_epoch_state (ex_info g n) = None" "bi_next_epoch_state (commit_info (ex_li g n)) = None"
    using assms by (simp_all add: ex_info_def ex_li_def block_info_empty_def)
  ultimately show ?thesis
    by (simp add: block_verify_well_formed_def ex_proposal_def block_new_nil_def block_of_data_def block_data_new_nil_def bd_is_genesis_block_def
        bd_is_nil_block_def ex_qc_def ex_data_def has_reconfiguration_def qc_ends_epoch_def ends_epoch_def ex_lis_def Let_def)
qed

lemma ex_vote_step:
  assumes g: "ex_ok g" and n: "Suc n < 2 ^ 64"
  shows "\<exists>c'. construct_and_sign_vote ex_crypto (ex_proposal g n) (ex_node g n c) = (Inr (ex_vote g (Suc n)), ex_node g (Suc n) c')"
proof -
  let ?b = "vp_block (ms_vote_proposal (ex_proposal g n))"
  have ep: "bi_epoch (ex_info g n) = 1" using g by (simp add: ex_info_def)
  have h: "cc_vote_data_hash ex_crypto (ex_data g (Suc n)) = ucast (of_nat (Suc n) :: u64)"
    using g by (simp add: ex_crypto_def ex_data_def ex_info_def)
  have v: "vote_for ex_crypto \<lparr>vs_author = 7, vs_private_key = [1]\<rparr> (ex_data g (Suc n)) (three_chain_commit (ex_qc g n) (of_nat (Suc n))) [] = ex_vote g (Suc n)"
    unfolding vote_for_def h ex_commit [OF assms] by (simp add: ex_vote_def ex_crypto_def)
  have val: "block_validate_signature ex_crypto ?b ex_verifier = Inr ()"
    using ex_qc_verified [of g n] g n
    by (simp add: block_validate_signature_def ex_proposal_def block_new_nil_def block_of_data_def block_data_new_nil_def)
  have le: "(of_nat (n - 2) :: u64) \<le> of_nat n" using n by (simp add: word_le_nat_alt unat_of_nat_u64)
  have lt: "(of_nat n :: u64) < of_nat (Suc n)" using of_nat_u64_less [of n "Suc n"] n by simp
  have mx: "max (of_nat (n - 2)) (of_nat (n - 1)) = (of_nat (n - 1) :: u64)" using n by (simp add: max_def word_le_nat_alt unat_of_nat_u64)
  have "\<exists>c'. construct_and_sign_vote ex_crypto (ex_proposal g n) (ex_node g n c) =
    (Inr (vote_for ex_crypto \<lparr>vs_author = 7, vs_private_key = [1]\<rparr> (ex_data g (Suc n)) (three_chain_commit (ex_qc g n) (of_nat (Suc n))) []),
     (ex_node g n c)\<lparr>sr_persistent_storage := (stor (ex_node g n c))\<lparr>ps_last_vote := Some (Some (vote_for ex_crypto
        \<lparr>vs_author = 7, vs_private_key = [1]\<rparr> (ex_data g (Suc n)) (three_chain_commit (ex_qc g n) (of_nat (Suc n))) [])),
        ps_calls := c', ps_last_voted_round := Some (of_nat (Suc n)),
        ps_preferred_round := Some (max (of_nat (n - 2)) (bi_round (parent_block (ex_qc g n))))\<rparr>\<rparr>)"
    unfolding ex_proposal_simps [of g n, symmetric]
  proof (rule vote_granted_lemma)
    show "extension_check ex_crypto (ms_vote_proposal (ex_proposal g n)) = Inr (ex_data g (Suc n))" using g by (rule ex_extension_check)
    show "block_validate_signature ex_crypto ?b (es_verifier \<lparr>es_epoch = 1, es_verifier = ex_verifier\<rparr>) = Inr ()" using val by simp
    show "ps_last_vote (stor (ex_node g n c)) = Some (if n = 0 then None else Some (ex_vote g n))" by (simp add: ex_node_def ex_storage_def)
    show "vote_round v \<noteq> block_round ?b" if "(if n = 0 then None else Some (ex_vote g n)) = Some v" for v
      using that lt g by (auto simp: ex_proposal_simps ex_vote_def ex_data_def ex_round simp del: of_nat_Suc split: if_splits)
    show "ps_last_voted_round (stor (ex_node g n c)) = Some (of_nat n)" by (simp add: ex_node_def ex_storage_def)
  qed (use lt le ep g in \<open>simp_all add: ex_node_def ex_storage_def available_def ex_proposal_simps ex_qc_def ex_data_def ex_round
        ex_crypto_def ex_scheme_def del: of_nat_Suc\<close>)
  then show ?thesis
    using g mx unfolding v by (auto simp: ex_node_def ex_storage_def ex_qc_def ex_data_def ex_round simp del: of_nat_Suc)
qed

definition ex_start :: system where
  "ex_start =
     \<lparr>nodes = (\<lambda>_. \<lparr>sr_persistent_storage = storage_initialize 7 ([1], [1]) [] \<lparr>wp_version = 0, wp_value = 0\<rparr> (\<lambda>_. False),
        sr_execution_public_key = None, sr_validator_signer = None, sr_epoch_state = None\<rparr>),
      sent = {}, presented = {}\<rparr>"

definition ex_epoch_change :: epoch_change_proof where
  "ex_epoch_change = \<lparr>ecp_ledger_infos = [\<lparr>lis_ledger_info = \<lparr>commit_info =
       \<lparr>bi_epoch = 0, bi_round = 0, bi_id = 0, bi_executed_state_id = ACCUMULATOR_PLACEHOLDER_HASH, bi_version = 0, bi_timestamp_usecs = 0,
        bi_next_epoch_state = Some \<lparr>es_epoch = 1, es_verifier = ex_verifier\<rparr>\<rparr>, consensus_data_hash = 0\<rparr>, lis_signatures = bempty\<rparr>], ecp_more = False\<rparr>"

abbreviation ex_epochs :: "u64 \<Rightarrow> validator_verifier" where
  "ex_epochs \<equiv> \<lambda>_. ex_verifier"

lemma ex_initialize: "\<exists>c. initialize ex_crypto ex_epoch_change (nodes ex_start 7) = (Inr (), ex_node g 0 c)"
proof -
  let ?lis = "hd (ecp_ledger_infos ex_epoch_change)"
  have "epoch_change_proof_verify ex_scheme (\<lambda>_. 0) ex_epoch_change (WaypointVerifier \<lparr>wp_version = 0, wp_value = 0\<rparr>) = Inr ?lis"
    "next_epoch_state (lis_ledger_info ?lis) = Some \<lparr>es_epoch = 1, es_verifier = ex_verifier\<rparr>"
    by (simp_all add: epoch_change_proof_verify_def ex_epoch_change_def waypoint_verify_def)
  moreover have "get_public_key ex_verifier 7 = Some [1]" by (simp add: get_public_key_def ex_verifier_def new_single_def verifier_new_def Let_def)
  moreover have "cc_ledger_info ex_crypto = ex_scheme" "cc_waypoint ex_crypto = (\<lambda>_. 0)" by (simp_all add: ex_crypto_def)
  ultimately show ?thesis
    by (simp add: initialize_def st_bind_def on_storage_def store_get_def ex_start_def storage_initialize_def st_read_def
        reconcile_signer_def consensus_key_for_version_def st_ok_def st_modify_def ex_node_def ex_storage_def Let_def)
qed

definition ex_system :: "block_info \<Rightarrow> nat \<Rightarrow> nat \<Rightarrow> system" where
  "ex_system g n c = \<lparr>nodes = (nodes ex_start)(7 := ex_node g n c), sent = (\<lambda>k. (7, ex_vote g (Suc k))) ` {..<n},
     presented = (\<lambda>k. (ex_qc g k, 1, of_nat (Suc k))) ` {..<n}\<rparr>"

lemma ex_unforged: "n \<le> m \<Longrightarrow> unforged ex_crypto ex_epochs {7} (sent (ex_system g m c)) (ex_lis g n) e"
proof (cases n)
  case (Suc k)
  assume "n \<le> m"
  with Suc have "(7, ex_vote g n) \<in> sent (ex_system g m c)" by (auto simp: ex_system_def image_iff)
  moreover have "vote_ledger_info (ex_vote g n) = lis_ledger_info (ex_lis g n)" by (simp add: ex_vote_def ex_lis_def)
  ultimately show ?thesis unfolding unforged_def by blast
qed (simp add: unforged_def ex_lis_def)

lemma ex_run:
  assumes g: "ex_ok g"
  shows "n < 2 ^ 64 \<Longrightarrow> \<exists>c. (sys_step ex_crypto ex_epochs {7})\<^sup>*\<^sup>* ex_start (ex_system g n c)"
proof (induction n)
  case 0
  obtain c where c: "initialize ex_crypto ex_epoch_change (nodes ex_start 7) = (Inr (), ex_node g 0 c)" using ex_initialize ..
  have "sys_step ex_crypto ex_epochs {7} ex_start (ex_start\<lparr>nodes := (nodes ex_start)(7 := ex_node g 0 c)\<rparr>)"
    by (rule sys_step.new_epoch [OF _ c]) (auto simp: ex_node_def ex_start_def storage_initialize_def)
  moreover have "ex_start\<lparr>nodes := (nodes ex_start)(7 := ex_node g 0 c)\<rparr> = ex_system g 0 c" by (simp add: ex_system_def ex_start_def)
  ultimately show ?case by auto
next
  case (Suc n)
  then obtain c where c: "(sys_step ex_crypto ex_epochs {7})\<^sup>*\<^sup>* ex_start (ex_system g n c)" by auto
  obtain c' where c': "construct_and_sign_vote ex_crypto (ex_proposal g n) (nodes (ex_system g n c) 7) = (Inr (ex_vote g (Suc n)), ex_node g (Suc n) c')"
    using ex_vote_step [OF g Suc.prems, of c] by (auto simp: ex_system_def)
  have ep: "bi_epoch (ex_info g n) = 1" using g by (simp add: ex_info_def)
  have "sys_step ex_crypto ex_epochs {7} (ex_system g n c) (ex_system g (Suc n) c')"
    using sys_step.vote [OF _ refl ex_well_formed [OF g Suc.prems] _ c', where honest = "{7}" and ev = ex_epochs] ex_unforged [of n n g c 1]
    by (simp add: ex_proposal_simps ep ex_qc_def ex_system_def returned_def lessThan_Suc del: of_nat_Suc)
  with c show ?case by (auto intro: rtranclp.rtrancl_into_rtrancl)
qed

lemma ex_reachable: "ex_ok g \<Longrightarrow> n < 2 ^ 64 \<Longrightarrow> \<exists>c. reachable ex_crypto ex_epochs {7} (ex_system g n c)"
proof -
  assume g: "ex_ok g" and n: "n < 2 ^ 64"
  have "sys_init {7} ex_start" unfolding sys_init_def ex_start_def by (simp, blast)
  with ex_run [OF g n] show ?thesis unfolding reachable_def by blast
qed

lemma ex_verifier_props: "verifier_ok ex_verifier" "members ex_verifier = {7}" "power_of ex_verifier 7 = 1" "\<not> verifier_is_empty ex_verifier"
proof -
  have mem: "members ex_verifier = {7}" "power_of ex_verifier 7 = 1"
    by (simp_all add: members_def bkeys_def ex_verifier_def new_single_def verifier_new_def power_of_def get_voting_power_def Let_def)
  then show "members ex_verifier = {7}" "power_of ex_verifier 7 = 1" by simp_all
  show "verifier_ok ex_verifier" using mem by (simp add: verifier_ok_def total_power_def) (simp add: ex_verifier_def new_single_def verifier_new_def Let_def)
  show "\<not> verifier_is_empty ex_verifier"
    by (simp add: verifier_is_empty_def verifier_len_def blen_def ex_verifier_def new_single_def verifier_new_def Let_def)
qed

lemma ex_committed:
  assumes "ex_ok g" "2 \<le> n"
  shows "epoch_state_verify ex_scheme \<lparr>es_epoch = 1, es_verifier = ex_verifier\<rparr> (ex_lis g n) = Inr ()"
    and "commit_info (lis_ledger_info (ex_lis g n)) = ex_info g (n - 2)"
  using assms ex_lis_verified [of n g] by (simp_all add: epoch_state_verify_def ex_lis_def ex_li_def ex_info_def)

lemma ex_no_collision:
  assumes g: "ex_ok g" and n: "n < 2 ^ 64"
  shows "inj_on (cc_vote_data_hash ex_crypto) (vote_datas (ex_system g n c))"
proof -
  have "vote_datas (ex_system g n c) \<subseteq> ex_data g ` {..n}" by (auto simp: vote_datas_def ex_system_def ex_vote_def ex_qc_def)
  moreover have "k = l" if "cc_vote_data_hash ex_crypto (ex_data g k) = cc_vote_data_hash ex_crypto (ex_data g l)" "k \<le> n" "l \<le> n" for k l
  proof -
    have "(ucast (of_nat k :: u64) :: hash_value) = ucast (of_nat l :: u64)" using that(1) g by (simp add: ex_crypto_def ex_data_def ex_round)
    then have "unat (ucast (of_nat k :: u64) :: hash_value) = unat (ucast (of_nat l :: u64) :: hash_value)" by simp
    moreover have "unat (of_nat k :: u64) = k" "unat (of_nat l :: u64) = l" using that(2,3) n by (simp_all add: unat_of_nat_u64)
    ultimately have "k mod 2 ^ 256 = l mod 2 ^ 256" by (simp add: unsigned_ucast_eq take_bit_eq_mod)
    then show ?thesis using that(2,3) n by simp
  qed
  ultimately show ?thesis unfolding inj_on_def by blast
qed

section \<open>An interrupted epoch change\<close>

text \<open>The validator has voted in rounds 1 to 3 of epoch 1. Its sixth call to the storage will fail.\<close>

definition ex_flaky :: "block_info \<Rightarrow> safety_rules" where
  "ex_flaky g = (ex_node g 3 0)\<lparr>sr_persistent_storage := (ex_storage g 3 0)\<lparr>ps_unavailable := (\<lambda>n. n = 5)\<rparr>\<rparr>"

definition ex_flaky_after :: "block_info \<Rightarrow> safety_rules" where
  "ex_flaky_after g = (ex_node g 3 0)\<lparr>sr_persistent_storage :=
     (ex_storage g 3 0)\<lparr>ps_last_voted_round := Some 0, ps_calls := 6, ps_unavailable := (\<lambda>n. n = 5)\<rparr>\<rparr>"

definition ex_next_epoch :: epoch_change_proof where
  "ex_next_epoch = \<lparr>ecp_ledger_infos = [\<lparr>lis_ledger_info = \<lparr>commit_info =
       \<lparr>bi_epoch = 1, bi_round = 9, bi_id = 9, bi_executed_state_id = ACCUMULATOR_PLACEHOLDER_HASH, bi_version = 0, bi_timestamp_usecs = 0,
        bi_next_epoch_state = Some \<lparr>es_epoch = 2, es_verifier = ex_verifier\<rparr>\<rparr>, consensus_data_hash = 0\<rparr>, lis_signatures = bempty\<rparr>], ecp_more = False\<rparr>"

text \<open>Another execution result for the block of round 2.\<close>

definition ex_other :: "block_info \<Rightarrow> unit maybe_signed_vote_proposal" where
  "ex_other g = (ex_proposal g 1)\<lparr>ms_vote_proposal :=
     (ms_vote_proposal (ex_proposal g 1))\<lparr>vp_next_epoch_state := Some \<lparr>es_epoch = 2, es_verifier = ex_verifier\<rparr>\<rparr>\<rparr>"

lemma ex_flaky_initialize:
  "initialize ex_crypto ex_next_epoch (ex_flaky g) = (Inl (Err (InternalError ''Storage is unavailable'')), ex_flaky_after g)"
proof -
  let ?lis = "hd (ecp_ledger_infos ex_next_epoch)"
  have "epoch_change_proof_verify ex_scheme (\<lambda>_. 0) ex_next_epoch (WaypointVerifier \<lparr>wp_version = 0, wp_value = 0\<rparr>) = Inr ?lis"
    "next_epoch_state (lis_ledger_info ?lis) = Some \<lparr>es_epoch = 2, es_verifier = ex_verifier\<rparr>"
    "waypoint_new_epoch_boundary (\<lambda>_. 0) (lis_ledger_info ?lis) = Inr \<lparr>wp_version = 0, wp_value = 0\<rparr>"
    by (simp_all add: epoch_change_proof_verify_def ex_next_epoch_def waypoint_verify_def waypoint_new_epoch_boundary_def ends_epoch_def
        waypoint_new_any_def)
  moreover have "get_public_key ex_verifier 7 = Some [1]" by (simp add: get_public_key_def ex_verifier_def new_single_def verifier_new_def Let_def)
  moreover have "cc_ledger_info ex_crypto = ex_scheme" "cc_waypoint ex_crypto = (\<lambda>_. 0)" "signer_public_key ex_crypto \<lparr>vs_author = 7, vs_private_key = [1]\<rparr> = [1]"
    by (simp_all add: ex_crypto_def signer_public_key_def)
  ultimately show ?thesis
    by (simp add: initialize_def st_bind_def on_storage_def store_get_def ex_flaky_def ex_flaky_after_def st_read_def start_epoch_def
        reconcile_signer_def st_ok_def st_modify_def ex_node_def ex_storage_def Let_def store_set_def set_waypoint_def
        set_last_voted_round_def set_preferred_round_def numeral_eq_Suc)
qed

lemma ex_flaky_vote:
  assumes g: "ex_ok g"
  shows "\<exists>v s'. construct_and_sign_vote ex_crypto (ex_other g) (ex_flaky_after g) = (Inr v, s') \<and>
    vote_epoch v = 1 \<and> vote_round v = 2 \<and> bi_next_epoch_state (vd_proposed (vote_vote_data v)) \<noteq> None"
proof -
  let ?b = "vp_block (ms_vote_proposal (ex_other g))"
  have b: "block_quorum_cert ?b = ex_qc g 1" "block_round ?b = 2" "block_epoch ?b = 1" "bd_block_type (block_block_data ?b) = NilBlock"
    "block_timestamp_usecs ?b = bi_timestamp_usecs g"
    by (simp_all add: ex_other_def ex_proposal_def block_new_nil_def block_of_data_def block_data_new_nil_def ex_qc_def ex_data_def ex_info_def)
  have qv: "quorum_cert_verify ex_crypto (ex_qc g 1) ex_verifier = Inr ()" using ex_qc_verified [of g 1] g by simp
  have ex: "extension_check ex_crypto (ms_vote_proposal (ex_other g)) =
    Inr \<lparr>vd_proposed = gen_block_info ?b ACCUMULATOR_PLACEHOLDER_HASH 0 (Some \<lparr>es_epoch = 2, es_verifier = ex_verifier\<rparr>), vd_parent = ex_info g 1\<rparr>"
    unfolding extension_check_def b Let_def
    by (simp add: ex_qc_def ex_data_def ex_other_def ex_proposal_def) (simp add: ex_info_def ex_extension accumulator_version_def)
  have r: "bi_round (certified_block (ex_qc g 1)) = 1" "bi_round (parent_block (ex_qc g 1)) = 0"
    using g by (simp_all add: ex_qc_def ex_data_def ex_info_def)
  have val: "block_validate_signature ex_crypto ?b (es_verifier \<lparr>es_epoch = 1, es_verifier = ex_verifier\<rparr>) = Inr ()"
    using qv by (simp add: block_validate_signature_def b)
  have v3: "vote_round v \<noteq> block_round ?b" if "Some (ex_vote g 3) = Some v" for v
    using that by (auto simp: ex_vote_def ex_data_def ex_info_def b)
  let ?s = "ex_flaky_after g"
  have s: "available ?s" "sr_validator_signer ?s = Some \<lparr>vs_author = 7, vs_private_key = [1]\<rparr>" "sr_execution_public_key ?s = None"
    "sr_epoch_state ?s = Some \<lparr>es_epoch = 1, es_verifier = ex_verifier\<rparr>" "ps_epoch (stor ?s) = Some (block_epoch ?b)"
    "ps_preferred_round (stor ?s) = Some 1" "ps_last_voted_round (stor ?s) = Some 0" "ps_last_vote (stor ?s) = Some (Some (ex_vote g 3))"
    by (simp_all add: available_def ex_flaky_after_def ex_node_def ex_storage_def b)
  have "1 \<le> bi_round (certified_block (block_quorum_cert ?b))" "0 < block_round ?b" using r by (simp_all add: b)
  from vote_granted_lemma [OF s val this v3 ex, of "[]"] show ?thesis
    by (auto simp: vote_for_def gen_block_info_def b ex_crypto_def ex_scheme_def)
qed

section \<open>Properties\<close>

lemma certified_path_rounds: "(certified_link C ev honest sys e)\<^sup>*\<^sup>* b b' \<Longrightarrow> b = b' \<or> bi_round b < bi_round b'"
proof (induction rule: rtranclp_induct)
  case (step y z)
  then show ?case using run.grows [OF step.hyps(2)] by (auto simp: word_less_nat_alt)
qed simp

text \<open>
  C1: Agreement. In every reachable state of a system in which the honest validators run the safety
  rules, and the rest of the network presents to them whatever well-formed blocks it likes without
  forging the signatures of honest validators: if the faulty validators of an epoch have at most a
  third of its voting power and the hash function has no collision among the vote data seen, then
  of any two ledger infos that \<open>EpochState::verify\<close> accepts for the epoch, each committing a block
  after the first one, one committed block is an ancestor of the other through certified blocks, and if
  they are of the same round they are the same.
\<close>

theorem committed_blocks_agree:
  "reachable C ev honest sys \<Longrightarrow> batch_sound (cc_ledger_info C) \<Longrightarrow> verifier_ok (ev e) \<Longrightarrow> \<not> verifier_is_empty (ev e) \<Longrightarrow>
   3 * (\<Sum>a \<in> (- honest) \<inter> members (ev e). power_of (ev e) a) \<le> total_power (ev e) \<Longrightarrow>
   inj_on (cc_vote_data_hash C) (vote_datas sys) \<Longrightarrow>
   epoch_state_verify (cc_ledger_info C) \<lparr>es_epoch = e, es_verifier = ev e\<rparr> lis = Inr () \<Longrightarrow> unforged C ev honest (sent sys) lis e \<Longrightarrow>
   epoch_state_verify (cc_ledger_info C) \<lparr>es_epoch = e, es_verifier = ev e\<rparr> lis' = Inr () \<Longrightarrow> unforged C ev honest (sent sys) lis' e \<Longrightarrow>
   0 < bi_round (commit_info (lis_ledger_info lis)) \<Longrightarrow> 0 < bi_round (commit_info (lis_ledger_info lis')) \<Longrightarrow>
   ((certified_link C ev honest sys e)\<^sup>*\<^sup>* (commit_info (lis_ledger_info lis)) (commit_info (lis_ledger_info lis')) \<or>
    (certified_link C ev honest sys e)\<^sup>*\<^sup>* (commit_info (lis_ledger_info lis')) (commit_info (lis_ledger_info lis))) \<and>
   (bi_round (commit_info (lis_ledger_info lis)) = bi_round (commit_info (lis_ledger_info lis')) \<longrightarrow>
    commit_info (lis_ledger_info lis) = commit_info (lis_ledger_info lis'))"
proof -
  assume r: "reachable C ev honest sys" "batch_sound (cc_ledger_info C)" "verifier_ok (ev e)" "\<not> verifier_is_empty (ev e)"
    "3 * (\<Sum>a \<in> (- honest) \<inter> members (ev e). power_of (ev e) a) \<le> total_power (ev e)" "inj_on (cc_vote_data_hash C) (vote_datas sys)"
    and v: "epoch_state_verify (cc_ledger_info C) \<lparr>es_epoch = e, es_verifier = ev e\<rparr> lis = Inr ()" "unforged C ev honest (sent sys) lis e"
    "epoch_state_verify (cc_ledger_info C) \<lparr>es_epoch = e, es_verifier = ev e\<rparr> lis' = Inr ()" "unforged C ev honest (sent sys) lis' e"
    "0 < bi_round (commit_info (lis_ledger_info lis))" "0 < bi_round (commit_info (lis_ledger_info lis'))"
  have "members (ev e) \<noteq> {}" using r(4) by (auto simp: verifier_is_empty_def verifier_len_def members_def bkeys_def blen_def)
  with r have "safe_run C ev honest sys e" by (simp add: safe_run_def)
  from agreement_lemma [OF this v] show ?thesis using certified_path_rounds by fastforce
qed

theorem committed_blocks_agree_witness:
  "\<exists>sys. (certified_link ex_crypto ex_epochs {7} sys 1)\<^sup>*\<^sup>* (ex_info (ex_genesis 0 0 0) 1) (ex_info (ex_genesis 0 0 0) 2) \<or>
     (certified_link ex_crypto ex_epochs {7} sys 1)\<^sup>*\<^sup>* (ex_info (ex_genesis 0 0 0) 2) (ex_info (ex_genesis 0 0 0) 1)"
proof -
  let ?g = "ex_genesis 0 0 0"
  have g: "ex_ok ?g" by (simp add: ex_genesis_def)
  obtain c where r: "reachable ex_crypto ex_epochs {7} (ex_system ?g 4 c)" using ex_reachable [OF g, of 4] by auto
  have l: "cc_ledger_info ex_crypto = ex_scheme" by (simp add: ex_crypto_def)
  have f: "3 * (\<Sum>a \<in> (- {7}) \<inter> members ex_verifier. power_of ex_verifier a) \<le> total_power ex_verifier" by (simp add: ex_verifier_props)
  have i: "commit_info (lis_ledger_info (ex_lis ?g 3)) = ex_info ?g 1" "commit_info (lis_ledger_info (ex_lis ?g 4)) = ex_info ?g 2"
    using ex_committed(2) [OF g, of 3] ex_committed(2) [OF g, of 4] by simp_all
  have "((certified_link ex_crypto ex_epochs {7} (ex_system ?g 4 c) 1)\<^sup>*\<^sup>* (ex_info ?g 1) (ex_info ?g 2) \<or>
     (certified_link ex_crypto ex_epochs {7} (ex_system ?g 4 c) 1)\<^sup>*\<^sup>* (ex_info ?g 2) (ex_info ?g 1)) \<and>
     (bi_round (ex_info ?g 1) = bi_round (ex_info ?g 2) \<longrightarrow> ex_info ?g 1 = ex_info ?g 2)"
    using committed_blocks_agree [OF r, of 1 "ex_lis ?g 3" "ex_lis ?g 4", unfolded l i]
      ex_batch_sound ex_verifier_props(1,4) f ex_no_collision [OF g, of 4 c] ex_committed(1) [OF g, of 3] ex_committed(1) [OF g, of 4]
      ex_unforged [of 3 4 ?g c 1] ex_unforged [of 4 4 ?g c 1]
    by (simp add: ex_round ex_genesis_def)
  then show ?thesis by blast
qed

text \<open>
  C3: One vote per round. In every reachable state two votes that an honest validator has sent for
  the same epoch and round are the same vote, whatever calls to its storage have failed while it was
  voting, proposing or timing out, and across its restarts.
\<close>

theorem one_vote_per_round:
  "reachable C ev honest sys \<Longrightarrow> a \<in> honest \<Longrightarrow> (a, v) \<in> sent sys \<Longrightarrow> (a, v') \<in> sent sys \<Longrightarrow>
   vote_epoch v = vote_epoch v' \<Longrightarrow> vote_round v = vote_round v' \<Longrightarrow> v = v'"
  using sent_votes by metis

theorem one_vote_per_round_witness:
  "\<exists>sys. reachable ex_crypto ex_epochs {7} sys \<and> (7, ex_vote (ex_genesis 0 0 0) 1) \<in> sent sys \<and>
     (\<forall>v. (7, v) \<in> sent sys \<longrightarrow> vote_epoch v = 1 \<longrightarrow> vote_round v = 1 \<longrightarrow> v = ex_vote (ex_genesis 0 0 0) 1)"
proof -
  let ?g = "ex_genesis 0 0 0"
  have g: "ex_ok ?g" by (simp add: ex_genesis_def)
  obtain c where r: "reachable ex_crypto ex_epochs {7} (ex_system ?g 1 c)" using ex_reachable [OF g, of 1] by auto
  have m: "(7, ex_vote ?g 1) \<in> sent (ex_system ?g 1 c)" by (auto simp: ex_system_def)
  have "vote_epoch (ex_vote ?g 1) = 1" "vote_round (ex_vote ?g 1) = 1" by (simp_all add: ex_vote_def ex_data_def ex_info_def)
  with one_vote_per_round [OF r _ _ m] r m show ?thesis by (metis insertI1)
qed

text \<open>
  C5: Votes are granted. If its storage answers and the validator has a key, an epoch, a preferred
  round not past the round of the certified parent and a last voted round before the round of the
  block, and it has not cast a vote for that round, then \<open>construct_and_sign_vote\<close> returns a vote for a
  block with valid signatures whose execution result extends that of the parent. The vote commits
  the grandparent exactly when the three rounds are consecutive, and the storage keeps the vote, its
  round and the raised preferred round.
\<close>

theorem vote_granted:
  "available s \<Longrightarrow> sr_validator_signer s = Some vs \<Longrightarrow> sr_execution_public_key s = None \<Longrightarrow> sr_epoch_state s = Some es \<Longrightarrow>
   ps_epoch (stor s) = Some (block_epoch (vp_block (ms_vote_proposal mp))) \<Longrightarrow> ps_preferred_round (stor s) = Some y \<Longrightarrow>
   ps_last_voted_round (stor s) = Some x \<Longrightarrow> ps_last_vote (stor s) = Some lv \<Longrightarrow>
   block_validate_signature C (vp_block (ms_vote_proposal mp)) (es_verifier es) = Inr () \<Longrightarrow>
   y \<le> bi_round (certified_block (block_quorum_cert (vp_block (ms_vote_proposal mp)))) \<Longrightarrow>
   x < block_round (vp_block (ms_vote_proposal mp)) \<Longrightarrow>
   (\<And>v. lv = Some v \<Longrightarrow> vote_round v \<noteq> block_round (vp_block (ms_vote_proposal mp))) \<Longrightarrow>
   extension_check C (ms_vote_proposal mp) = Inr d \<Longrightarrow> (\<And>m. encode_msg (cc_ledger_info C) m \<noteq> None) \<Longrightarrow>
   \<exists>v s'. construct_and_sign_vote C mp s = (Inr v, s') \<and> vote_vote_data v = d \<and>
     vote_ledger_info v = \<lparr>commit_info = three_chain_commit (block_quorum_cert (vp_block (ms_vote_proposal mp)))
       (block_round (vp_block (ms_vote_proposal mp))), consensus_data_hash = cc_vote_data_hash C d\<rparr> \<and>
     ps_last_vote (stor s') = Some (Some v) \<and> ps_last_voted_round (stor s') = Some (block_round (vp_block (ms_vote_proposal mp))) \<and>
     ps_preferred_round (stor s') = Some (max y (bi_round (parent_block (block_quorum_cert (vp_block (ms_vote_proposal mp))))))"
proof -
  let ?b = "vp_block (ms_vote_proposal mp)"
  assume a: "available s" "sr_validator_signer s = Some vs" "sr_execution_public_key s = None" "sr_epoch_state s = Some es"
    "ps_epoch (stor s) = Some (block_epoch ?b)" "ps_preferred_round (stor s) = Some y"
    "ps_last_voted_round (stor s) = Some x" "ps_last_vote (stor s) = Some lv" "block_validate_signature C ?b (es_verifier es) = Inr ()"
    "y \<le> bi_round (certified_block (block_quorum_cert ?b))" "x < block_round ?b" "\<And>v. lv = Some v \<Longrightarrow> vote_round v \<noteq> block_round ?b"
    "extension_check C (ms_vote_proposal mp) = Inr d" and enc: "\<And>m. encode_msg (cc_ledger_info C) m \<noteq> None"
  obtain bytes where "encode_msg (cc_ledger_info C) \<lparr>commit_info = three_chain_commit (block_quorum_cert ?b) (block_round ?b),
      consensus_data_hash = cc_vote_data_hash C d\<rparr> = Some bytes" using enc by blast
  from vote_granted_lemma [OF a this] obtain n where "construct_and_sign_vote C mp s =
    (Inr (vote_for C vs d (three_chain_commit (block_quorum_cert ?b) (block_round ?b)) bytes),
     s\<lparr>sr_persistent_storage := (stor s)\<lparr>ps_last_vote := Some (Some (vote_for C vs d (three_chain_commit (block_quorum_cert ?b) (block_round ?b)) bytes)),
        ps_calls := n, ps_last_voted_round := Some (block_round ?b),
        ps_preferred_round := Some (max y (bi_round (parent_block (block_quorum_cert ?b))))\<rparr>\<rparr>)" ..
  then show ?thesis by (simp add: vote_for_def)
qed

theorem vote_granted_witness:
  "\<exists>v s'. construct_and_sign_vote ex_crypto (ex_proposal (ex_genesis 0 0 0) 0) (ex_node (ex_genesis 0 0 0) 0 0) = (Inr v, s') \<and>
     vote_vote_data v = ex_data (ex_genesis 0 0 0) 1"
proof -
  let ?g = "ex_genesis 0 0 0" and ?b = "vp_block (ms_vote_proposal (ex_proposal (ex_genesis 0 0 0) 0))"
  have g: "ex_ok ?g" by (simp add: ex_genesis_def)
  have "quorum_cert_verify ex_crypto (ex_qc ?g 0) ex_verifier = Inr ()" using ex_qc_verified [of ?g 0] g by simp
  then have val: "block_validate_signature ex_crypto ?b ex_verifier = Inr ()"
    by (simp add: block_validate_signature_def ex_proposal_def block_new_nil_def block_of_data_def block_data_new_nil_def)
  let ?s = "ex_node ?g 0 0"
  have s: "available ?s" "sr_validator_signer ?s = Some \<lparr>vs_author = 7, vs_private_key = [1]\<rparr>" "sr_execution_public_key ?s = None"
    "sr_epoch_state ?s = Some \<lparr>es_epoch = 1, es_verifier = ex_verifier\<rparr>" "ps_epoch (stor ?s) = Some (block_epoch ?b)"
    "ps_preferred_round (stor ?s) = Some 0" "ps_last_voted_round (stor ?s) = Some 0" "ps_last_vote (stor ?s) = Some None"
    by (simp_all add: available_def ex_node_def ex_storage_def ex_proposal_simps ex_info_def ex_genesis_def)
  have b: "0 \<le> bi_round (certified_block (block_quorum_cert ?b))" "0 < block_round ?b" by (simp_all add: ex_proposal_simps)
  have enc: "encode_msg (cc_ledger_info ex_crypto) m \<noteq> None" for m by (simp add: ex_crypto_def ex_scheme_def)
  have d: "extension_check ex_crypto (ms_vote_proposal (ex_proposal ?g 0)) = Inr (ex_data ?g 1)" using ex_extension_check [OF g, of 0] by simp
  from vote_granted [OF s _ b _ d enc] val show ?thesis by simp blast
qed

text \<open>
  C39: The first block of an epoch is not bound to the epoch. \<open>QuorumCert::verify\<close> accepts a
  certificate without signatures for any block of round 0. For every block id and timestamp there is a
  reachable state, of a system whose only validator is honest, in which the validator has been presented
  such certificate and has signed, two rounds later, a ledger info that commits that block and that
  \<open>EpochState::verify\<close> accepts.
\<close>

theorem forged_genesis_committed:
  "\<exists>sys lis. reachable ex_crypto ex_epochs {7} sys \<and> unforged ex_crypto ex_epochs {7} (sent sys) lis 1 \<and>
     epoch_state_verify ex_scheme \<lparr>es_epoch = 1, es_verifier = ex_verifier\<rparr> lis = Inr () \<and>
     commit_info (lis_ledger_info lis) = ex_genesis gid 0 ts"
proof -
  let ?g = "ex_genesis gid 0 ts"
  have g: "ex_ok ?g" by (simp add: ex_genesis_def)
  obtain c where "reachable ex_crypto ex_epochs {7} (ex_system ?g 2 c)" using ex_reachable [OF g, of 2] by auto
  with ex_unforged [of 2 2 ?g c 1] ex_committed [OF g, of 2] show ?thesis by (auto simp: ex_info_def)
qed


end
