(* ===== verification/Spec2Isabelle.thy ===== *)
theory Spec2Isabelle
  imports Prelude Position_Iter Hash_Value Accumulator_Store Epoch_Change Transaction_Proof State_Proof Bft_Properties
begin

text \<open>
  This library models the part of Libra Core on which its safety rests, from the Rust sources under
  \<open>src/\<close>, and proves what a user of a Libra network, a client of a Libra database and the operator of a
  validator rely on.

  \<^bold>\<open>The program.\<close> Validators agree on a sequence of blocks of transactions. A validator asks its safety
  rules (\<open>consensus/safety-rules\<close>) for a signature on each vote, proposal and timeout; a quorum of votes is
  a quorum certificate, and a chain of three certified blocks in consecutive rounds commits the first one.
  A commit is signed as a ledger info: the root hash of a Merkle accumulator over all the transaction
  infos, the version of the last transaction and, at the end of an epoch, the next validator set. LibraDB
  (\<open>storage/libradb\<close>) keeps transactions, events and the nodes of the accumulators in columns of a key
  value store and answers every query with a proof. Clients (\<open>types/src/proof\<close>, \<open>types/src/trusted_state.rs\<close>)
  check these proofs against a ledger info, and ledger infos against the validator set they trust, which
  they ratchet from epoch to epoch.

  \<^bold>\<open>Conventions.\<close> \<open>u64\<close> and \<open>u8\<close> are machine words and their operations wrap, as in a release build. A
  fallible function returns \<open>'e fault + 'a\<close>: \<open>Inl (Err e)\<close> is a returned error, \<open>Inl (Panic msg)\<close> a panic,
  \<open>Inr x\<close> a result; \<open>rbind\<close> is the operator \<open>?\<close>. Functions that change \<open>self\<close> and may fail half way are
  of type \<open>('s, 'e, 'a) st\<close> and keep the state reached at the failure. Definitions have the names of the
  Rust functions, with the type in front where two types have a function of the same name. SHA3, the
  curve arithmetic of ed25519-dalek and the LCS encodings below a signature or a hash are parameters
  (\<open>'p proof_hashers\<close>, \<open>'v dalek\<close>, \<open>'p consensus_crypto\<close>); a theorem that needs that hashes do not
  collide says so of the finite set of inputs at hand, never of the whole function, which would be
  unsatisfiable.

  \<^bold>\<open>Theories.\<close>
  \<^item> \<open>Prelude\<close>: machine types, results, stateful results and their combinators. \<open>BTree_Map\<close>: the ordered
    maps of Rust and the columns of the database.
  \<^item> \<open>Position\<close>, \<open>Position_Order\<close>, \<open>Position_Iter\<close>: \<open>types/src/proof/position/mod.rs\<close>, the in-order
    numbers of the nodes of an accumulator, with their structure as pairs of a level and an index, the
    two traversals of a tree and the iterators over its frozen subtrees.
  \<^item> \<open>Hash_Value\<close>: \<open>crypto/crypto/src/hash.rs\<close> and \<open>common/nibble\<close>. \<open>Ed25519\<close>: the checks of
    \<open>crypto/crypto/src/ed25519.rs\<close> around the curve.
  \<^item> \<open>Accumulator\<close>, \<open>Accumulator_Tree\<close>, \<open>Accumulator_Proof\<close>, \<open>Accumulator_Range\<close>: the in-memory
    accumulator, the tree it refines, and inclusion, range, consistency and extension proofs with their
    verifiers: complete, and sound without collisions.
  \<^item> \<open>Storage_Accumulator\<close>, \<open>Accumulator_Store\<close>: \<open>storage/accumulator\<close>, the accumulator over a store of
    frozen nodes. The locale \<open>merkle_log\<close> is what a log with a Merkle root promises; it is interpreted on
    the in-memory accumulator and on the columns of LibraDB, and \<open>merkle_log_pair\<close> compares the two.
  \<^item> \<open>Validator_Verifier\<close>, \<open>Ledger_Info\<close>, \<open>Epoch_Change\<close>: validator sets and quorums, ledger infos,
    epoch change proofs, waypoints and the trusted state of a client. The locale \<open>quorum_system\<close> is what
    agreement asks of voting powers.
  \<^item> \<open>Sparse_Merkle_Proof\<close>, \<open>Transaction_Proof\<close>: the proofs of account states, transactions and events.
  \<^item> \<open>Schema_Codec\<close>, \<open>Schema_Db\<close>, \<open>Ledger_Store\<close>, \<open>Event_Store\<close>, \<open>Libra_Db\<close>, \<open>State_Proof\<close>: LibraDB,
    from the bytes of its keys to the queries: a write extends the ledger that the columns represent, and
    the verifier of the client accepts every answer.
  \<^item> \<open>Consensus_Types\<close>, \<open>Safety_Rules\<close>: blocks, votes, certificates and messages with their checks, and
    the safety rules over a storage any call to which may fail.
  \<^item> \<open>Voter\<close>, \<open>Safety_Voter\<close>, \<open>Bft_Safety\<close>, \<open>Bft_Properties\<close>: an abstract voter with one transition per
    write to the storage; the refinement of the safety rules to it; agreement in every run of validators
    among which at most a third of the voting power is faulty (locale \<open>chain_votes\<close>, interpreted on the
    runs of the modelled validators); and the properties of the safety rules.

  \<^bold>\<open>What is shown.\<close> Two honest validators never commit conflicting blocks in an epoch, with crashes and
  failing storage calls at any point. A validator votes once per round. Clients that follow the same
  chain of epochs agree on every validator set. The accumulators compute the Merkle tree of their leaves;
  their proofs are complete and sound. What LibraDB writes and reads is the ledger, and its answers
  verify. Keys are ordered by their encodings the way the iterators rely on. Where the code does not do
  what its comments say, the deviation is a theorem: a certificate of the genesis round is accepted
  without signatures, an interrupted initialisation of the safety rules lets a validator vote twice in
  a round, total voting powers wrap around, extension proofs and transaction lists do not bind the
  version they claim.

  \<^bold>\<open>Bounds.\<close> Recursion over trees is bounded by the 64 levels that positions have; the loops whose end is
  not structural (the binary search over sequence numbers, the iterators over subtrees) have termination
  proofs. No definition needs fuel.

  \<^bold>\<open>Not modelled.\<close> The Move language (compiler, bytecode verifier, virtual machine, prover, standard
  library): a system of its own. Execution (\<open>execution/\<close>), the Jellyfish Merkle tree and the sparse Merkle
  tree of the executor: the state store enters LibraDB as a parameter that returns root hashes. The event
  loops of consensus, mempool, network, state synchroniser and JSON-RPC service: asynchronous I/O.
  Secure storage backends, configuration, metrics, command line tools and test suites. LCS encodings of
  values: a serde format driven by derive macros.
\<close>

end
